(* ===== verification/Prelude.thy ===== *)
theory Prelude
  imports Main "HOL-Library.Word"
begin

text \<open>
  Shared vocabulary of the development: machine integers, the result type of code that
  can fault, and byte memory with bounds-checked reads and writes.

  The program is C for x86-64. Its undefined and aborting behaviours (an index outside an
  array, a read of an uninitialised buffer, a dereferenced NULL, a failed \<open>assert\<close>, a
  busy-wait that does not end, \<open>exit\<close>) are values of type \<open>fault\<close>; a
  function that can meet one returns \<open>fault + 'a\<close>.
\<close>

unbundle bit_operations_syntax

section \<open>Machine integers\<close>

type_synonym byte = "8 word"
type_synonym u16 = "16 word"
type_synonym u32 = "32 word"
type_synonym u64 = "64 word"

section \<open>Results that can fault\<close>

datatype fault =
    Out_of_bounds     \<comment> \<open>access outside an array or a packet's data room\<close>
  | Uninit_read       \<comment> \<open>a C string read from a buffer never written\<close>
  | Null_deref        \<comment> \<open>dereference of a pointer to no live object\<close>
  | Assert_failed     \<comment> \<open>\<open>assert\<close>\<close>
  | Hang              \<comment> \<open>a loop that never ends\<close>
  | Int_overflow      \<comment> \<open>signed arithmetic outside \<open>int\<close>\<close>
  | Div_by_zero       \<comment> \<open>\<open>%\<close> with a zero divisor\<close>
  | Exited            \<comment> \<open>\<open>exit\<close> or \<open>rte_exit\<close>\<close>

type_synonym 'a res = "fault + 'a"

named_theorems res_simps \<open>sequencing of results\<close>
named_theorems mem_simps \<open>reads and writes of byte memory\<close>

definition bindr :: "'a res \<Rightarrow> ('a \<Rightarrow> 'b res) \<Rightarrow> 'b res" where
  "bindr m f = (case m of Inl e \<Rightarrow> Inl e | Inr x \<Rightarrow> f x)"

definition check :: "fault \<Rightarrow> bool \<Rightarrow> unit res" where
  "check e b = (if b then Inr () else Inl e)"

lemma bindr_Inl [simp, res_simps]: "bindr (Inl e) f = Inl e"
  by (simp add: bindr_def)

lemma bindr_Inr [simp, res_simps]: "bindr (Inr x) f = f x"
  by (simp add: bindr_def)

lemma bindr_eq_Inr: "bindr m f = Inr y \<longleftrightarrow> (\<exists>x. m = Inr x \<and> f x = Inr y)"
  by (cases m) simp_all

lemma bindr_eq_Inl: "bindr m f = Inl e \<longleftrightarrow> m = Inl e \<or> (\<exists>x. m = Inr x \<and> f x = Inl e)"
  by (cases m) simp_all

lemma bindr_InrE [elim?]:
  assumes "bindr m f = Inr y"
  obtains x where "m = Inr x" "f x = Inr y"
  using assms by (auto simp: bindr_eq_Inr)

lemma check_True [simp, res_simps]: "check e True = Inr ()"
  by (simp add: check_def)

lemma check_False [simp, res_simps]: "check e False = Inl e"
  by (simp add: check_def)

lemma check_Inr [simp]: "check e b = Inr u \<longleftrightarrow> b"
  by (simp add: check_def)

lemma check_Inl [simp]: "check e b = Inl e' \<longleftrightarrow> \<not> b \<and> e' = e"
  by (auto simp: check_def)

lemma bindr_check: "bindr (check e b) f = (if b then f () else Inl e)"
  by simp

lemma if_bindr: "bindr (if b then m else n) f = (if b then bindr m f else bindr n f)"
  by simp

section \<open>Byte memory\<close>

text \<open>\<open>rd off n m\<close> reads \<open>n\<close> bytes at \<open>off\<close>; \<open>wr off bs m\<close> overwrites them.\<close>

definition rd :: "nat \<Rightarrow> nat \<Rightarrow> byte list \<Rightarrow> byte list res" where
  "rd off n m = (if off + n \<le> length m then Inr (take n (drop off m)) else Inl Out_of_bounds)"

definition wr :: "nat \<Rightarrow> byte list \<Rightarrow> byte list \<Rightarrow> byte list res" where
  "wr off bs m =
     (if off + length bs \<le> length m
      then Inr (take off m @ bs @ drop (off + length bs) m) else Inl Out_of_bounds)"

lemma rd_ok [mem_simps]: "off + n \<le> length m \<Longrightarrow> rd off n m = Inr (take n (drop off m))"
  by (simp add: rd_def)

lemma wr_ok [mem_simps]:
  "off + length bs \<le> length m \<Longrightarrow> wr off bs m = Inr (take off m @ bs @ drop (off + length bs) m)"
  by (simp add: wr_def)

lemma rd_Inr: "rd off n m = Inr bs \<longleftrightarrow> off + n \<le> length m \<and> bs = take n (drop off m)"
  by (auto simp: rd_def)

lemma wr_length: "wr off bs m = Inr m' \<Longrightarrow> length m' = length m"
  by (auto simp: wr_def split: if_splits)

lemma wr_eq_Inr:
  "wr off bs m = Inr m' \<longleftrightarrow>
     off + length bs \<le> length m \<and> m' = take off m @ bs @ drop (off + length bs) m"
  by (auto simp: wr_def)

lemma rd_wr_same:
  assumes "wr off bs m = Inr m'"
  shows "rd off (length bs) m' = Inr bs"
  using assms by (auto simp: wr_eq_Inr rd_def)

lemma rd_wr_before:
  assumes "wr off bs m = Inr m'" and "a + n \<le> off"
  shows "rd a n m' = rd a n m"
proof -
  from assms have "take n (drop a m') = take n (drop a m)"
    by (auto simp: wr_eq_Inr drop_take min_def)
  with assms show ?thesis by (simp add: rd_def wr_length)
qed

lemma rd_wr_after:
  assumes "wr off bs m = Inr m'" and "off + length bs \<le> a"
  shows "rd a n m' = rd a n m"
proof -
  from assms have "drop a m' = drop a m"
    by (auto simp: wr_eq_Inr)
  with assms show ?thesis by (simp add: rd_def wr_length)
qed

text \<open>Memory split into named regions: the form in which packet proofs keep it.\<close>

lemma wr_append_left [mem_simps]:
  "off + length bs \<le> length a \<Longrightarrow>
     wr off bs (a @ r) = Inr ((take off a @ bs @ drop (off + length bs) a) @ r)"
  by (simp add: wr_def)

lemma wr_append_right:
  "length a \<le> off \<Longrightarrow> wr off bs (a @ r) = bindr (wr (off - length a) bs r) (\<lambda>r'. Inr (a @ r'))"
  by (auto simp: wr_def)

lemma rd_append_left: "off + n \<le> length a \<Longrightarrow> rd off n (a @ r) = rd off n a"
  by (simp add: rd_def)

lemma rd_append_right: "length a \<le> off \<Longrightarrow> rd off n (a @ r) = rd (off - length a) n r"
  by (auto simp: rd_def)

lemma wr_here:
  "length a = off \<Longrightarrow> length x = length bs \<Longrightarrow> wr off bs (a @ x @ r) = Inr (a @ bs @ r)"
  by (simp add: wr_def)

lemma list_split_at:
  assumes "n \<le> length xs"
  obtains a b where "xs = a @ b" "length a = n"
  using assms by (metis append_take_drop_id length_take min.absorb2)

lemma list_split3:
  assumes "m + n \<le> length xs"
  obtains a b c where "xs = a @ b @ c" "length a = m" "length b = n"
proof -
  obtain a r where "xs = a @ r" "length a = m"
    using assms list_split_at [of m xs] by auto
  moreover from this assms obtain b c where "r = b @ c" "length b = n"
    using list_split_at [of n r] by auto
  ultimately show thesis using that by auto
qed

end
