(* ===== verification/Codec.thy ===== *)
theory Codec
  imports Prelude
begin

text \<open>
  Integers in byte memory. Network headers hold big-endian fields
  (\<open>rte_cpu_to_be_16\<close>, \<open>rte_be_to_cpu_32\<close>, \<open>htons\<close>, \<open>ntohs\<close>); the overlay
  \<open>struct net_sge\<close> and \<open>struct ip_tuple\<close> are written in the host's little-endian order.
  One locale states what every fixed-width encoding promises and proves once how a field
  reads back after a write; it is interpreted on each encoding below.
\<close>

section \<open>Encodings\<close>

primrec be_bytes :: "nat \<Rightarrow> nat \<Rightarrow> byte list" where
  "be_bytes 0 n = []"
| "be_bytes (Suc k) n = be_bytes k (n div 256) @ [word_of_nat n]"

fun be_val :: "nat \<Rightarrow> byte list \<Rightarrow> nat" where
  "be_val acc [] = acc"
| "be_val acc (b # bs) = be_val (256 * acc + unat b) bs"

definition of_be :: "byte list \<Rightarrow> 'a::len word" where "of_be bs = word_of_nat (be_val 0 bs)"
definition of_le :: "byte list \<Rightarrow> 'a::len word" where "of_le bs = of_be (rev bs)"

definition to_be16 :: "u16 \<Rightarrow> byte list" where "to_be16 w = be_bytes 2 (unat w)"
definition to_be32 :: "u32 \<Rightarrow> byte list" where "to_be32 w = be_bytes 4 (unat w)"
definition to_le16 :: "u16 \<Rightarrow> byte list" where "to_le16 w = rev (be_bytes 2 (unat w))"
definition to_le32 :: "u32 \<Rightarrow> byte list" where "to_le32 w = rev (be_bytes 4 (unat w))"
definition to_le64 :: "u64 \<Rightarrow> byte list" where "to_le64 w = rev (be_bytes 8 (unat w))"

lemma length_be_bytes [simp]: "length (be_bytes k n) = k"
  by (induction k arbitrary: n) simp_all

lemma length_to_be [simp]:
  "length (to_be16 a) = 2" "length (to_be32 b) = 4"
  "length (to_le16 a) = 2" "length (to_le32 b) = 4" "length (to_le64 c) = 8"
  by (simp_all add: to_be16_def to_be32_def to_le16_def to_le32_def to_le64_def)

lemma be_val_append: "be_val acc (as @ bs) = be_val (be_val acc as) bs"
  by (induction as arbitrary: acc) simp_all

lemma be_val_acc: "be_val acc bs = 256 ^ length bs * acc + be_val 0 bs"
proof (induction bs arbitrary: acc)
  case (Cons b bs)
  show ?case
    by (simp only: be_val.simps Cons [of "256 * acc + unat b"] Cons [of "256 * 0 + unat b"])
      (simp add: algebra_simps)
qed simp

lemma unat_byte_less: "unat (b :: byte) < 256"
  by (rule order.strict_trans2 [OF unsigned_less]) simp

lemma be_val_less: "be_val 0 bs < 256 ^ length bs"
proof (induction bs rule: rev_induct)
  case (snoc b bs)
  then have "256 * be_val 0 bs + 256 \<le> 256 * 256 ^ length bs" by linarith
  with unat_byte_less [of b] show ?case by (simp add: be_val_append)
qed simp

lemma be_val_be_bytes: "be_val 0 (be_bytes k n) = n mod 256 ^ k"
  by (induction k arbitrary: n) (simp_all add: be_val_append mod_mult2_eq unat_of_nat)

lemma be_bytes_be_val: "be_bytes (length bs) (be_val 0 bs) = bs"
proof (induction bs rule: rev_induct)
  case (snoc b bs)
  have "(256 * be_val 0 bs + unat b) div 256 = be_val 0 bs"
    using unat_byte_less [of b] by simp
  moreover have "word_of_nat (256 * be_val 0 bs + unat b) = b"
  proof -
    have "(256 :: byte) = 0" by simp
    then have "256 * x = 0" for x :: byte by (simp only: mult_zero_left)
    then show ?thesis by simp
  qed
  ultimately show ?case using snoc by (simp add: be_val_append)
qed simp

lemma be_bytes_numeral [simp]:
  "be_bytes 2 n = [word_of_nat (n div 256), word_of_nat n]"
  "be_bytes 4 n = [word_of_nat (n div 256 div 256 div 256), word_of_nat (n div 256 div 256),
     word_of_nat (n div 256), word_of_nat n]"
proof -
  have "2 = Suc (Suc 0)" "4 = Suc (Suc (Suc (Suc 0)))" by simp_all
  then show "be_bytes 2 n = [word_of_nat (n div 256), word_of_nat n]"
    "be_bytes 4 n = [word_of_nat (n div 256 div 256 div 256), word_of_nat (n div 256 div 256),
       word_of_nat (n div 256), word_of_nat n]"
    by (simp_all only: be_bytes.simps append.simps)
qed

lemma of_be_be_bytes:
  "LENGTH('a::len) = 8 * k \<Longrightarrow> of_be (be_bytes k (unat (w :: 'a word))) = w"
proof -
  assume len: "LENGTH('a) = 8 * k"
  have "(256 :: nat) ^ k = 2 ^ LENGTH('a)"
    using power_mult [of "2 :: nat" 8 k] by (simp add: len)
  then have "unat w mod 256 ^ k = unat w"
    by (simp only: mod_less unsigned_less)
  then show ?thesis
    by (simp add: of_be_def be_val_be_bytes)
qed

lemma of_be_to_be [simp]: "of_be (to_be16 a) = a" "of_be (to_be32 b) = b"
  unfolding to_be16_def to_be32_def by (rule of_be_be_bytes; simp)+

lemma of_le_to_le [simp]:
  "of_le (to_le16 a) = a" "of_le (to_le32 b) = b" "of_le (to_le64 c) = c"
  unfolding of_le_def to_le16_def to_le32_def to_le64_def rev_rev_ident
  by (rule of_be_be_bytes; simp)+

lemma unat_of_be:
  assumes "LENGTH('a::len) = 8 * length bs"
  shows "unat (of_be bs :: 'a word) = be_val 0 bs"
proof -
  have "(256 :: nat) ^ length bs = 2 ^ LENGTH('a)"
    using power_mult [of "2 :: nat" 8 "length bs"] by (simp add: assms)
  then show ?thesis
    using be_val_less [of bs] by (simp add: of_be_def unat_of_nat)
qed

lemma be_bytes_of_be:
  "LENGTH('a::len) = 8 * length bs \<Longrightarrow> be_bytes (length bs) (unat (of_be bs :: 'a word)) = bs"
  by (simp only: unat_of_be be_bytes_be_val)

lemma to_be16_of_be: "length bs = 2 \<Longrightarrow> to_be16 (of_be bs) = bs"
  using be_bytes_of_be [where 'a = 16, of bs] by (simp add: to_be16_def del: be_bytes_numeral)

lemma to_be32_of_be: "length bs = 4 \<Longrightarrow> to_be32 (of_be bs) = bs"
  using be_bytes_of_be [where 'a = 32, of bs] by (simp add: to_be32_def del: be_bytes_numeral)

section \<open>Reading and writing fields\<close>

definition rd_be16 :: "nat \<Rightarrow> byte list \<Rightarrow> u16 res" where
  "rd_be16 off m = bindr (rd off 2 m) (\<lambda>bs. Inr (of_be bs))"

definition rd_be32 :: "nat \<Rightarrow> byte list \<Rightarrow> u32 res" where
  "rd_be32 off m = bindr (rd off 4 m) (\<lambda>bs. Inr (of_be bs))"

definition rd_le16 :: "nat \<Rightarrow> byte list \<Rightarrow> u16 res" where
  "rd_le16 off m = bindr (rd off 2 m) (\<lambda>bs. Inr (of_le bs))"

definition rd_le32 :: "nat \<Rightarrow> byte list \<Rightarrow> u32 res" where
  "rd_le32 off m = bindr (rd off 4 m) (\<lambda>bs. Inr (of_le bs))"

definition rd_le64 :: "nat \<Rightarrow> byte list \<Rightarrow> u64 res" where
  "rd_le64 off m = bindr (rd off 8 m) (\<lambda>bs. Inr (of_le bs))"

text \<open>
  The interface a struct field offers: an encoder of fixed width and the reader of the same
  bytes. Whoever stores a value through the encoder may rely on the three laws proved in
  the locale, whatever the width and byte order.
\<close>

locale field_codec =
  fixes width :: nat
    and enc :: "'v \<Rightarrow> byte list"
    and dec :: "byte list \<Rightarrow> 'v"
    and read :: "nat \<Rightarrow> byte list \<Rightarrow> 'v res"
  assumes enc_length: "length (enc v) = width"
    and dec_enc: "dec (enc v) = v"
    and read_eq: "read off m = bindr (rd off width m) (\<lambda>bs. Inr (dec bs))"
begin

lemma read_after_write: "wr off (enc v) m = Inr m' \<Longrightarrow> read off m' = Inr v"
  using rd_wr_same [of off "enc v" m m'] by (simp add: read_eq enc_length dec_enc)

lemma read_after_write_disjoint:
  assumes "wr off bs m = Inr m'" and "a + width \<le> off \<or> off + length bs \<le> a"
  shows "read a m' = read a m"
  using assms by (auto simp: read_eq rd_wr_before rd_wr_after)

lemma write_ok: "off + width \<le> length m \<Longrightarrow> \<exists>m'. wr off (enc v) m = Inr m'"
  by (simp add: wr_def enc_length)

lemma enc_inj: "enc v = enc w \<Longrightarrow> v = w"
  using dec_enc by metis

lemma read_cons: "off = length a \<Longrightarrow> read off (a @ enc v @ r) = Inr v"
  by (simp add: read_eq rd_def enc_length dec_enc)

end

interpretation be16: field_codec 2 to_be16 of_be rd_be16
  by unfold_locales (simp_all add: rd_be16_def)

interpretation be32: field_codec 4 to_be32 of_be rd_be32
  by unfold_locales (simp_all add: rd_be32_def)

interpretation le16: field_codec 2 to_le16 of_le rd_le16
  by unfold_locales (simp_all add: rd_le16_def)

interpretation le32: field_codec 4 to_le32 of_le rd_le32
  by unfold_locales (simp_all add: rd_le32_def)

interpretation le64: field_codec 8 to_le64 of_le rd_le64
  by unfold_locales (simp_all add: rd_le64_def)

lemmas field_after_write =
  be16.read_after_write be32.read_after_write
  le16.read_after_write le32.read_after_write le64.read_after_write

lemma rd_be16_ok [mem_simps]:
  "off + 2 \<le> length m \<Longrightarrow> rd_be16 off m = Inr (of_be (take 2 (drop off m)))"
  by (simp add: rd_be16_def rd_def)

lemma rd_be32_ok [mem_simps]:
  "off + 4 \<le> length m \<Longrightarrow> rd_be32 off m = Inr (of_be (take 4 (drop off m)))"
  by (simp add: rd_be32_def rd_def)

end
