(* ===== verification/C_Strings.thy ===== *)
theory C_Strings
  imports Codec "HOL-Library.Char_ord"
begin

text \<open>
  The part of the C library the program uses on text: string literals, the string held by a
  buffer (up to its first NUL), decimal printing (\<open>%u\<close>, \<open>%d\<close> of a
  non-negative value) and the \<open>sscanf\<close> conversion \<open>%hhu\<close> as glibc
  performs it. Text is a list of bytes.
\<close>

section \<open>Literals and terminated strings\<close>

definition str :: "string \<Rightarrow> byte list" where
  "str s = map of_char s"

definition cstr :: "byte list \<Rightarrow> byte list" where
  "cstr bs = takeWhile (\<lambda>b. b \<noteq> 0) bs"

lemma str_simps [simp]: "str [] = []" "str (c # s) = of_char c # str s"
  by (simp_all add: str_def)

lemma str_append: "str (s @ t) = str s @ str t"
  by (simp add: str_def)

lemma cstr_simps [simp]: "cstr [] = []" "cstr (b # bs) = (if b = 0 then [] else b # cstr bs)"
  by (simp_all add: cstr_def)

lemma cstr_no_nul: "0 \<notin> set bs \<Longrightarrow> cstr bs = bs"
  by (induction bs) auto

lemma cstr_nul_free [simp]: "0 \<notin> set (cstr bs)"
  by (induction bs) auto

lemma cstr_idem [simp]: "cstr (cstr bs) = cstr bs"
  by (simp add: cstr_no_nul)

lemma cstr_append: "0 \<notin> set as \<Longrightarrow> cstr (as @ bs) = as @ cstr bs"
  by (induction as) auto

lemma length_cstr: "length (cstr bs) \<le> length bs"
  by (simp add: cstr_def length_takeWhile_le)

section \<open>Decimal printing\<close>

definition digit :: "nat \<Rightarrow> byte" where
  "digit d = 48 + word_of_nat d"

fun dec :: "nat \<Rightarrow> byte list" where
  "dec n = (if n < 10 then [digit n] else dec (n div 10) @ [digit (n mod 10)])"

declare dec.simps [simp del]

definition is_digit :: "byte \<Rightarrow> bool" where
  "is_digit b \<longleftrightarrow> 48 \<le> b \<and> b \<le> 57"

definition dec_val :: "byte list \<Rightarrow> nat" where
  "dec_val bs = foldl (\<lambda>a b. 10 * a + (unat b - 48)) 0 bs"

lemma unat_digit: "d < 10 \<Longrightarrow> unat (digit d) = 48 + d"
  by (simp add: digit_def unat_word_ariths unat_of_nat)

lemma is_digit_digit: "d < 10 \<Longrightarrow> is_digit (digit d)"
  by (simp add: is_digit_def word_le_nat_alt unat_digit)

lemma set_dec: "b \<in> set (dec n) \<Longrightarrow> is_digit b"
proof (induction n rule: dec.induct)
  case (1 n)
  then show ?case
    by (subst (asm) (2) dec.simps) (auto simp: is_digit_digit split: if_splits)
qed

lemma dec_nonempty [simp]: "dec n \<noteq> []"
  by (subst dec.simps) simp

lemma dec_val_dec: "dec_val (dec n) = n"
proof (induction n rule: dec.induct)
  case (1 n)
  show ?case
  proof (cases "n < 10")
    case True
    then show ?thesis by (subst dec.simps) (simp add: dec_val_def unat_digit)
  next
    case False
    with 1 have "dec_val (dec (n div 10)) = n div 10" by simp
    with False show ?thesis by (subst dec.simps) (simp add: dec_val_def unat_digit)
  qed
qed

lemma dec_inj: "dec m = dec n \<Longrightarrow> m = n"
  by (metis dec_val_dec)

lemma dec_leading_zero: "hd (dec n) = 48 \<Longrightarrow> n = 0"
proof (induction n rule: dec.induct)
  case (1 n)
  show ?case
  proof (cases "n < 10")
    case True
    then have "unat (hd (dec n)) = 48 + n" by (subst dec.simps) (simp add: unat_digit)
    then show ?thesis using "1.prems" by simp
  next
    case False
    then have "hd (dec n) = hd (dec (n div 10))" by (subst dec.simps) simp
    then show ?thesis using 1 False by simp
  qed
qed

lemma dec_nul_free [simp]: "0 \<notin> set (dec n)"
  using set_dec [of 0 n] by (auto simp: is_digit_def)

lemma length_dec: "n < 10 ^ k \<Longrightarrow> 0 < k \<Longrightarrow> length (dec n) \<le> k"
proof (induction n arbitrary: k rule: dec.induct)
  case (1 n)
  show ?case
  proof (cases "n < 10")
    case True
    with 1 show ?thesis by (subst dec.simps) simp
  next
    case False
    with "1.prems" obtain j where k: "k = Suc j" "0 < j"
      by (cases k; cases "k - 1") auto
    with "1.prems" have "n div 10 < 10 ^ j" by (simp add: less_mult_imp_div_less mult.commute)
    with "1.IH" [OF False this k(2)] False k show ?thesis by (subst dec.simps) simp
  qed
qed

section \<open>Scanning numbers\<close>

definition is_space :: "byte \<Rightarrow> bool" where
  "is_space b \<longleftrightarrow> b = 32 \<or> (9 \<le> b \<and> b \<le> 13)"

text \<open>The value \<open>strtoul\<close> yields for a digit string: saturating at \<open>ULONG_MAX\<close>.\<close>

definition strtoul_val :: "bool \<Rightarrow> nat \<Rightarrow> u64" where
  "strtoul_val neg n =
     (if 2 ^ 64 \<le> n then - 1 else if neg then - word_of_nat n else word_of_nat n)"

definition scan_sign :: "byte list \<Rightarrow> bool \<times> byte list" where
  "scan_sign s = (case s of
       [] \<Rightarrow> (False, [])
     | c # r \<Rightarrow> if c = 43 then (False, r) else if c = 45 then (True, r) else (False, s))"

definition scan_hhu :: "byte list \<Rightarrow> (byte \<times> byte list) option" where
  "scan_hhu s =
     (let (neg, r) = scan_sign (dropWhile is_space s);
          ds = takeWhile is_digit r
      in if ds = [] then None
         else Some (ucast (strtoul_val neg (dec_val ds)), dropWhile is_digit r))"

text \<open>A literal character of the format consumes exactly that character.\<close>

definition scan_lit :: "byte \<Rightarrow> byte list \<Rightarrow> byte list option" where
  "scan_lit c s = (case s of [] \<Rightarrow> None | b # r \<Rightarrow> if b = c then Some r else None)"

lemma scan_hhu_digits:
  assumes "ds \<noteq> []" "list_all is_digit ds" "dec_val ds < 256" and "r = [] \<or> \<not> is_digit (hd r)"
  shows "scan_hhu (ds @ r) = Some (word_of_nat (dec_val ds), r)"
proof -
  obtain b bs where d: "ds = b # bs" using assms(1) by (cases ds) auto
  then have b: "is_digit b" using assms(2) by simp
  then have ns: "\<not> is_space b" "b \<noteq> 43" "b \<noteq> 45"
    by (auto simp: is_digit_def is_space_def word_le_nat_alt)
  have tw: "takeWhile is_digit (ds @ r) = ds" "dropWhile is_digit (ds @ r) = r"
    using assms(2,4) by (cases r; auto simp: takeWhile_append dropWhile_append list_all_iff)+
  have "scan_sign (dropWhile is_space (ds @ r)) = (False, ds @ r)"
    using ns by (simp add: d scan_sign_def)
  moreover have "ucast (word_of_nat (dec_val ds) :: u64) = (word_of_nat (dec_val ds) :: byte)"
    using assms(3) by (simp add: word_unat_eq_iff unat_of_nat unsigned_ucast_eq take_bit_nat_eq_self)
  ultimately show ?thesis
    using assms(1,3) by (simp add: scan_hhu_def tw strtoul_val_def Let_def)
qed

lemma scan_hhu_dec:
  assumes "n < 256" and "r = [] \<or> \<not> is_digit (hd r)"
  shows "scan_hhu (dec n @ r) = Some (word_of_nat n, r)"
  using scan_hhu_digits [of "dec n" r] assms set_dec [of _ n] by (auto simp: dec_val_dec list_all_iff)

lemma scan_lit_Cons [simp]: "scan_lit c (b # r) = (if b = c then Some r else None)"
  by (simp add: scan_lit_def)

end
