(* ===== verification/Utils.thy ===== *)
theory Utils
  imports C_Strings "HOL-Library.Monad_Syntax"
begin

text \<open>
  \<open>middlebox/src/utils.c\<close>: dotted-decimal text to and from host-order addresses, the
  multicast test on a network-order address, and the middlebox's own address. The rest of the
  file is in \<open>Packet_Text\<close>, after packets.
\<close>

section \<open>Operations\<close>

definition EINVAL :: u32 where "EINVAL = 22"

definition LOCAL_IP :: "byte list" where "LOCAL_IP = str ''10.1.0.2''"
definition TARGET_IP :: "byte list" where "TARGET_IP = str ''10.1.0.3''"
definition LOCAL_MAC :: "byte list" where "LOCAL_MAC = str ''DE:AD:BE:EF:AA:AA''"

text \<open>The text left in a 16-byte buffer by \<open>snprintf(str, 16, "%d.%d.%d.%d", ...)\<close>.\<close>

definition ip_addr_text :: "u32 \<Rightarrow> byte list" where
  "ip_addr_text addr =
     dec (unat (drop_bit 24 addr AND 0xff)) @ [46] @ dec (unat (drop_bit 16 addr AND 0xff)) @ [46] @
     dec (unat (drop_bit 8 addr AND 0xff)) @ [46] @ dec (unat (addr AND 0xff))"

definition ip_addr_to_str :: "u32 \<Rightarrow> byte list" where
  "ip_addr_to_str addr = take 15 (ip_addr_text addr)"

definition ip_is_multicast :: "u32 \<Rightarrow> bool" where
  "ip_is_multicast ip = (let first_oct = ip AND 0xFF in 224 \<le> first_oct \<and> first_oct \<le> 239)"

text \<open>DPDK's \<open>RTE_IPV4\<close>: four octets, the first most significant.\<close>

definition RTE_IPV4 :: "byte \<Rightarrow> byte \<Rightarrow> byte \<Rightarrow> byte \<Rightarrow> u32" where
  "RTE_IPV4 a b c d = of_be [a, b, c, d]"

definition sscanf_ipv4 :: "byte list \<Rightarrow> (byte \<times> byte \<times> byte \<times> byte) option" where
  "sscanf_ipv4 s = do {
     (a, s) \<leftarrow> scan_hhu s;
     s \<leftarrow> scan_lit 46 s;
     (b, s) \<leftarrow> scan_hhu s;
     s \<leftarrow> scan_lit 46 s;
     (c, s) \<leftarrow> scan_hhu s;
     s \<leftarrow> scan_lit 46 s;
     (d, s) \<leftarrow> scan_hhu s;
     Some (a, b, c, d)
   }"

definition ip_str_to_int :: "byte list \<Rightarrow> u32" where
  "ip_str_to_int ip =
     (case sscanf_ipv4 (cstr ip) of
        None \<Rightarrow> - EINVAL
      | Some (a, b, c, d) \<Rightarrow> RTE_IPV4 a b c d)"

definition get_local_ip :: u32 where
  "get_local_ip = ip_str_to_int LOCAL_IP"

section \<open>Octets\<close>

lemma and_255: "unat (w AND 255 :: u32) = unat w mod 256"
proof -
  have "w AND 255 = take_bit 8 w"
    by (simp add: take_bit_eq_mask mask_eq_exp_minus_1)
  then show ?thesis by (simp only: unsigned_take_bit_eq) (simp add: take_bit_eq_mod)
qed

lemma unat_drop_bit: "unat (drop_bit k w :: u32) = unat w div 2 ^ k"
proof -
  have "take_bit LENGTH(32) (unat w) = unat w"
    by (simp only: take_bit_eq_mod mod_less unsigned_less)
  then show ?thesis unfolding unsigned_drop_bit_eq by (simp add: drop_bit_eq_div)
qed

lemmas octet_simps = and_255 unat_drop_bit

lemma byte_of_mod: "(word_of_nat (n mod 256) :: byte) = word_of_nat n"
  by (simp add: word_unat_eq_iff unat_of_nat)

lemma RTE_IPV4_octets:
  "RTE_IPV4 (word_of_nat (unat (drop_bit 24 a AND 0xff))) (word_of_nat (unat (drop_bit 16 a AND 0xff)))
     (word_of_nat (unat (drop_bit 8 a AND 0xff))) (word_of_nat (unat (a AND 0xff))) = a"
proof -
  have "of_be (to_be32 a) = a" by simp
  then show ?thesis
    by (simp add: RTE_IPV4_def octet_simps byte_of_mod to_be32_def flip: div_mult2_eq)
qed

lemma to_be32_RTE_IPV4 [simp]: "to_be32 (RTE_IPV4 a b c d) = [a, b, c, d]"
  by (simp add: RTE_IPV4_def to_be32_of_be)

section \<open>Printing and parsing addresses\<close>

lemma length_octet: "n < 256 \<Longrightarrow> length (dec n) \<le> 3"
  by (rule length_dec) simp_all

lemma octet_less: "unat (w AND 0xff :: u32) < 256"
  by (simp add: and_255)

lemma length_ip_addr_text: "length (ip_addr_text a) \<le> 15"
  using length_octet [OF octet_less [of "drop_bit 24 a"]]
    length_octet [OF octet_less [of "drop_bit 16 a"]]
    length_octet [OF octet_less [of "drop_bit 8 a"]] length_octet [OF octet_less [of a]]
  by (simp add: ip_addr_text_def)

lemma ip_addr_to_str_text: "ip_addr_to_str a = ip_addr_text a"
  using length_ip_addr_text [of a] by (simp add: ip_addr_to_str_def)

text \<open>An address printed by \<open>ip_addr_to_str\<close> is never cut off by the 16-byte limit of
  \<open>snprintf\<close>: the whole text and its NUL fit.\<close>

theorem ip_addr_to_str_fits:
  "ip_addr_to_str a = ip_addr_text a \<and> length (ip_addr_to_str a) + 1 \<le> 16"
  using length_ip_addr_text [of a] by (simp add: ip_addr_to_str_text)

lemma not_digit_dot [simp]: "\<not> is_digit 46"
  by (simp add: is_digit_def word_le_nat_alt)

lemma sscanf_ipv4_text:
  assumes "a < 256" "b < 256" "c < 256" "d < 256"
  shows "sscanf_ipv4 (dec a @ [46] @ dec b @ [46] @ dec c @ [46] @ dec d) =
     Some (word_of_nat a, word_of_nat b, word_of_nat c, word_of_nat d)"
  using assms scan_hhu_dec [of d "[]"] by (simp add: sscanf_ipv4_def scan_hhu_dec)

lemma sscanf_ip_addr_text:
  "sscanf_ipv4 (ip_addr_text a) = Some
     (word_of_nat (unat (drop_bit 24 a AND 0xff)), word_of_nat (unat (drop_bit 16 a AND 0xff)),
      word_of_nat (unat (drop_bit 8 a AND 0xff)), word_of_nat (unat (a AND 0xff)))"
  unfolding ip_addr_text_def by (rule sscanf_ipv4_text) (rule octet_less)+

lemma cstr_ip_addr_text: "cstr (ip_addr_text a) = ip_addr_text a"
  by (rule cstr_no_nul) (simp add: ip_addr_text_def)

lemma ip_str_to_int_text: "ip_str_to_int (ip_addr_text a) = a"
  unfolding ip_str_to_int_def cstr_ip_addr_text sscanf_ip_addr_text option.case prod.case
  by (rule RTE_IPV4_octets)

text \<open>Parsing the text of an address gives the address back, for every 32-bit address.\<close>

theorem ip_str_to_int_ip_addr_to_str: "ip_str_to_int (ip_addr_to_str a) = a"
  by (simp only: ip_addr_to_str_text ip_str_to_int_text)

text \<open>The middlebox's and the server's address, evaluated once.\<close>

lemma ip_str_to_int_eval:
  assumes "s = dec a @ [46] @ dec b @ [46] @ dec c @ [46] @ dec d"
    and "a < 256" "b < 256" "c < 256" "d < 256"
  shows "ip_str_to_int s = RTE_IPV4 (word_of_nat a) (word_of_nat b) (word_of_nat c) (word_of_nat d)"
proof -
  have "0 \<notin> set s" by (simp add: assms(1))
  then have "cstr s = s" by (rule cstr_no_nul)
  then show ?thesis
    using sscanf_ipv4_text [OF assms(2-5)] by (simp only: ip_str_to_int_def assms(1)) simp
qed

lemma dec_digit: "n < 10 \<Longrightarrow> dec n = [digit n]"
  by (subst dec.simps) simp

lemma dec_10: "dec 10 = [49, 48]"
  by (subst dec.simps) (simp add: dec_digit digit_def)

lemma get_local_ip_eq: "get_local_ip = RTE_IPV4 10 1 0 2"
  using ip_str_to_int_eval [of LOCAL_IP 10 1 0 2]
  by (simp add: get_local_ip_def LOCAL_IP_def dec_10 dec_digit digit_def)

lemma target_ip_eq: "ip_str_to_int TARGET_IP = RTE_IPV4 10 1 0 3"
  using ip_str_to_int_eval [of TARGET_IP 10 1 0 3]
  by (simp add: TARGET_IP_def dec_10 dec_digit digit_def)

section \<open>Multicast\<close>

text \<open>Read from a packet in network order, an address passes \<open>ip_is_multicast\<close> exactly
  when it lies in 224.0.0.0/4.\<close>

theorem ip_is_multicast_class_d:
  "ip_is_multicast (of_le (to_be32 a)) \<longleftrightarrow> 0xE0000000 \<le> a \<and> a \<le> 0xEFFFFFFF"
proof -
  obtain o1 o2 o3 o4 where bs: "to_be32 a = [o1, o2, o3, o4]"
    by (simp add: to_be32_def)
  then have a: "a = of_be [o1, o2, o3, o4]" by (metis of_be_to_be(2))
  have bnd: "unat o1 < 256" "unat o2 < 256" "unat o3 < 256" "unat o4 < 256"
    by (rule unat_byte_less)+
  have "unat (of_le (to_be32 a) AND 0xFF :: u32) = unat o1"
  proof -
    define x where "x = be_val 0 [o4, o3, o2]"
    have "(256 * x + unat o1) mod 2 ^ 32 mod 256 = (256 * x + unat o1) mod 256"
      by (rule mod_mod_cancel) simp
    moreover have "be_val 0 [o4, o3, o2, o1] = 256 * x + unat o1"
      by (simp add: x_def)
    ultimately show ?thesis
      using bnd by (simp only: and_255 bs of_le_def of_be_def rev.simps append.simps unat_of_nat)
        simp
  qed
  moreover have "unat a = 16777216 * unat o1 + 65536 * unat o2 + 256 * unat o3 + unat o4"
    using unat_of_be [where 'a = 32, of "[o1, o2, o3, o4]"] by (simp add: a)
  ultimately show ?thesis
    using bnd by (auto simp: ip_is_multicast_def Let_def word_le_nat_alt)
qed

end
