(* ===== verification/Packet.thy ===== *)
theory Packet
  imports Utils
begin

text \<open>
  Packets, the state the network layers share, and the Ethernet layer
  (\<open>middlebox/src/eth.c\<close>, output side).

  A \<open>struct rte_mbuf\<close> is a record at an address of the packet heap; address 0 is NULL.
  \<open>mb_data\<close> is the data room from \<open>rte_pktmbuf_mtod\<close> to its end, so offsets into it
  are the code's pointers relative to the start of the frame: Ethernet header at 0, IP (or
  ARP) header at 14, UDP header at 34 when the IP header has no options.

  DPDK is not part of the program. What the code calls of it is a field of
  \<open>net_env\<close> (a parameter of every operation), or, where only the fact of the call
  matters to the code, an event of the trace: releases, reference counts, transmissions.
\<close>

section \<open>Packets and state\<close>

record mbuf =
  mb_addr :: u64               \<comment> \<open>the address \<open>rte_pktmbuf_mtod\<close> returns\<close>
  mb_data :: "byte list"       \<comment> \<open>the data room from there\<close>
  mb_next :: u64
  mb_pkt_len :: u32
  mb_data_len :: u16

datatype event =
    Tx u64 "byte list"         \<comment> \<open>\<open>rte_eth_tx_burst\<close> took the packet with these bytes\<close>
  | Tx_busy u64                \<comment> \<open>\<open>rte_eth_tx_burst\<close> took nothing\<close>
  | Free u64                   \<comment> \<open>\<open>rte_pktmbuf_free\<close>\<close>
  | Refcnt u64 int             \<comment> \<open>\<open>rte_mbuf_refcnt_update\<close>\<close>
  | Clock                      \<comment> \<open>\<open>clock\<close>\<close>

record arp_entry =
  ae_addr :: u32
  ae_mac :: "byte list"

record net_state =
  mbufs :: "u64 \<Rightarrow> mbuf option"
  trace :: "event list"
  known_haddrs :: "nat \<Rightarrow> arp_entry"
  arp_count :: u16

record net_env =
  unformat_addr :: "byte list \<Rightarrow> byte list \<Rightarrow> byte list"
    \<comment> \<open>\<open>rte_ether_unformat_addr\<close>: text, old contents, new contents\<close>
  raw_cksum :: "byte list \<Rightarrow> u16"          \<comment> \<open>\<open>rte_raw_cksum\<close>\<close>
  tx_burst :: "event list \<Rightarrow> nat"           \<comment> \<open>\<open>rte_eth_tx_burst\<close>, after this history\<close>
  tx_fuel :: nat                           \<comment> \<open>transmit attempts followed before \<open>Hang\<close>\<close>

definition log_event :: "event \<Rightarrow> 'z net_state_scheme \<Rightarrow> 'z net_state_scheme" where
  "log_event ev s = s\<lparr>trace := trace s @ [ev]\<rparr>"

definition mbuf_at :: "u64 \<Rightarrow> 'z net_state_scheme \<Rightarrow> mbuf res" where
  "mbuf_at m s = (case mbufs s m of None \<Rightarrow> Inl Null_deref | Some b \<Rightarrow> Inr b)"

definition set_mbuf :: "u64 \<Rightarrow> mbuf \<Rightarrow> 'z net_state_scheme \<Rightarrow> 'z net_state_scheme" where
  "set_mbuf m b s = s\<lparr>mbufs := (mbufs s)(m := Some b)\<rparr>"

text \<open>Apply a field-by-field store to a packet's data; read a field of it.\<close>

definition upd_data ::
  "u64 \<Rightarrow> (byte list \<Rightarrow> byte list res) \<Rightarrow> 'z net_state_scheme \<Rightarrow> 'z net_state_scheme res" where
  "upd_data m f s =
     bindr (mbuf_at m s) (\<lambda>b. bindr (f (mb_data b)) (\<lambda>d. Inr (set_mbuf m (b\<lparr>mb_data := d\<rparr>) s)))"

definition get_data :: "u64 \<Rightarrow> (byte list \<Rightarrow> 'a res) \<Rightarrow> 'z net_state_scheme \<Rightarrow> 'a res" where
  "get_data m f s = bindr (mbuf_at m s) (\<lambda>b. f (mb_data b))"

text \<open>The calls of a trace, without refused transmit attempts and readings of the clock.\<close>

definition calls :: "event list \<Rightarrow> event list" where
  "calls t = filter (\<lambda>ev. case ev of Tx_busy _ \<Rightarrow> False | Clock \<Rightarrow> False | _ \<Rightarrow> True) t"

section \<open>Sending a frame\<close>

definition ETHER_TYPE_IPV4 :: u16 where "ETHER_TYPE_IPV4 = 0x0800"
definition ETHER_TYPE_ARP :: u16 where "ETHER_TYPE_ARP = 0x0806"

definition get_local_mac :: "'e net_env_scheme \<Rightarrow> byte list \<Rightarrow> byte list" where
  "get_local_mac e mac = unformat_addr e LOCAL_MAC mac"

text \<open>
  \<open>while (1)\<close> around \<open>rte_eth_tx_burst\<close>: try until one packet is taken. What is put
  on the wire is the first \<open>data_len\<close> bytes of the packet at that moment.
\<close>

fun tx_loop :: "'e net_env_scheme \<Rightarrow> nat \<Rightarrow> u64 \<Rightarrow> 'z net_state_scheme \<Rightarrow> 'z net_state_scheme res" where
  "tx_loop e 0 m s = Inl Hang"
| "tx_loop e (Suc n) m s =
     bindr (mbuf_at m s) (\<lambda>b.
     if tx_burst e (trace s) = 1
     then bindr (rd 0 (unat (mb_data_len b)) (mb_data b)) (\<lambda>frame. Inr (log_event (Tx m frame) s))
     else tx_loop e n m (log_event (Tx_busy m) s))"

definition dpdk_eth_send ::
  "'e net_env_scheme \<Rightarrow> u64 \<Rightarrow> u16 \<Rightarrow> 'z net_state_scheme \<Rightarrow> (int \<times> 'z net_state_scheme) res" where
  "dpdk_eth_send e m len s =
     bindr (mbuf_at m s) (\<lambda>b.
     let s = set_mbuf m (b\<lparr>mb_pkt_len := ucast len, mb_data_len := len\<rparr>) s
     in bindr (tx_loop e (tx_fuel e) m s) (\<lambda>s. Inr (1, s)))"

definition eth_fill :: "'e net_env_scheme \<Rightarrow> u16 \<Rightarrow> byte list \<Rightarrow> byte list \<Rightarrow> byte list res" where
  "eth_fill e h_proto dst_haddr d =
     bindr (wr 0 dst_haddr d) (\<lambda>d.
     bindr (rd 6 6 d) (\<lambda>old.
     bindr (wr 6 (get_local_mac e old) d) (\<lambda>d.
     wr 12 (to_be16 h_proto) d)))"

definition eth_out ::
  "'e net_env_scheme \<Rightarrow> u64 \<Rightarrow> u16 \<Rightarrow> byte list \<Rightarrow> u16 \<Rightarrow> 'z net_state_scheme
     \<Rightarrow> (int \<times> 'z net_state_scheme) res" where
  "eth_out e m h_proto dst_haddr iplen s =
     bindr (upd_data m (eth_fill e h_proto dst_haddr) s) (\<lambda>s.
     dpdk_eth_send e m (iplen + 14) s)"

section \<open>What the layers rely on of DPDK\<close>

text \<open>The text form of a MAC address that \<open>rte_ether_unformat_addr\<close> documents.\<close>

definition hex_digit :: "nat \<Rightarrow> byte" where
  "hex_digit d = (if d < 10 then word_of_nat (48 + d) else word_of_nat (55 + d))"

definition hex_byte :: "byte \<Rightarrow> byte list" where
  "hex_byte b = [hex_digit (unat b div 16), hex_digit (unat b mod 16)]"

fun mac_text :: "byte list \<Rightarrow> byte list" where
  "mac_text [] = []"
| "mac_text [b] = hex_byte b"
| "mac_text (b # bs) = hex_byte b @ [58] @ mac_text bs"

definition local_mac :: "byte list" where
  "local_mac = [0xDE, 0xAD, 0xBE, 0xEF, 0xAA, 0xAA]"

definition unformat_ok :: "'e net_env_scheme \<Rightarrow> bool" where
  "unformat_ok e \<longleftrightarrow>
     (\<forall>mac old. length mac = 6 \<longrightarrow> unformat_addr e (mac_text mac) old = mac)"

text \<open>The device takes a packet after at most \<open>tx_fuel\<close> attempts.\<close>

definition tx_live :: "'e net_env_scheme \<Rightarrow> bool" where
  "tx_live e \<longleftrightarrow> (\<forall>t m. \<exists>n < tx_fuel e. tx_burst e (t @ replicate n (Tx_busy m)) = 1)"

definition tx_wait :: "'e net_env_scheme \<Rightarrow> event list \<Rightarrow> u64 \<Rightarrow> event list" where
  "tx_wait e t m =
     t @ replicate (LEAST n. tx_burst e (t @ replicate n (Tx_busy m)) = 1) (Tx_busy m)"

section \<open>Lemmas\<close>

named_theorems net_simps \<open>state selectors after state updates\<close>

lemma mac_text_local: "mac_text local_mac = LOCAL_MAC"
  by (simp add: local_mac_def LOCAL_MAC_def hex_byte_def hex_digit_def)

lemma get_local_mac_eq: "unformat_ok e \<Longrightarrow> get_local_mac e old = local_mac"
proof -
  assume "unformat_ok e"
  moreover have "length local_mac = 6" by (simp add: local_mac_def)
  ultimately show ?thesis
    by (simp add: get_local_mac_def unformat_ok_def flip: mac_text_local)
qed

lemma length_local_mac [simp]: "length local_mac = 6"
  by (simp add: local_mac_def)

lemma calls_simps [simp]:
  "calls [] = []" "calls (t @ u) = calls t @ calls u"
  "calls (Tx m f # t) = Tx m f # calls t" "calls (Tx_busy m # t) = calls t"
  "calls (Free m # t) = Free m # calls t" "calls (Refcnt m k # t) = Refcnt m k # calls t"
  "calls (Clock # t) = calls t"
  by (simp_all add: calls_def)

lemma calls_replicate_busy [simp]: "calls (replicate n (Tx_busy m)) = []"
  by (simp add: calls_def)

lemma calls_tx_wait [simp]: "calls (tx_wait e t m) = calls t"
  by (simp add: tx_wait_def)

lemma mbuf_at_Some [net_simps]: "mbufs s m = Some b \<Longrightarrow> mbuf_at m s = Inr b"
  by (simp add: mbuf_at_def)

lemma mbuf_at_Inr: "mbuf_at m s = Inr b \<longleftrightarrow> mbufs s m = Some b"
  by (simp add: mbuf_at_def split: option.splits)

lemma mbufs_set_mbuf [net_simps]: "mbufs (set_mbuf m b s) = (mbufs s)(m := Some b)"
  by (simp add: set_mbuf_def)

lemma set_mbuf_twice [net_simps]: "set_mbuf m b (set_mbuf m c s) = set_mbuf m b s"
  by (simp add: set_mbuf_def)

lemma set_mbuf_fields [net_simps]:
  "trace (set_mbuf m b s) = trace s" "known_haddrs (set_mbuf m b s) = known_haddrs s"
  "arp_count (set_mbuf m b s) = arp_count s"
  by (simp_all add: set_mbuf_def)

lemma log_event_fields [net_simps]:
  "mbufs (log_event ev s) = mbufs s" "trace (log_event ev s) = trace s @ [ev]"
  "known_haddrs (log_event ev s) = known_haddrs s" "arp_count (log_event ev s) = arp_count s"
  by (simp_all add: log_event_def)

lemma upd_data_ok:
  "mbufs s m = Some b \<Longrightarrow> f (mb_data b) = Inr d \<Longrightarrow>
     upd_data m f s = Inr (set_mbuf m (b\<lparr>mb_data := d\<rparr>) s)"
  by (simp add: upd_data_def mbuf_at_def)

lemma get_data_ok [net_simps]:
  "mbufs s m = Some b \<Longrightarrow> get_data m f s = f (mb_data b)"
  by (simp add: get_data_def mbuf_at_def)

lemma tx_loop_after:
  assumes b: "mbufs s m = Some b" "unat (mb_data_len b) \<le> length (mb_data b)"
    and least: "\<And>i. i < n \<Longrightarrow> tx_burst e (trace s @ replicate i (Tx_busy m)) \<noteq> 1"
    and acc: "tx_burst e (trace s @ replicate n (Tx_busy m)) = 1"
    and fuel: "n < fuel"
  shows "tx_loop e fuel m s =
     Inr (s\<lparr>trace := trace s @ replicate n (Tx_busy m) @
             [Tx m (take (unat (mb_data_len b)) (mb_data b))]\<rparr>)"
  using assms
proof (induction n arbitrary: s fuel)
  case 0
  then show ?case
    by (cases fuel) (simp_all add: mbuf_at_def rd_def log_event_def)
next
  case (Suc n)
  obtain k where k: "fuel = Suc k" "n < k" using Suc.prems(5) by (cases fuel) auto
  let ?s = "log_event (Tx_busy m) s"
  have busy: "tx_burst e (trace s) \<noteq> 1" using Suc.prems(3) [of 0] by simp
  have "tx_loop e k m ?s =
     Inr (?s\<lparr>trace := trace ?s @ replicate n (Tx_busy m) @
             [Tx m (take (unat (mb_data_len b)) (mb_data b))]\<rparr>)"
  proof (rule Suc.IH)
    show "tx_burst e (trace ?s @ replicate i (Tx_busy m)) \<noteq> 1" if "i < n" for i
      using Suc.prems(3) [of "Suc i"] that by (simp add: log_event_def)
    show "tx_burst e (trace ?s @ replicate n (Tx_busy m)) = 1"
      using Suc.prems(4) by (simp add: log_event_def)
  qed (use Suc.prems k in \<open>simp_all add: log_event_def\<close>)
  with Suc.prems(1) busy k show ?case
    by (simp add: mbuf_at_def log_event_def)
qed

lemma tx_loop_live:
  assumes "tx_live e" "mbufs s m = Some b" "unat (mb_data_len b) \<le> length (mb_data b)"
  shows "tx_loop e (tx_fuel e) m s =
     Inr (s\<lparr>trace := tx_wait e (trace s) m @
             [Tx m (take (unat (mb_data_len b)) (mb_data b))]\<rparr>)"
proof -
  let ?P = "\<lambda>n. tx_burst e (trace s @ replicate n (Tx_busy m)) = 1"
  obtain n where n: "n < tx_fuel e" "?P n" using assms(1) by (auto simp: tx_live_def)
  show ?thesis
    using assms(2,3) LeastI [of ?P n] not_less_Least [of _ ?P] Least_le [of ?P n] n
    by (subst tx_loop_after [where n = "LEAST n. ?P n" and b = b]) (auto simp: tx_wait_def)
qed

definition sent_state ::
  "'e net_env_scheme \<Rightarrow> u64 \<Rightarrow> mbuf \<Rightarrow> 'z net_state_scheme \<Rightarrow> 'z net_state_scheme" where
  "sent_state e m b s =
     (set_mbuf m b s)\<lparr>trace := tx_wait e (trace s) m @
        [Tx m (take (unat (mb_data_len b)) (mb_data b))]\<rparr>"

lemma sent_state_fields [net_simps]:
  "mbufs (sent_state e m b s) = (mbufs s)(m := Some b)"
  "calls (trace (sent_state e m b s)) =
     calls (trace s) @ [Tx m (take (unat (mb_data_len b)) (mb_data b))]"
  "known_haddrs (sent_state e m b s) = known_haddrs s"
  "arp_count (sent_state e m b s) = arp_count s"
  by (simp_all add: sent_state_def set_mbuf_def)

lemma sent_state_set_mbuf [net_simps]: "sent_state e m b (set_mbuf m c s) = sent_state e m b s"
  by (simp add: sent_state_def net_simps)

lemma dpdk_eth_send_ok:
  assumes "tx_live e" "mbufs s m = Some b" "unat len \<le> length (mb_data b)"
  shows "dpdk_eth_send e m len s =
     Inr (1, sent_state e m (b\<lparr>mb_pkt_len := ucast len, mb_data_len := len\<rparr>) s)"
  using assms
  by (simp add: dpdk_eth_send_def mbuf_at_def Let_def sent_state_def net_simps
      tx_loop_live [where b = "b\<lparr>mb_pkt_len := ucast len, mb_data_len := len\<rparr>"])

lemma eth_fill_ok:
  assumes "unformat_ok e" "length dst = 6" "length h = 14"
  shows "eth_fill e p dst (h @ r) = Inr (dst @ local_mac @ to_be16 p @ r)"
  using assms
  by (simp add: eth_fill_def wr_def rd_def get_local_mac_eq)

lemma eth_out_ok:
  assumes "unformat_ok e" "tx_live e" "length dst = 6"
    and "mbufs s m = Some b" "mb_data b = h @ r" "length h = 14"
    and "unat (iplen + 14) \<le> length (h @ r)"
  shows "eth_out e m p dst iplen s =
     Inr (1, sent_state e m
        (b\<lparr>mb_data := dst @ local_mac @ to_be16 p @ r,
           mb_pkt_len := ucast (iplen + 14), mb_data_len := iplen + 14\<rparr>) s)"
  using assms
  by (simp add: eth_out_def upd_data_ok eth_fill_ok net_simps
      dpdk_eth_send_ok [where b = "b\<lparr>mb_data := dst @ local_mac @ to_be16 p @ r\<rparr>"])

section \<open>What the network layers leave alone\<close>

text \<open>
  Sending touches packets and the trace, nothing else of the state; the application's own
  variables are unchanged across it.
\<close>

definition net_only :: "'z net_state_scheme \<Rightarrow> 'z net_state_scheme \<Rightarrow> bool" where
  "net_only s s' \<longleftrightarrow> (\<exists>M t. s' = s\<lparr>mbufs := M, trace := t\<rparr>)"

named_theorems net_frame \<open>operations that keep within \<open>net_only\<close>\<close>

lemma net_only_refl [simp]: "net_only s s"
  unfolding net_only_def by (rule exI [of _ "mbufs s"], rule exI [of _ "trace s"]) simp

lemma net_only_trans: "net_only s t \<Longrightarrow> net_only t u \<Longrightarrow> net_only s u"
  unfolding net_only_def by (elim exE, rule exI, rule exI) simp

lemma net_only_set_mbuf [simp]: "net_only s (set_mbuf m b s)"
  unfolding net_only_def set_mbuf_def by (rule exI, rule exI [of _ "trace s"]) simp

lemma net_only_log [simp]: "net_only s (log_event ev s)"
  unfolding net_only_def log_event_def by (rule exI [of _ "mbufs s"], rule exI) simp

lemma net_only_upd_data [net_frame]: "upd_data m f s = Inr s' \<Longrightarrow> net_only s s'"
  by (auto simp: upd_data_def bindr_eq_Inr)

lemma net_only_tx_loop [net_frame]: "tx_loop e n m s = Inr s' \<Longrightarrow> net_only s s'"
proof (induction n arbitrary: s)
  case (Suc n)
  then show ?case
    by (auto simp: bindr_eq_Inr split: if_splits intro: net_only_trans [OF net_only_log])
qed simp

lemma net_only_dpdk_eth_send [net_frame]: "dpdk_eth_send e m len s = Inr (r, s') \<Longrightarrow> net_only s s'"
  by (auto simp: dpdk_eth_send_def bindr_eq_Inr Let_def
      intro: net_only_trans [OF net_only_set_mbuf net_only_tx_loop])

lemma net_only_eth_out [net_frame]: "eth_out e m p dst n s = Inr (r, s') \<Longrightarrow> net_only s s'"
  by (auto simp: eth_out_def bindr_eq_Inr
      intro: net_only_trans [OF net_only_upd_data net_only_dpdk_eth_send])

section \<open>Properties\<close>

text \<open>C35: a device that takes packets after some refusals gets each packet once, with exactly
  the first \<open>len\<close> bytes of its data, and the call reports success.\<close>

theorem dpdk_eth_send_transmits:
  assumes "tx_live e" "mbufs s m = Some b" "unat len \<le> length (mb_data b)"
  shows "\<exists>s'. dpdk_eth_send e m len s = Inr (1, s') \<and>
     calls (trace s') = calls (trace s) @ [Tx m (take (unat len) (mb_data b))] \<and>
     mbufs s' = (mbufs s)(m := Some (b\<lparr>mb_pkt_len := ucast len, mb_data_len := len\<rparr>))"
  using dpdk_eth_send_ok [OF assms] by (simp add: net_simps)

text \<open>A device that never takes the packet keeps the program in the transmit loop: no
  number of attempts gets out of it.\<close>

theorem tx_loop_hangs:
  assumes "\<forall>t. tx_burst e t \<noteq> 1" "mbufs s m = Some b"
  shows "tx_loop e n m s = Inl Hang"
  using assms(2)
proof (induction n arbitrary: s)
  case (Suc n)
  then show ?case using assms(1) by (simp add: mbuf_at_def log_event_def)
qed simp

end
