(* ===== verification/Arp.thy ===== *)
theory Arp
  imports Packet
begin

text \<open>
  \<open>middlebox/src/arp.c\<close>: the table of known hardware addresses, filled from
  \<open>config-files/arp-data.csv\<close> at start-up and searched for every packet sent or
  received, and the replies to ARP requests. The table is an array of 64 entries that starts
  zeroed; \<open>arp_count\<close> entries of it are filled, but the search runs over all 64.
\<close>

section \<open>The table\<close>

definition ARP_ENTRIES_COUNT :: nat where "ARP_ENTRIES_COUNT = 64"

definition empty_entry :: arp_entry where
  "empty_entry = \<lparr>ae_addr = 0, ae_mac = replicate 6 0\<rparr>"

text \<open>\<open>for (i = 0; i < n; i++)\<close>, from \<open>i\<close> with \<open>k\<close> entries to go.\<close>

fun arp_scan :: "(nat \<Rightarrow> arp_entry) \<Rightarrow> u32 \<Rightarrow> nat \<Rightarrow> nat \<Rightarrow> byte list option" where
  "arp_scan tbl addr i 0 = None"
| "arp_scan tbl addr i (Suc k) =
     (if addr = ae_addr (tbl i) then Some (ae_mac (tbl i)) else arp_scan tbl addr (Suc i) k)"

definition arp_lookup_mac :: "'z net_state_scheme \<Rightarrow> u32 \<Rightarrow> byte list option" where
  "arp_lookup_mac s addr = arp_scan (known_haddrs s) addr 0 ARP_ENTRIES_COUNT"

definition add_arp_entry ::
  "'e net_env_scheme \<Rightarrow> byte list \<Rightarrow> byte list \<Rightarrow> 'z net_state_scheme
     \<Rightarrow> int \<times> 'z net_state_scheme" where
  "add_arp_entry e ip mac s =
     (if ARP_ENTRIES_COUNT \<le> unat (arp_count s) then (-1, s)
      else let i = unat (arp_count s);
               ent = (known_haddrs s i)\<lparr>ae_addr := ip_str_to_int ip\<rparr>;
               ent = ent\<lparr>ae_mac := unformat_addr e mac (ae_mac ent)\<rparr>
           in (0, s\<lparr>known_haddrs := (known_haddrs s)(i := ent), arp_count := arp_count s + 1\<rparr>))"

text \<open>
  One line of the file, with its line end: the address up to the first space, the hardware
  address up to the line end. The search for the space does not stop at the end of the line.
\<close>

definition split_arp_line :: "byte list \<Rightarrow> (byte list \<times> byte list) res" where
  "split_arp_line line =
     (let ip = takeWhile (\<lambda>c. c \<noteq> 32) line
      in if length ip = length line then Inl Out_of_bounds
         else Inr (ip, takeWhile (\<lambda>c. c \<noteq> 0 \<and> c \<noteq> 10) (drop (Suc (length ip)) line)))"

fun load_arp_lines ::
  "'e net_env_scheme \<Rightarrow> byte list list \<Rightarrow> 'z net_state_scheme \<Rightarrow> 'z net_state_scheme res" where
  "load_arp_lines e [] s = Inr s"
| "load_arp_lines e (line # ls) s =
     bindr (split_arp_line line) (\<lambda>(ip, mac). load_arp_lines e ls (snd (add_arp_entry e ip mac s)))"

text \<open>\<open>file\<close> is what \<open>fopen\<close> and \<open>getline\<close> deliver: no file, or its lines.\<close>

definition init_arp_table ::
  "'e net_env_scheme \<Rightarrow> byte list list option \<Rightarrow> 'z net_state_scheme \<Rightarrow> 'z net_state_scheme res" where
  "init_arp_table e file s =
     (case file of None \<Rightarrow> Inl Exited | Some ls \<Rightarrow> load_arp_lines e ls s)"

section \<open>ARP packets\<close>

text \<open>
  Offsets in \<open>struct rte_arp_hdr\<close>: opcode 6, sender hardware address 8, sender address 14,
  target hardware address 18, target address 24; 28 bytes in all.
\<close>

definition ARP_OP_REQUEST :: u16 where "ARP_OP_REQUEST = 1"
definition ARP_OP_REPLY :: u16 where "ARP_OP_REPLY = 2"

definition arp_fill ::
  "'e net_env_scheme \<Rightarrow> nat \<Rightarrow> u16 \<Rightarrow> byte list \<Rightarrow> byte list \<Rightarrow> byte list \<Rightarrow> byte list res" where
  "arp_fill e arph opcode dst_ip dst_haddr d =
     bindr (wr (arph + 6) (to_be16 opcode) d) (\<lambda>d.
     bindr (wr (arph + 14) (to_be32 get_local_ip) d) (\<lambda>d.
     bindr (wr (arph + 24) dst_ip d) (\<lambda>d.
     bindr (wr (arph + 18) dst_haddr d) (\<lambda>d.
     bindr (rd (arph + 8) 6 d) (\<lambda>old.
     wr (arph + 8) (get_local_mac e old) d)))))"

text \<open>
  \<open>dst_ip\<close> is in network order, as its four bytes; \<open>dst_haddr\<close> is read from the packet
  before the first store, none of which reaches it before it is copied.
\<close>

definition arp_out ::
  "'e net_env_scheme \<Rightarrow> u64 \<Rightarrow> nat \<Rightarrow> u16 \<Rightarrow> byte list \<Rightarrow> byte list \<Rightarrow> 'z net_state_scheme
     \<Rightarrow> 'z net_state_scheme res" where
  "arp_out e m arph opcode dst_ip dst_haddr s =
     bindr (upd_data m (arp_fill e arph opcode dst_ip dst_haddr) s) (\<lambda>s.
     bindr (get_data m (rd (arph + 18) 6) s) (\<lambda>tha.
     bindr (eth_out e m ETHER_TYPE_ARP tha 28 s) (\<lambda>(sent, s).
     bindr (check Assert_failed (sent = 1)) (\<lambda>_. Inr s))))"

definition arp_in ::
  "'e net_env_scheme \<Rightarrow> u64 \<Rightarrow> nat \<Rightarrow> 'z net_state_scheme \<Rightarrow> 'z net_state_scheme res" where
  "arp_in e m arph s =
     bindr (get_data m (rd_be32 (arph + 24)) s) (\<lambda>tip.
     if tip \<noteq> get_local_ip then Inr s
     else
       bindr (get_data m (rd_be16 (arph + 6)) s) (\<lambda>op.
       if op = ARP_OP_REQUEST then
         bindr (get_data m (rd (arph + 14) 4) s) (\<lambda>sip.
         bindr (get_data m (rd (arph + 8) 6) s) (\<lambda>sha.
         arp_out e m arph ARP_OP_REPLY sip sha s))
       else Inr s))"

lemma net_only_arp_out [net_frame]: "arp_out e m arph op ip mac s = Inr s' \<Longrightarrow> net_only s s'"
  by (auto simp: arp_out_def bindr_eq_Inr intro: net_only_trans [OF net_only_upd_data net_only_eth_out])

lemma net_only_arp_in [net_frame]: "arp_in e m arph s = Inr s' \<Longrightarrow> net_only s s'"
  by (auto simp: arp_in_def bindr_eq_Inr split: if_splits intro: net_only_arp_out)

section \<open>The table as a finite map\<close>

text \<open>
  What the packet path relies on: a lookup interface whose additions are seen by later
  lookups, never change the answer for an address already known, and stop at the capacity.
\<close>

locale address_table =
  fixes lookup :: "'s \<Rightarrow> u32 \<Rightarrow> 'mac option"
    and add :: "u32 \<Rightarrow> 'mac \<Rightarrow> 's \<Rightarrow> 's"
    and room :: "'s \<Rightarrow> nat"
    and ok :: "'s \<Rightarrow> bool"
  assumes ok_add: "ok s \<Longrightarrow> ok (add a v s)"
    and lookup_add: "ok s \<Longrightarrow> 0 < room s \<Longrightarrow> b \<noteq> 0 \<Longrightarrow>
      lookup (add a v s) b = (case lookup s b of Some w \<Rightarrow> Some w | None \<Rightarrow> if a = b then Some v else None)"
    and room_add: "room (add a v s) = room s - 1"
begin

lemma add_keeps: "ok s \<Longrightarrow> 0 < room s \<Longrightarrow> b \<noteq> 0 \<Longrightarrow> lookup s b = Some w \<Longrightarrow> lookup (add a v s) b = Some w"
  by (simp add: lookup_add)

lemma lookup_add_all:
  "ok s \<Longrightarrow> length ps \<le> room s \<Longrightarrow> b \<noteq> 0 \<Longrightarrow>
     lookup (fold (\<lambda>p. add (fst p) (snd p)) ps s) b = (case lookup s b of Some w \<Rightarrow> Some w | None \<Rightarrow> map_of ps b)"
proof (induction ps arbitrary: s)
  case (Cons p ps)
  then have "lookup (fold (\<lambda>p. add (fst p) (snd p)) ps (add (fst p) (snd p) s)) b =
      (case lookup (add (fst p) (snd p) s) b of Some w \<Rightarrow> Some w | None \<Rightarrow> map_of ps b)"
    by (intro Cons.IH) (simp_all add: ok_add room_add)
  with Cons.prems show ?case by (simp add: lookup_add split: option.splits)
qed (simp split: option.splits)

end

definition arp_wf :: "'z net_state_scheme \<Rightarrow> bool" where
  "arp_wf s \<longleftrightarrow> unat (arp_count s) \<le> ARP_ENTRIES_COUNT \<and>
     (\<forall>i \<ge> unat (arp_count s). known_haddrs s i = empty_entry)"

text \<open>Adding an entry whose text has been parsed.\<close>

definition push_entry :: "u32 \<Rightarrow> byte list \<Rightarrow> 'z net_state_scheme \<Rightarrow> 'z net_state_scheme" where
  "push_entry a mac s =
     (if ARP_ENTRIES_COUNT \<le> unat (arp_count s) then s
      else s\<lparr>known_haddrs := (known_haddrs s)(unat (arp_count s) := \<lparr>ae_addr = a, ae_mac = mac\<rparr>),
             arp_count := arp_count s + 1\<rparr>)"

definition arp_room :: "'z net_state_scheme \<Rightarrow> nat" where
  "arp_room s = ARP_ENTRIES_COUNT - unat (arp_count s)"

lemma arp_scan_append:
  "arp_scan tbl a i (j + k) =
     (case arp_scan tbl a i j of Some m \<Rightarrow> Some m | None \<Rightarrow> arp_scan tbl a (i + j) k)"
  by (induction j arbitrary: i) (simp_all split: option.split)

lemma arp_scan_cong:
  "(\<And>j. i \<le> j \<Longrightarrow> j < i + k \<Longrightarrow> tbl j = tbl' j) \<Longrightarrow> arp_scan tbl a i k = arp_scan tbl' a i k"
  by (induction k arbitrary: i) simp_all

lemma arp_scan_none:
  "(\<And>j. i \<le> j \<Longrightarrow> j < i + k \<Longrightarrow> ae_addr (tbl j) \<noteq> a) \<Longrightarrow> arp_scan tbl a i k = None"
  by (induction k arbitrary: i) force+

lemma arp_scan_empty:
  "a \<noteq> 0 \<Longrightarrow> (\<And>j. i \<le> j \<Longrightarrow> j < i + k \<Longrightarrow> tbl j = empty_entry) \<Longrightarrow> arp_scan tbl a i k = None"
  by (induction k arbitrary: i) (simp_all add: empty_entry_def)

lemma arp_lookup_used:
  assumes "arp_wf s" "a \<noteq> 0"
  shows "arp_lookup_mac s a = arp_scan (known_haddrs s) a 0 (unat (arp_count s))"
proof -
  let ?n = "unat (arp_count s)"
  have "ARP_ENTRIES_COUNT = ?n + (ARP_ENTRIES_COUNT - ?n)" using assms by (simp add: arp_wf_def)
  moreover have "arp_scan (known_haddrs s) a (0 + ?n) (ARP_ENTRIES_COUNT - ?n) = None"
    using assms by (intro arp_scan_empty) (simp_all add: arp_wf_def)
  ultimately show ?thesis
    using arp_scan_append [of "known_haddrs s" a 0 ?n "ARP_ENTRIES_COUNT - ?n"]
    by (simp add: arp_lookup_mac_def split: option.splits)
qed

lemma unat_arp_count_Suc:
  assumes "unat (c :: u16) < ARP_ENTRIES_COUNT"
  shows "unat (c + 1) = Suc (unat c)"
  using assms by (simp add: ARP_ENTRIES_COUNT_def unat_word_ariths)

lemma push_entry_wf: "arp_wf s \<Longrightarrow> arp_wf (push_entry a mac s)"
  by (auto simp: arp_wf_def push_entry_def unat_arp_count_Suc not_le)

lemma lookup_push_entry:
  assumes wf: "arp_wf s" and room: "0 < arp_room s" and b: "b \<noteq> 0"
  shows "arp_lookup_mac (push_entry a mac s) b =
     (case arp_lookup_mac s b of Some w \<Rightarrow> Some w | None \<Rightarrow> if a = b then Some mac else None)"
proof -
  let ?n = "unat (arp_count s)" and ?t = "push_entry a mac s"
  have less: "?n < ARP_ENTRIES_COUNT" using room by (simp add: arp_room_def)
  have n: "unat (arp_count ?t) = ?n + 1"
    using less by (simp add: push_entry_def unat_arp_count_Suc)
  have tbl: "known_haddrs ?t = (known_haddrs s)(?n := \<lparr>ae_addr = a, ae_mac = mac\<rparr>)"
    using less by (simp add: push_entry_def)
  have "arp_scan (known_haddrs ?t) b 0 ?n = arp_scan (known_haddrs s) b 0 ?n"
    by (rule arp_scan_cong) (simp add: tbl)
  moreover have "arp_scan (known_haddrs ?t) b ?n 1 = (if a = b then Some mac else None)"
    by (simp add: tbl)
  moreover have "arp_scan (known_haddrs ?t) b 0 (?n + 1) =
      (case arp_scan (known_haddrs ?t) b 0 ?n of Some w \<Rightarrow> Some w
       | None \<Rightarrow> arp_scan (known_haddrs ?t) b ?n 1)"
    using arp_scan_append [of "known_haddrs ?t" b 0 ?n 1] by (simp only: add_0)
  ultimately show ?thesis
    by (simp only: arp_lookup_used [OF push_entry_wf [OF wf] b] arp_lookup_used [OF wf b] n)
qed

lemma arp_room_push: "arp_room (push_entry a mac s) = arp_room s - 1"
  by (auto simp: arp_room_def push_entry_def unat_arp_count_Suc not_le)

interpretation arp: address_table arp_lookup_mac push_entry arp_room arp_wf
  by unfold_locales (simp_all add: push_entry_wf lookup_push_entry arp_room_push)

section \<open>Filling the table\<close>

lemma add_arp_entry_push:
  assumes "unformat_ok e" "length mac = 6" "unat (arp_count s) < ARP_ENTRIES_COUNT"
  shows "add_arp_entry e ip (mac_text mac) s = (0, push_entry (ip_str_to_int ip) mac s)"
  using assms
  by (cases "known_haddrs s (unat (arp_count s))")
    (simp add: add_arp_entry_def push_entry_def Let_def unformat_ok_def)

lemma add_arp_entry_full:
  "ARP_ENTRIES_COUNT \<le> unat (arp_count s) \<Longrightarrow> add_arp_entry e ip mac s = (-1, s)"
  by (simp add: add_arp_entry_def)

definition arp_line :: "u32 \<times> byte list \<Rightarrow> byte list" where
  "arp_line p = ip_addr_to_str (fst p) @ [32] @ mac_text (snd p) @ [10]"

lemma no_space_digit: "is_digit b \<Longrightarrow> b \<noteq> 32"
  by (auto simp: is_digit_def word_le_nat_alt)

lemma ip_text_no_space: "32 \<notin> set (ip_addr_text a)"
  using set_dec no_space_digit by (fastforce simp: ip_addr_text_def)

lemma hex_digit_cases: "d < 16 \<Longrightarrow> hex_digit d \<noteq> 0 \<and> hex_digit d \<noteq> 10"
  by (simp add: hex_digit_def word_unat_eq_iff unat_of_nat unat_word_ariths)

lemma hex_byte_set: "c \<in> set (hex_byte b) \<Longrightarrow> c \<noteq> 0 \<and> c \<noteq> 10"
proof -
  have "unat b div 16 < 16" using unat_byte_less [of b] by (simp add: less_mult_imp_div_less)
  then show "c \<in> set (hex_byte b) \<Longrightarrow> c \<noteq> 0 \<and> c \<noteq> 10"
    using hex_digit_cases [of "unat b div 16"] hex_digit_cases [of "unat b mod 16"]
    by (auto simp: hex_byte_def)
qed

lemma mac_text_set: "c \<in> set (mac_text bs) \<Longrightarrow> c \<noteq> 0 \<and> c \<noteq> 10"
  by (induction bs rule: mac_text.induct) (auto dest: hex_byte_set)

lemma split_arp_line_ok:
  "split_arp_line (arp_line (a, mac)) = Inr (ip_addr_text a, mac_text mac)"
proof -
  have "takeWhile (\<lambda>c. c \<noteq> 32) (arp_line (a, mac)) = ip_addr_text a"
    using ip_text_no_space [of a]
    by (auto simp: arp_line_def ip_addr_to_str_text takeWhile_append)
  moreover have "takeWhile (\<lambda>c. c \<noteq> 0 \<and> c \<noteq> 10) (mac_text mac @ [10]) = mac_text mac"
    using mac_text_set [of _ mac] by (auto simp: takeWhile_append)
  ultimately show ?thesis
    by (simp add: split_arp_line_def Let_def) (simp add: arp_line_def ip_addr_to_str_text)
qed

lemma load_arp_lines_push:
  assumes "unformat_ok e" "\<forall>p \<in> set ps. length (snd p) = 6" "length ps \<le> arp_room s"
  shows "load_arp_lines e (map arp_line ps) s = Inr (fold (\<lambda>p. push_entry (fst p) (snd p)) ps s)"
  using assms
proof (induction ps arbitrary: s)
  case (Cons p ps)
  obtain a mac where p: "p = (a, mac)" by (cases p)
  have "ip_str_to_int (ip_addr_text a) = a"
    using ip_str_to_int_text [of a] by simp
  then have "snd (add_arp_entry e (ip_addr_text a) (mac_text mac) s) = push_entry a mac s"
    using Cons.prems by (simp add: add_arp_entry_push p arp_room_def)
  moreover have "length ps \<le> arp_room (push_entry a mac s)"
    using Cons.prems(3) by (simp add: arp_room_push)
  ultimately show ?case
    using Cons by (simp add: p split_arp_line_ok)
qed simp

section \<open>Properties of the table\<close>

text \<open>An entry added under the printed form of an address is found under that address,
  unless an earlier entry already answers for it; the call reports success.\<close>

theorem add_arp_entry_lookup:
  assumes "arp_wf s" "unat (arp_count s) < ARP_ENTRIES_COUNT" "unformat_ok e" "length mac = 6" "b \<noteq> 0"
  shows "fst (add_arp_entry e (ip_addr_to_str a) (mac_text mac) s) = 0 \<and>
     arp_lookup_mac (snd (add_arp_entry e (ip_addr_to_str a) (mac_text mac) s)) b =
       (case arp_lookup_mac s b of Some w \<Rightarrow> Some w | None \<Rightarrow> if a = b then Some mac else None)"
  using assms
  by (simp add: add_arp_entry_push ip_addr_to_str_text ip_str_to_int_text arp.lookup_add arp_room_def)

text \<open>A full table refuses a new entry with -1 and stays as it was.\<close>

theorem add_arp_entry_rejects:
  assumes "ARP_ENTRIES_COUNT \<le> unat (arp_count s)"
  shows "add_arp_entry e ip mac s = (-1, s)"
  by (rule add_arp_entry_full [OF assms])

lemma arp_table_loaded:
  assumes "unformat_ok e" "\<forall>p \<in> set ps. length (snd p) = 6" "length ps \<le> 64"
    and "arp_count s = 0" "known_haddrs s = (\<lambda>_. empty_entry)"
  shows "\<exists>s'. init_arp_table e (Some (map arp_line ps)) s = Inr s' \<and>
     (\<forall>b. b \<noteq> 0 \<longrightarrow> arp_lookup_mac s' b = map_of ps b)"
proof -
  have wf: "arp_wf s" and room: "length ps \<le> arp_room s"
    using assms by (simp_all add: arp_wf_def arp_room_def ARP_ENTRIES_COUNT_def)
  have "arp_lookup_mac s b = None" if "b \<noteq> 0" for b
    using that assms by (simp add: arp_lookup_used [OF wf])
  with wf room show ?thesis
    using assms by (auto simp: init_arp_table_def load_arp_lines_push arp.lookup_add_all)
qed

text \<open>C32: after start-up with a file of at most 64 well-formed lines, every nonzero address
  resolves to the hardware address of its first line, and every other to none.\<close>

theorem init_arp_table_lookup:
  assumes "unformat_ok e" "\<forall>p \<in> set ps. length (snd p) = 6" "length ps \<le> 64"
    and "arp_count s = 0" "known_haddrs s = (\<lambda>_. empty_entry)"
  shows "\<exists>s'. init_arp_table e (Some (map arp_line ps)) s = Inr s' \<and>
     (\<forall>b. b \<noteq> 0 \<longrightarrow> arp_lookup_mac s' b = map_of ps b)"
  by (rule arp_table_loaded [OF assms])

text \<open>As long as the table is not full, the unused zeroed entries answer a search for
  0.0.0.0 when no entry was added for it: the address counts as known, with a zero hardware
  address.\<close>

theorem arp_lookup_zero_known:
  assumes "arp_wf s" "unat (arp_count s) < ARP_ENTRIES_COUNT"
    and "\<forall>i < unat (arp_count s). ae_addr (known_haddrs s i) \<noteq> 0"
  shows "arp_lookup_mac s 0 = Some (replicate 6 0)"
proof -
  let ?n = "unat (arp_count s)"
  have none: "arp_scan (known_haddrs s) 0 0 ?n = None" if "\<forall>i < ?n. ae_addr (known_haddrs s i) \<noteq> 0"
    by (rule arp_scan_none) (use that in auto)
  obtain k where k: "ARP_ENTRIES_COUNT = ?n + Suc k"
    using assms(2) less_iff_Suc_add by auto
  have "known_haddrs s ?n = empty_entry" using assms(1) by (simp add: arp_wf_def)
  then show ?thesis
    using assms(3) arp_scan_append [of "known_haddrs s" 0 0 ?n "Suc k"]
    by (simp add: arp_lookup_mac_def k none empty_entry_def)
qed

section \<open>Properties of ARP packets\<close>

lemma arp_fill_ok:
  assumes "unformat_ok e" "length eth = 14" "length pre = 6" "length op = 2" "length sha = 6"
    "length sip = 4" "length tha = 6" "length tip = 4" "length a = 4" "length h = 6"
  shows "arp_fill e 14 opc a h (eth @ pre @ op @ sha @ sip @ tha @ tip @ r) =
     Inr (eth @ pre @ to_be16 opc @ local_mac @ to_be32 get_local_ip @ h @ a @ r)"
  using assms by (simp add: arp_fill_def wr_def rd_def get_local_mac_eq)

lemma arp_answered:
  assumes env: "unformat_ok e" "tx_live e"
    and b: "mbufs s m = Some b"
      "mb_data b = eth @ pre @ to_be16 ARP_OP_REQUEST @ sha @ sip @ tha @ to_be32 get_local_ip @ r"
    and len: "length eth = 14" "length pre = 6" "length sha = 6" "length sip = 4" "length tha = 6"
  shows "\<exists>s' b'. arp_in e m 14 s = Inr s' \<and> mbufs s' = (mbufs s)(m \<mapsto> b') \<and>
     calls (trace s') = calls (trace s) @
       [Tx m (sha @ local_mac @ to_be16 ETHER_TYPE_ARP @ pre @ to_be16 ARP_OP_REPLY @
              local_mac @ to_be32 get_local_ip @ sha @ sip)]"
proof -
  let ?d = "eth @ pre @ to_be16 ARP_OP_REPLY @ local_mac @ to_be32 get_local_ip @ sha @ sip @ r"
  let ?s = "set_mbuf m (b\<lparr>mb_data := ?d\<rparr>) s"
  have reads: "rd_be32 38 (mb_data b) = Inr get_local_ip"
    "rd_be16 20 (mb_data b) = Inr ARP_OP_REQUEST"
    "rd 28 4 (mb_data b) = Inr sip" "rd 22 6 (mb_data b) = Inr sha" "rd 32 6 ?d = Inr sha"
    using b len by (simp_all add: rd_be32_def rd_be16_def rd_def)
  have "arp_fill e 14 ARP_OP_REPLY sip sha (mb_data b) = Inr ?d"
    unfolding b(2) by (rule arp_fill_ok) (simp_all add: env len)
  then have "upd_data m (arp_fill e 14 ARP_OP_REPLY sip sha) s = Inr ?s"
    using b(1) by (rule upd_data_ok [rotated])
  then have "arp_in e m 14 s =
      bindr (eth_out e m ETHER_TYPE_ARP sha 28 ?s) (\<lambda>(sent, s).
      bindr (check Assert_failed (sent = 1)) (\<lambda>_. Inr s))"
    using b(1) by (simp add: arp_in_def arp_out_def net_simps reads)
  also have "eth_out e m ETHER_TYPE_ARP sha 28 ?s = Inr (1, sent_state e m
      (b\<lparr>mb_data := sha @ local_mac @ to_be16 ETHER_TYPE_ARP @ drop 14 ?d,
         mb_pkt_len := 42, mb_data_len := 42\<rparr>) ?s)"
    using eth_out_ok [OF env, where m = m and s = ?s and b = "b\<lparr>mb_data := ?d\<rparr>"
        and dst = sha and h = eth and r = "drop 14 ?d" and iplen = 28 and p = ETHER_TYPE_ARP] len
    by (simp add: net_simps)
  finally show ?thesis
    using len by (auto simp: net_simps)
qed

text \<open>C33: an ARP request for the middlebox's address is answered with one frame: an ARP reply
  to the requester's hardware address that carries the middlebox's address pair as the sender
  and the requester's as the target.\<close>

theorem arp_in_answers_request:
  assumes env: "unformat_ok e" "tx_live e"
    and b: "mbufs s m = Some b"
      "mb_data b = eth @ pre @ to_be16 ARP_OP_REQUEST @ sha @ sip @ tha @ to_be32 get_local_ip @ r"
    and len: "length eth = 14" "length pre = 6" "length sha = 6" "length sip = 4" "length tha = 6"
  shows "\<exists>s'. arp_in e m 14 s = Inr s' \<and>
     calls (trace s') = calls (trace s) @
       [Tx m (sha @ local_mac @ to_be16 ETHER_TYPE_ARP @ pre @ to_be16 ARP_OP_REPLY @
              local_mac @ to_be32 get_local_ip @ sha @ sip)]"
  using arp_answered [OF assms] by blast

lemma arp_in_other:
  assumes "mbufs s m = Some b" "rd_be32 38 (mb_data b) = Inr tip" "rd_be16 20 (mb_data b) = Inr op"
    and "tip \<noteq> get_local_ip \<or> op \<noteq> ARP_OP_REQUEST"
  shows "arp_in e m 14 s = Inr s"
  using assms by (auto simp: arp_in_def net_simps)

text \<open>Every other ARP packet (for another address, a reply, an unknown operation) leaves
  the state as it is: it is answered by nothing and its buffer is never released.\<close>

theorem arp_in_ignores_others:
  assumes "mbufs s m = Some b" "rd_be32 38 (mb_data b) = Inr tip" "rd_be16 20 (mb_data b) = Inr op"
    and "tip \<noteq> get_local_ip \<or> op \<noteq> ARP_OP_REQUEST"
  shows "arp_in e m 14 s = Inr s"
  by (rule arp_in_other [OF assms])

end
