(* ===== verification/Ip.thy ===== *)
theory Ip
  imports Arp
begin

text \<open>
  \<open>middlebox/src/ip.c\<close>, output side: the IPv4 header without options, its checksum, and the
  hand-over to the Ethernet layer with the hardware address of the destination. The sum itself
  is DPDK's \<open>rte_raw_cksum\<close>, a parameter; what is relied on is that it is the
  one's-complement sum of RFC 1071 over the native-order 16-bit words.
\<close>

section \<open>Operations\<close>

definition IPPROTO_TCP :: byte where "IPPROTO_TCP = 6"
definition IPPROTO_UDP :: byte where "IPPROTO_UDP = 17"

definition ip_setup ::
  "nat \<Rightarrow> u32 \<Rightarrow> u32 \<Rightarrow> byte \<Rightarrow> byte \<Rightarrow> byte \<Rightarrow> u16 \<Rightarrow> byte list \<Rightarrow> byte list res" where
  "ip_setup iph src_ip dst_ip ttl tos proto l4len d =
     bindr (wr iph [push_bit 4 4 OR 20 div 4] d) (\<lambda>d.
     bindr (wr (iph + 1) [tos] d) (\<lambda>d.
     bindr (wr (iph + 2) (to_be16 (20 + l4len)) d) (\<lambda>d.
     bindr (wr (iph + 4) [0, 0] d) (\<lambda>d.
     bindr (wr (iph + 6) (to_be16 0x4000) d) (\<lambda>d.
     bindr (wr (iph + 8) [ttl] d) (\<lambda>d.
     bindr (wr (iph + 9) [proto] d) (\<lambda>d.
     bindr (wr (iph + 10) [0, 0] d) (\<lambda>d.
     bindr (wr (iph + 12) (to_be32 src_ip) d) (\<lambda>d.
     wr (iph + 16) (to_be32 dst_ip) d)))))))))"

definition ip_checksum :: "'e net_env_scheme \<Rightarrow> nat \<Rightarrow> byte list \<Rightarrow> byte list res" where
  "ip_checksum e iph d =
     bindr (rd iph 20 d) (\<lambda>hdr.
     bindr (wr (iph + 10) (to_le16 (raw_cksum e hdr)) d) (\<lambda>d.
     bindr (rd_le16 (iph + 10) d) (\<lambda>c.
     wr (iph + 10) (to_le16 (if c = 0xffff then c else NOT c)) d)))"

text \<open>
  The caller's \<open>dst_haddr\<close> is overwritten before it is read, so it is not an argument here.
\<close>

definition ip_out ::
  "'e net_env_scheme \<Rightarrow> u64 \<Rightarrow> nat \<Rightarrow> u32 \<Rightarrow> u32 \<Rightarrow> byte \<Rightarrow> byte \<Rightarrow> byte \<Rightarrow> u16
     \<Rightarrow> 'z net_state_scheme \<Rightarrow> 'z net_state_scheme res" where
  "ip_out e m iph src_ip dst_ip ttl tos proto l4len s =
     bindr (upd_data m (ip_setup iph src_ip dst_ip ttl tos proto l4len) s) (\<lambda>s.
     case arp_lookup_mac s dst_ip of
       None \<Rightarrow> Inl Assert_failed
     | Some dst_haddr \<Rightarrow>
         bindr (upd_data m (ip_checksum e iph) s) (\<lambda>s.
         if proto = IPPROTO_TCP then Inl Assert_failed
         else
           bindr (get_data m (rd_be16 (iph + 2)) s) (\<lambda>total_length.
           bindr (eth_out e m ETHER_TYPE_IPV4 dst_haddr total_length s) (\<lambda>(sent, s).
           bindr (check Assert_failed (sent = 1)) (\<lambda>_. Inr s)))))"

section \<open>The header as a whole\<close>

definition ip_header_with :: "u32 \<Rightarrow> u32 \<Rightarrow> byte \<Rightarrow> byte \<Rightarrow> byte \<Rightarrow> u16 \<Rightarrow> byte list \<Rightarrow> byte list" where
  "ip_header_with src dst ttl tos proto l4len ck =
     [0x45, tos] @ to_be16 (20 + l4len) @ [0, 0] @ to_be16 0x4000 @ [ttl, proto] @ ck @
     to_be32 src @ to_be32 dst"

definition final_cksum :: "u16 \<Rightarrow> u16" where
  "final_cksum c = (if c = 0xffff then c else NOT c)"

definition ip_header ::
  "'e net_env_scheme \<Rightarrow> u32 \<Rightarrow> u32 \<Rightarrow> byte \<Rightarrow> byte \<Rightarrow> byte \<Rightarrow> u16 \<Rightarrow> byte list" where
  "ip_header e src dst ttl tos proto l4len =
     ip_header_with src dst ttl tos proto l4len
       (to_le16 (final_cksum (raw_cksum e (ip_header_with src dst ttl tos proto l4len [0, 0]))))"

lemma length_ip_header_with [simp]:
  "length (ip_header_with src dst ttl tos proto l4len ck) = 18 + length ck"
  by (simp add: ip_header_with_def)

lemma length_ip_header [simp]: "length (ip_header e src dst ttl tos proto l4len) = 20"
  by (simp add: ip_header_def)

lemma ihl_byte: "push_bit 4 4 OR 20 div 4 = (0x45 :: byte)"
  by simp

lemma ip_setup_ok:
  assumes "length h = 14" "length i = 20"
  shows "ip_setup 14 src dst ttl tos proto l4len (h @ i @ r) =
     Inr (h @ ip_header_with src dst ttl tos proto l4len [0, 0] @ r)"
  using assms unfolding ip_setup_def ihl_byte
  by (simp add: wr_def ip_header_with_def to_be16_def to_be32_def)

lemma ip_checksum_ok:
  assumes "length h = 14"
  shows "ip_checksum e 14 (h @ ip_header_with src dst ttl tos proto l4len [0, 0] @ r) =
     Inr (h @ ip_header e src dst ttl tos proto l4len @ r)"
proof -
  let ?c = "raw_cksum e (ip_header_with src dst ttl tos proto l4len [0, 0])"
  have w: "wr 24 ck' (h @ ip_header_with src dst ttl tos proto l4len ck @ r) =
      Inr (h @ ip_header_with src dst ttl tos proto l4len ck' @ r)"
    if "length ck = 2" "length ck' = 2" for ck ck'
    using that assms by (simp add: wr_def ip_header_with_def to_be16_def)
  have rdc: "rd_le16 24 (h @ ip_header_with src dst ttl tos proto l4len (to_le16 c) @ r) = Inr c" for c
    using assms by (simp add: rd_le16_def rd_def ip_header_with_def to_be16_def)
  show ?thesis
    using assms
    by (simp add: ip_checksum_def rd_def [of 14] w rdc ip_header_def final_cksum_def)
qed

lemma arp_lookup_mac_cong [net_simps]:
  "known_haddrs s = known_haddrs t \<Longrightarrow> arp_lookup_mac s a = arp_lookup_mac t a"
  by (simp add: arp_lookup_mac_def)

lemma ip_out_ok:
  assumes env: "unformat_ok e" "tx_live e" and mac: "arp_lookup_mac s dst = Some mac" "length mac = 6"
    and b: "mbufs s m = Some b" "mb_data b = h @ i @ r" and len: "length h = 14" "length i = 20"
    and fits: "unat l4len \<le> length r" "unat l4len \<le> 65501" and proto: "proto \<noteq> IPPROTO_TCP"
  shows "ip_out e m 14 src dst ttl tos proto l4len s = Inr (sent_state e m
     (b\<lparr>mb_data := mac @ local_mac @ to_be16 ETHER_TYPE_IPV4 @
                    ip_header e src dst ttl tos proto l4len @ r,
        mb_pkt_len := ucast (20 + l4len + 14), mb_data_len := 20 + l4len + 14\<rparr>) s)"
proof -
  let ?h0 = "ip_header_with src dst ttl tos proto l4len [0, 0]"
  let ?h1 = "ip_header e src dst ttl tos proto l4len"
  let ?s0 = "set_mbuf m (b\<lparr>mb_data := h @ ?h0 @ r\<rparr>) s"
  let ?s1 = "set_mbuf m (b\<lparr>mb_data := h @ ?h1 @ r\<rparr>) s"
  have "upd_data m (ip_setup 14 src dst ttl tos proto l4len) s = Inr ?s0"
    using b len by (simp add: upd_data_ok ip_setup_ok)
  moreover have "arp_lookup_mac ?s0 dst = Some mac"
    using mac(1) by (simp add: arp_lookup_mac_def net_simps)
  moreover have "upd_data m (ip_checksum e 14) ?s0 = Inr ?s1"
    using upd_data_ok [where s = ?s0 and m = m and b = "b\<lparr>mb_data := h @ ?h0 @ r\<rparr>"
        and f = "ip_checksum e 14" and d = "h @ ?h1 @ r"] len
    by (simp add: ip_checksum_ok net_simps)
  moreover have "get_data m (rd_be16 16) ?s1 = Inr (20 + l4len)"
    using len by (simp add: net_simps rd_be16_def rd_def ip_header_def ip_header_with_def)
  moreover have "unat (20 + l4len + 14) = unat l4len + 34"
    using fits by (simp add: unat_word_ariths)
  then have "eth_out e m ETHER_TYPE_IPV4 mac (20 + l4len) ?s1 = Inr (1, sent_state e m
     (b\<lparr>mb_data := mac @ local_mac @ to_be16 ETHER_TYPE_IPV4 @ ?h1 @ r,
        mb_pkt_len := ucast (20 + l4len + 14), mb_data_len := 20 + l4len + 14\<rparr>) s)"
    using eth_out_ok [OF env mac(2), where m = m and s = ?s1 and b = "b\<lparr>mb_data := h @ ?h1 @ r\<rparr>"
        and h = h and r = "?h1 @ r" and iplen = "20 + l4len" and p = ETHER_TYPE_IPV4] len fits
    by (simp add: net_simps)
  ultimately show ?thesis
    using proto by (simp add: ip_out_def)
qed

lemma ip_out_unknown:
  assumes "arp_lookup_mac s dst = None" "mbufs s m = Some b" "34 \<le> length (mb_data b)"
  shows "ip_out e m 14 src dst ttl tos proto l4len s = Inl Assert_failed"
proof -
  obtain h i r where d: "mb_data b = h @ i @ r" "length h = 14" "length i = 20"
    using assms(3) list_split3 [of 14 20 "mb_data b"] by auto
  then have "upd_data m (ip_setup 14 src dst ttl tos proto l4len) s =
      Inr (set_mbuf m (b\<lparr>mb_data := h @ ip_header_with src dst ttl tos proto l4len [0, 0] @ r\<rparr>) s)"
    using assms(2) by (simp add: upd_data_ok ip_setup_ok)
  then show ?thesis
    using assms(1) by (simp add: ip_out_def arp_lookup_mac_def net_simps)
qed

section \<open>The checksum\<close>

fun le16_sum :: "byte list \<Rightarrow> nat" where
  "le16_sum (a # b # r) = unat a + 256 * unat b + le16_sum r"
| "le16_sum [a] = unat a"
| "le16_sum [] = 0"

text \<open>End-around carry.\<close>

function ones_fold :: "nat \<Rightarrow> nat" where
  "ones_fold n = (if n < 65536 then n else ones_fold (n mod 65536 + n div 65536))"
  by pat_completeness auto
termination
proof (relation "measure id")
  fix n :: nat
  assume "\<not> n < 65536"
  then have "0 < n div 65536" by (simp add: div_greater_zero_iff)
  then have "n mod 65536 + n div 65536 < n"
    using mult_div_mod_eq [of 65536 n] by linarith
  then show "(n mod 65536 + n div 65536, n) \<in> measure id" by simp
qed simp

declare ones_fold.simps [simp del]

definition cksum_ok :: "'e net_env_scheme \<Rightarrow> bool" where
  "cksum_ok e \<longleftrightarrow> (\<forall>bs. raw_cksum e bs = word_of_nat (ones_fold (le16_sum bs)))"

text \<open>What a receiver of the header checks: all words sum to all ones.\<close>

definition ip_header_valid :: "byte list \<Rightarrow> bool" where
  "ip_header_valid hdr \<longleftrightarrow> ones_fold (le16_sum hdr) = 0xffff"

lemma ones_fold_less: "ones_fold n < 65536"
proof (induction n rule: ones_fold.induct)
  case (1 n)
  then show ?case by (subst ones_fold.simps) simp
qed

lemma ones_fold_mod: "ones_fold n mod 65535 = n mod 65535"
proof (induction n rule: ones_fold.induct)
  case (1 n)
  define q x where "q = n div 65536" and "x = n mod 65536 + n div 65536"
  have n: "n = 65535 * q + x"
    using mult_div_mod_eq [of 65536 n] by (simp add: q_def x_def)
  have m: "n mod 65535 = x mod 65535" by (subst n) simp
  show ?case
  proof (cases "n < 65536")
    case False
    then have "ones_fold n = ones_fold x" by (subst ones_fold.simps) (simp only: x_def if_False)
    moreover have "ones_fold x mod 65535 = x mod 65535" using 1 [OF False] by (simp only: x_def)
    ultimately show ?thesis by (simp only: m)
  qed (simp add: ones_fold.simps)
qed

lemma ones_fold_pos: "0 < n \<Longrightarrow> 0 < ones_fold n"
proof (induction n rule: ones_fold.induct)
  case (1 n)
  show ?case
  proof (cases "n < 65536")
    case False
    then have "0 < n div 65536" by (simp add: div_greater_zero_iff)
    with 1 False show ?thesis by (subst ones_fold.simps) simp
  qed (use 1 in \<open>simp add: ones_fold.simps\<close>)
qed

lemma ones_fold_all_ones: "0 < n \<Longrightarrow> n mod 65535 = 0 \<Longrightarrow> ones_fold n = 65535"
  using ones_fold_less [of n] ones_fold_mod [of n] ones_fold_pos [of n]
  by (auto elim!: dvdE simp flip: dvd_eq_mod_eq_0)

lemma le16_sum_append: "even (length as) \<Longrightarrow> le16_sum (as @ bs) = le16_sum as + le16_sum bs"
  by (induction as rule: le16_sum.induct) simp_all

lemma le16_sum_to_le16: "le16_sum (to_le16 c) = unat c"
proof -
  have "unat c < 65536" by (rule order.strict_trans2 [OF unsigned_less]) simp
  then have "unat c div 256 < 256" by (simp add: less_mult_imp_div_less)
  moreover have "unat (word_of_nat k :: byte) = k mod 256" for k by (simp add: unat_of_nat)
  ultimately have "le16_sum (to_le16 c) = unat c mod 256 + 256 * (unat c div 256)"
    by (simp only: to_le16_def be_bytes_numeral rev.simps append.simps le16_sum.simps) simp
  then show ?thesis by simp
qed

lemma le16_sum_header:
  assumes "length ck = 2"
  shows "le16_sum (ip_header_with src dst ttl tos proto l4len ck) =
     le16_sum (ip_header_with src dst ttl tos proto l4len [0, 0]) + le16_sum ck"
proof -
  let ?a = "[0x45, tos] @ to_be16 (20 + l4len) @ [0, 0] @ to_be16 0x4000 @ [ttl, proto]"
  have "le16_sum (?a @ c @ z) = le16_sum ?a + (le16_sum c + le16_sum z)" if "length c = 2" for c z
    using that le16_sum_append [of ?a "c @ z"] le16_sum_append [of c z] by simp
  from this [OF assms, of "to_be32 src @ to_be32 dst"] this [of "[0, 0]" "to_be32 src @ to_be32 dst"]
  show ?thesis by (simp add: ip_header_with_def)
qed

lemma unat_not_u16: "unat (NOT w :: u16) = 65535 - unat w"
proof -
  have "NOT w = - 1 - w" by (simp add: not_eq_complement)
  then show ?thesis using unat_sub [of w "- 1"] by (simp add: unsigned_minus_1_eq_mask mask_eq_exp_minus_1)
qed

lemma final_cksum_sum:
  assumes "0 < n"
  shows "(n + unat (final_cksum (word_of_nat (ones_fold n)))) mod 65535 = 0"
proof -
  let ?f = "ones_fold n"
  have u: "unat (word_of_nat ?f :: u16) = ?f" using ones_fold_less [of n] by (simp add: unat_of_nat)
  show ?thesis
  proof (cases "?f = 65535")
    case True
    with ones_fold_mod [of n] have "n mod 65535 = 0" by simp
    moreover have "unat (final_cksum (word_of_nat ?f)) = 65535" by (simp add: True final_cksum_def)
    ultimately show ?thesis by simp
  next
    case False
    have "unat (NOT (word_of_nat ?f) :: u16) = 65535 - ?f"
      using unat_not_u16 [of "word_of_nat ?f"] u by simp
    moreover have "(word_of_nat ?f :: u16) \<noteq> 0xffff"
      using False u by (auto simp: word_unat_eq_iff)
    ultimately have "unat (final_cksum (word_of_nat ?f)) = 65535 - ?f" by (simp add: final_cksum_def)
    moreover have "(n + (65535 - ?f)) mod 65535 = (?f + (65535 - ?f)) mod 65535"
      using ones_fold_mod [of n] by (metis mod_add_left_eq)
    moreover have "?f + (65535 - ?f) = 65535" using ones_fold_less [of n] by simp
    ultimately show ?thesis by simp
  qed
qed


lemma net_only_ip_out [net_frame]:
  "ip_out e m iph src dst ttl tos proto l4len s = Inr s' \<Longrightarrow> net_only s s'"
  by (auto simp: ip_out_def bindr_eq_Inr split: option.splits if_splits prod.splits
      intro: net_only_trans [OF net_only_upd_data net_only_trans [OF net_only_upd_data net_only_eth_out]])

text \<open>Sending to an address with no entry in the ARP table aborts the program.\<close>

theorem ip_out_aborts_unknown:
  assumes "arp_lookup_mac s dst = None" "mbufs s m = Some b" "34 \<le> length (mb_data b)"
  shows "ip_out e m 14 src dst ttl tos proto l4len s = Inl Assert_failed"
  by (rule ip_out_unknown [OF assms])

end
