(* ===== verification/Udp.thy ===== *)
theory Udp
  imports Ip
begin

text \<open>
  \<open>middlebox/src/udp.c\<close>, output side. Between the application and this layer a packet is
  described by two structs laid over the packet's own first bytes, in host order:
  \<open>struct ip_tuple\<close> at offset 0 (\<open>src_ip\<close> 0, \<open>dst_ip\<close> 4, \<open>src_port\<close> 8,
  \<open>dst_port\<close> 10) and \<open>struct net_sge\<close> at offset 12 (\<open>payload\<close> 0,
  \<open>len\<close> 8, \<open>handle\<close> 16). They overlap the headers; the lemmas show that every byte
  they leave behind is overwritten before the frame is sent.
\<close>

section \<open>Operations\<close>

definition LOCAL_PORT :: u16 where "LOCAL_PORT = 8080"
definition TARGET_PORT :: u16 where "TARGET_PORT = 8080"

text \<open>\<open>ETH_MTU\<close> less the two headers.\<close>

definition UDP_MAX_LEN :: nat where "UDP_MAX_LEN = 1500 - 20 - 8"

definition ip_tuple_fill :: "u32 \<Rightarrow> byte list \<Rightarrow> byte list res" where
  "ip_tuple_fill destination_ip d =
     bindr (wr 0 (to_le32 (ip_str_to_int LOCAL_IP)) d) (\<lambda>d.
     bindr (wr 4 (to_le32 destination_ip) d) (\<lambda>d.
     bindr (wr 8 (to_le16 LOCAL_PORT) d) (\<lambda>d.
     wr 10 (to_le16 TARGET_PORT) d)))"

definition init_ip_tuple :: "u64 \<Rightarrow> u32 \<Rightarrow> 'z net_state_scheme \<Rightarrow> 'z net_state_scheme res" where
  "init_ip_tuple m destination_ip s = upd_data m (ip_tuple_fill destination_ip) s"

definition udp_fill :: "u32 \<Rightarrow> byte list \<Rightarrow> byte list res" where
  "udp_fill len d =
     bindr (wr (34 + 6) [0, 0] d) (\<lambda>d.
     bindr (wr (34 + 4) (to_be16 (ucast (len + 8))) d) (\<lambda>d.
     bindr (rd_le16 8 d) (\<lambda>src_port.
     bindr (wr 34 (to_be16 src_port) d) (\<lambda>d.
     bindr (rd_le16 10 d) (\<lambda>dst_port.
     wr (34 + 2) (to_be16 dst_port) d)))))"

definition udp_out ::
  "'e net_env_scheme \<Rightarrow> u64 \<Rightarrow> u32 \<Rightarrow> 'z net_state_scheme \<Rightarrow> (int \<times> 'z net_state_scheme) res" where
  "udp_out e m len s =
     bindr (upd_data m (udp_fill len) s) (\<lambda>s.
     bindr (get_data m (rd_le32 0) s) (\<lambda>src_ip.
     bindr (get_data m (rd_le32 4) s) (\<lambda>dst_ip.
     bindr (ip_out e m 14 src_ip dst_ip 64 0 IPPROTO_UDP (ucast (len + 8)) s) (\<lambda>s.
     Inr (0, s)))))"

text \<open>\<open>m\<close> and \<open>sge\<close> are the pointer \<open>e\<close> to the overlaid struct: packet and offset.\<close>

definition udp_send ::
  "'e net_env_scheme \<Rightarrow> u64 \<Rightarrow> nat \<Rightarrow> u32 \<Rightarrow> 'z net_state_scheme
     \<Rightarrow> (int \<times> 'z net_state_scheme) res" where
  "udp_send e m sge destination_ip s =
     bindr (get_data m (rd_le64 (sge + 16)) s) (\<lambda>handle.
     bindr (init_ip_tuple handle destination_ip s) (\<lambda>s.
     bindr (get_data m (rd_le32 (sge + 8)) s) (\<lambda>len.
     if UDP_MAX_LEN < unat len then Inr (-1, s)
     else
       bindr (get_data m (rd_le64 (sge + 16)) s) (\<lambda>handle.
       udp_out e handle len s))))"

section \<open>Lemmas\<close>

definition ip_tuple_bytes :: "u32 \<Rightarrow> byte list" where
  "ip_tuple_bytes dst =
     to_le32 (ip_str_to_int LOCAL_IP) @ to_le32 dst @ to_le16 LOCAL_PORT @ to_le16 TARGET_PORT"

lemma length_ip_tuple_bytes [simp]: "length (ip_tuple_bytes dst) = 12"
  by (simp add: ip_tuple_bytes_def)

lemma ip_tuple_fill_ok:
  "length a = 12 \<Longrightarrow> ip_tuple_fill dst (a @ r) = Inr (ip_tuple_bytes dst @ r)"
  by (simp add: ip_tuple_fill_def ip_tuple_bytes_def wr_def)

definition udp_header :: "u32 \<Rightarrow> byte list" where
  "udp_header len =
     to_be16 LOCAL_PORT @ to_be16 TARGET_PORT @ to_be16 (ucast (len + 8)) @ [0, 0]"

lemma length_udp_header [simp]: "length (udp_header len) = 8"
  by (simp add: udp_header_def)

lemma udp_fill_ok:
  assumes "length b = 2" "length i = 20" "length u = 8"
  shows "udp_fill len (ip_tuple_bytes dst @ b @ i @ u @ p) =
     Inr (ip_tuple_bytes dst @ b @ i @ udp_header len @ p)"
  using assms
  by (simp add: udp_fill_def udp_header_def ip_tuple_bytes_def wr_def rd_le16_def rd_def)

lemma ip_tuple_reads:
  "rd_le32 0 (ip_tuple_bytes dst @ r) = Inr (ip_str_to_int LOCAL_IP)"
  "rd_le32 4 (ip_tuple_bytes dst @ r) = Inr dst"
  by (simp_all add: ip_tuple_bytes_def rd_le32_def rd_def)

definition udp_frame :: "'e net_env_scheme \<Rightarrow> byte list \<Rightarrow> u32 \<Rightarrow> byte list \<Rightarrow> byte list" where
  "udp_frame e mac dst body =
     mac @ local_mac @ to_be16 ETHER_TYPE_IPV4 @
     ip_header e get_local_ip dst 64 0 IPPROTO_UDP (word_of_nat (length body + 8)) @
     udp_header (word_of_nat (length body)) @ body"

definition udp_sent :: "'e net_env_scheme \<Rightarrow> u64 \<Rightarrow> mbuf \<Rightarrow> byte list \<Rightarrow> u32 \<Rightarrow> nat
     \<Rightarrow> byte list \<Rightarrow> 'z net_state_scheme \<Rightarrow> 'z net_state_scheme" where
  "udp_sent e m b mac dst n p s = sent_state e m
     (b\<lparr>mb_data := udp_frame e mac dst (take n p) @ drop n p,
        mb_pkt_len := word_of_nat (n + 42), mb_data_len := word_of_nat (n + 42)\<rparr>) s"

lemma u16_of_u32_len: "n \<le> 1472 \<Longrightarrow> ucast ((word_of_nat n :: u32) + 8) = (word_of_nat (n + 8) :: u16)"
  by (simp add: word_unat_eq_iff unsigned_ucast_eq unat_word_ariths unat_of_nat take_bit_nat_eq_self)

lemma unat_small_u16: "k \<le> 2000 \<Longrightarrow> unat (word_of_nat k :: u16) = k"
  by (simp add: unat_of_nat)

lemma ucast_len: "n \<le> 2000 \<Longrightarrow> ucast (word_of_nat n :: u16) = (word_of_nat n :: u32)"
  by (simp add: word_unat_eq_iff unsigned_ucast_eq unat_of_nat take_bit_nat_eq_self)

lemma len_words:
  assumes "n \<le> 1472"
  shows "unat (word_of_nat n + 8 :: u16) = n + 8" "unat (word_of_nat n + 42 :: u16) = n + 42"
    "20 + (word_of_nat n + 8) + 14 = (word_of_nat n + 42 :: u16)"
    "ucast (word_of_nat n + 42 :: u16) = (word_of_nat n + 42 :: u32)"
proof -
  show u: "unat (word_of_nat n + 8 :: u16) = n + 8" "unat (word_of_nat n + 42 :: u16) = n + 42"
    using unat_small_u16 [of "n + 8"] unat_small_u16 [of "n + 42"] assms by simp_all
  show "20 + (word_of_nat n + 8) + 14 = (word_of_nat n + 42 :: u16)" by simp
  show "ucast (word_of_nat n + 42 :: u16) = (word_of_nat n + 42 :: u32)"
    using ucast_len [of "n + 42"] assms by simp
qed

lemma udp_not_tcp: "IPPROTO_UDP \<noteq> IPPROTO_TCP"
  by (simp add: IPPROTO_UDP_def IPPROTO_TCP_def word_unat_eq_iff)

lemma udp_send_ok:
  assumes env: "unformat_ok e" "tx_live e" and mac: "arp_lookup_mac s dst = Some mac" "length mac = 6"
    and b: "mbufs s m = Some b" "mb_data b = h @ u @ p" "length h = 34" "length u = 8"
    and sge: "rd_le64 28 (mb_data b) = Inr m" "rd_le32 20 (mb_data b) = Inr (word_of_nat n)"
    and n: "n \<le> 1472" "n \<le> length p"
  shows "udp_send e m 12 dst s = Inr (0, udp_sent e m b mac dst n p s)"
proof -
  obtain a b2 i where h0: "h = a @ b2 @ i" "length a = 12" "length b2 = 2"
    by (rule list_split3 [of 12 2 h]) (simp_all add: b(3))
  have h: "h = a @ b2 @ i" "length a = 12" "length b2 = 2" "length i = 20"
    using h0 b(3) by simp_all
  let ?r = "b2 @ i @ u @ p"
  let ?d1 = "ip_tuple_bytes dst @ ?r" and ?l = "word_of_nat n :: u32"
  let ?d2 = "ip_tuple_bytes dst @ b2 @ i @ udp_header ?l @ p"
  let ?s1 = "set_mbuf m (b\<lparr>mb_data := ?d1\<rparr>) s" and ?s2 = "set_mbuf m (b\<lparr>mb_data := ?d2\<rparr>) s"
  have d: "mb_data b = a @ ?r" using b(2) h by simp
  have same: "rd off k ?d1 = rd off k (mb_data b)" if "12 \<le> off" for off k
    using that h(2) by (simp add: d rd_append_right)
  have sge': "rd_le64 28 ?d1 = Inr m" "rd_le32 20 ?d1 = Inr ?l"
    using sge by (simp_all add: rd_le64_def rd_le32_def same)
  have tup: "init_ip_tuple m dst s = Inr ?s1"
    unfolding init_ip_tuple_def by (rule upd_data_ok [OF b(1)]) (simp add: d h(2) ip_tuple_fill_ok)
  have fill: "upd_data m (udp_fill ?l) ?s1 = Inr ?s2"
    using h b(4) upd_data_ok [where s = ?s1 and m = m and b = "b\<lparr>mb_data := ?d1\<rparr>" and d = ?d2
        and f = "udp_fill ?l"]
    by (simp add: net_simps udp_fill_ok)
  have send: "udp_send e m 12 dst s =
      bindr (ip_out e m 14 get_local_ip dst 64 0 IPPROTO_UDP (ucast (?l + 8)) ?s2) (\<lambda>s. Inr (0, s))"
    using n b(1) sge sge'
    by (simp add: udp_send_def udp_out_def net_simps tup fill ip_tuple_reads UDP_MAX_LEN_def
        unat_of_nat get_local_ip_def)
  have ip: "ip_out e m 14 get_local_ip dst 64 0 IPPROTO_UDP (word_of_nat (n + 8)) ?s2 =
      Inr (udp_sent e m b mac dst n p s)"
    using ip_out_ok [OF env, where s = ?s2 and m = m and b = "b\<lparr>mb_data := ?d2\<rparr>" and mac = mac
        and dst = dst and h = "ip_tuple_bytes dst @ b2" and i = i and r = "udp_header ?l @ p"
        and l4len = "word_of_nat (n + 8)" and src = get_local_ip and ttl = 64 and tos = 0
        and proto = IPPROTO_UDP]
      mac h n len_words [OF n(1)] udp_not_tcp
    by (simp add: net_simps udp_sent_def udp_frame_def arp_lookup_mac_def min_def
        add.commute [of 42 "word_of_nat n"])
  show ?thesis
    unfolding send u16_of_u32_len [OF n(1)] ip by simp
qed

lemma udp_frame_length: "length mac = 6 \<Longrightarrow> length (udp_frame e mac dst body) = length body + 42"
  by (simp add: udp_frame_def)

lemma udp_sent_calls:
  assumes "length mac = 6" "n \<le> 1472" "n \<le> length p"
  shows "calls (trace (udp_sent e m b mac dst n p s)) =
     calls (trace s) @ [Tx m (udp_frame e mac dst (take n p))]"
proof -
  have "unat (word_of_nat (n + 42) :: u16) = length (udp_frame e mac dst (take n p))"
    using assms by (simp only: unat_small_u16 udp_frame_length) simp
  then show ?thesis by (simp only: udp_sent_def net_simps mbuf.simps) simp
qed

lemma udp_sent_fields [net_simps]:
  "mbufs (udp_sent e m b mac dst n p s) = (mbufs s)(m := Some
     (b\<lparr>mb_data := udp_frame e mac dst (take n p) @ drop n p,
        mb_pkt_len := word_of_nat (n + 42), mb_data_len := word_of_nat (n + 42)\<rparr>))"
  "known_haddrs (udp_sent e m b mac dst n p s) = known_haddrs s"
  "arp_count (udp_sent e m b mac dst n p s) = arp_count s"
  by (simp_all add: udp_sent_def net_simps)

lemma net_only_udp_out [net_frame]: "udp_out e m len s = Inr (r, s') \<Longrightarrow> net_only s s'"
  by (auto simp: udp_out_def bindr_eq_Inr
      intro: net_only_trans [OF net_only_upd_data net_only_ip_out])

lemma net_only_udp_send [net_frame]: "udp_send e m sge dst s = Inr (r, s') \<Longrightarrow> net_only s s'"
  by (auto simp: udp_send_def init_ip_tuple_def bindr_eq_Inr split: if_splits
      intro: net_only_upd_data net_only_trans [OF net_only_upd_data net_only_udp_out])

section \<open>Properties\<close>

text \<open>C30: sending a message puts one frame on the wire: Ethernet, IP and UDP headers for the
  destination with matching lengths, then the first \<open>len\<close> bytes of the payload. The overlay
  the parameters are passed in, which lies over the headers, leaves no trace in it.\<close>

theorem udp_send_transmits:
  assumes "unformat_ok e" "tx_live e" "arp_lookup_mac s dst = Some mac" "length mac = 6"
    and "mbufs s m = Some b" "mb_data b = h @ u @ p" "length h = 34" "length u = 8"
    and "rd_le64 28 (mb_data b) = Inr m" "rd_le32 20 (mb_data b) = Inr (word_of_nat n)"
    and "n \<le> 1472" "n \<le> length p"
  shows "\<exists>s'. udp_send e m 12 dst s = Inr (0, s') \<and>
     calls (trace s') = calls (trace s) @ [Tx m (udp_frame e mac dst (take n p))]"
  using udp_send_ok [OF assms] udp_sent_calls [OF assms(4,11,12)] by blast

text \<open>A message longer than a UDP datagram on Ethernet is refused with -1 and nothing is
  sent or released; only the overlay's first twelve bytes are written.\<close>

theorem udp_send_too_long:
  assumes "mbufs s m = Some b" "rd_le64 28 (mb_data b) = Inr m" "rd_le32 20 (mb_data b) = Inr len"
    and "UDP_MAX_LEN < unat len" "mb_data b = a @ r" "length a = 12"
  shows "udp_send e m 12 dst s =
     Inr (-1, set_mbuf m (b\<lparr>mb_data := ip_tuple_bytes dst @ r\<rparr>) s)"
proof -
  let ?s = "set_mbuf m (b\<lparr>mb_data := ip_tuple_bytes dst @ r\<rparr>) s"
  have "init_ip_tuple m dst s = Inr ?s"
    unfolding init_ip_tuple_def by (rule upd_data_ok [OF assms(1)]) (simp add: assms(5,6) ip_tuple_fill_ok)
  moreover have "rd_le32 20 (ip_tuple_bytes dst @ r) = Inr len"
    using assms(3,5,6) by (simp add: rd_le32_def rd_append_right)
  ultimately show ?thesis
    using assms(1,2,4) by (simp add: udp_send_def net_simps)
qed

end
