(* ===== verification/Payload.thy ===== *)
theory Payload
  imports Udp
begin

text \<open>
  The payload helpers of \<open>middlebox/src/api.c\<close>: where the memcached header and message lie
  in a packet, and how a message or a forwarded reply is put into it and sent.

  A \<open>char *\<close> into a packet is an offset into its data; \<open>udph\<close> is the offset of the UDP
  header. \<open>global_ap\<close>, the one static \<open>struct app_payload\<close>, is returned by value: each
  caller is done with its fields before the next call refills it. Its unused member
  \<open>total_len_no_id\<close> is left out.
\<close>

section \<open>Operations\<close>

definition MEMCACHED_REQ_ID_SIZE :: nat where "MEMCACHED_REQ_ID_SIZE = 2"
definition MEMCACHED_HEADER :: "byte list" where "MEMCACHED_HEADER = [0, 0, 0, 1, 0, 0]"
definition MEMCACHED_HEADER_SIZE :: nat where "MEMCACHED_HEADER_SIZE = 6"
definition MEMCACHED_TAIL :: "byte list" where "MEMCACHED_TAIL = [13, 10]"
definition MEMCACHED_TAIL_SIZE :: nat where "MEMCACHED_TAIL_SIZE = 2"

definition MAX_PAYLOAD_LEN :: nat where
  "MAX_PAYLOAD_LEN = UDP_MAX_LEN - MEMCACHED_REQ_ID_SIZE - MEMCACHED_HEADER_SIZE - MEMCACHED_TAIL_SIZE"

record app_payload =
  ap_req_id :: nat
  ap_hdr :: nat
  ap_payload :: nat
  ap_msg_len :: u16
  ap_tail :: "nat option"      \<comment> \<open>\<open>None\<close>: left from an earlier use\<close>
  ap_total_len :: u16

definition get_iph_udph_from_buf :: "u64 \<Rightarrow> 'z net_state_scheme \<Rightarrow> (nat \<times> nat) res" where
  "get_iph_udph_from_buf m s =
     bindr (get_data m (rd 14 1) s) (\<lambda>ihl. Inr (14, 14 + unat (hd ihl AND 0x0f) * 4))"

definition sge_fill :: "u64 \<Rightarrow> u64 \<Rightarrow> nat \<Rightarrow> byte list \<Rightarrow> byte list res" where
  "sge_fill m addr udph d =
     bindr (rd_be16 (udph + 4) d) (\<lambda>dgram_len.
     bindr (wr (12 + 8) (to_le32 (ucast dgram_len - 8)) d) (\<lambda>d.
     bindr (wr 12 (to_le64 (addr + word_of_nat (udph + 8))) d) (\<lambda>d.
     wr (12 + 16) (to_le64 m) d)))"

definition init_net_sge :: "u64 \<Rightarrow> nat \<Rightarrow> 'z net_state_scheme \<Rightarrow> 'z net_state_scheme res" where
  "init_net_sge m udph s = bindr (mbuf_at m s) (\<lambda>b. upd_data m (sge_fill m (mb_addr b) udph) s)"

definition extract_info :: "u64 \<Rightarrow> nat \<Rightarrow> 'z net_state_scheme \<Rightarrow> u16 res" where
  "extract_info m pos s = get_data m (rd_be16 pos) s"

definition payload_fill :: "nat \<Rightarrow> byte list \<Rightarrow> u16 \<Rightarrow> bool \<Rightarrow> byte list \<Rightarrow> byte list res" where
  "payload_fill udph message req_id to_server d =
     (if to_server then
        bindr (wr (udph + 8) (to_be16 req_id) d) (\<lambda>d.
        bindr (wr (udph + 8 + 2) MEMCACHED_HEADER d) (\<lambda>d.
        bindr (wr (udph + 8 + 2 + 6) message d) (\<lambda>d.
        wr (udph + 8 + 2 + 6 + length message) MEMCACHED_TAIL d)))
      else wr (udph + 8) (to_be16 req_id) d)"

text \<open>\<open>message\<close> is the C string, without its NUL.\<close>

definition init_send_app_payload ::
  "u64 \<Rightarrow> nat \<Rightarrow> byte list \<Rightarrow> u16 \<Rightarrow> bool \<Rightarrow> 'z net_state_scheme
     \<Rightarrow> (app_payload option \<times> 'z net_state_scheme) res" where
  "init_send_app_payload m udph message req_id to_server s =
     bindr (get_data m (rd_be16 (udph + 4)) s) (\<lambda>dgram_len.
     let payload_len = (ucast dgram_len :: u32) - 8
     in if MAX_PAYLOAD_LEN < length message then Inr (None, s)
        else
          bindr (upd_data m (payload_fill udph message req_id to_server) s) (\<lambda>s.
          let msg_len = (if to_server then word_of_nat (length message)
                         else ucast payload_len - 2 - 6 - 2);
              total_len = (if to_server then msg_len + 2 + 6 + 2 else ucast payload_len)
          in Inr (Some \<lparr>ap_req_id = udph + 8, ap_hdr = udph + 8 + 2, ap_payload = udph + 8 + 2 + 6,
                        ap_msg_len = msg_len,
                        ap_tail = (if to_server then Some (udph + 8 + 2 + 6 + unat msg_len) else None),
                        ap_total_len = total_len\<rparr>, s)))"

definition init_rcv_app_payload ::
  "u64 \<Rightarrow> nat \<Rightarrow> 'z net_state_scheme \<Rightarrow> app_payload option res" where
  "init_rcv_app_payload m udph s =
     bindr (get_data m (rd_be16 (udph + 4)) s) (\<lambda>dgram_len.
     let payload_len = (ucast dgram_len :: u32) - 8
     in if UDP_MAX_LEN < unat payload_len then Inr None
        else
          let total_len = ucast payload_len; msg_len = total_len - 2 - 6 - 2
          in Inr (Some \<lparr>ap_req_id = udph + 8, ap_hdr = udph + 8 + 2, ap_payload = udph + 8 + 2 + 6,
                        ap_msg_len = msg_len, ap_tail = Some (udph + 8 + 2 + 6 + unat msg_len),
                        ap_total_len = total_len\<rparr>))"

definition app_send ::
  "'e net_env_scheme \<Rightarrow> u64 \<Rightarrow> nat \<Rightarrow> byte list \<Rightarrow> u16 \<Rightarrow> u32 \<Rightarrow> bool \<Rightarrow> 'z net_state_scheme
     \<Rightarrow> 'z net_state_scheme res" where
  "app_send e m udph msg req_id destination_ip to_server s =
     bindr (init_send_app_payload m udph msg req_id to_server s) (\<lambda>(ap, s).
     case ap of
       None \<Rightarrow> Inr (log_event (Free m) s)
     | Some ap \<Rightarrow>
         bindr (init_net_sge m udph s) (\<lambda>s.
         bindr (if to_server then upd_data m (wr (12 + 8) (to_le32 (ucast (ap_total_len ap)))) s
                else Inr s) (\<lambda>s.
         bindr (udp_send e m 12 destination_ip s) (\<lambda>(_, s). Inr s))))"

section \<open>Lemmas\<close>

lemma max_payload [simp]: "MAX_PAYLOAD_LEN = 1462"
  by (simp add: MAX_PAYLOAD_LEN_def UDP_MAX_LEN_def MEMCACHED_REQ_ID_SIZE_def
      MEMCACHED_HEADER_SIZE_def MEMCACHED_TAIL_SIZE_def)

lemma wr_in_prefix:
  assumes "off + length bs \<le> length q"
  shows "\<exists>q'. wr off bs (q @ p) = Inr (q' @ p) \<and> length q' = length q"
  using assms by (auto simp: wr_append_left)

text \<open>Storing the overlay touches the first 42 bytes only, and its fields read back.\<close>

lemma sge_fill_ok:
  assumes q: "length q = 42" "rd_be16 38 q = Inr dl"
  shows "\<exists>q'. sge_fill m addr 34 (q @ p) = Inr (q' @ p) \<and> length q' = 42 \<and>
     rd_le64 28 (q' @ p) = Inr m \<and> rd_le32 20 (q' @ p) = Inr (ucast dl - 8)"
proof -
  let ?ptr = "to_le64 (addr + word_of_nat (34 + 8))"
  have dl: "rd_be16 38 (q @ p) = Inr dl"
    using q by (simp add: rd_be16_def rd_append_left)
  obtain q1 where q1: "wr 20 (to_le32 (ucast dl - 8)) (q @ p) = Inr (q1 @ p)" "length q1 = 42"
    using wr_in_prefix [of 20 "to_le32 (ucast dl - 8)" q p] q by auto
  obtain q2 where q2: "wr 12 ?ptr (q1 @ p) = Inr (q2 @ p)" "length q2 = 42"
    using wr_in_prefix [of 12 ?ptr q1 p] q1 by auto
  obtain q3 where q3: "wr 28 (to_le64 m) (q2 @ p) = Inr (q3 @ p)" "length q3 = 42"
    using wr_in_prefix [of 28 "to_le64 m" q2 p] q2 by auto
  have "rd_le32 20 (q3 @ p) = rd_le32 20 (q1 @ p)"
    using le32.read_after_write_disjoint [OF q3(1), of 20]
      le32.read_after_write_disjoint [OF q2(1), of 20] by simp
  with q1 q2 q3 dl show ?thesis
    by (auto simp: sge_fill_def le32.read_after_write [OF q1(1)] le64.read_after_write [OF q3(1)])
qed

definition server_body :: "u16 \<Rightarrow> byte list \<Rightarrow> byte list" where
  "server_body req_id msg = to_be16 req_id @ MEMCACHED_HEADER @ msg @ MEMCACHED_TAIL"

lemma length_server_body [simp]: "length (server_body req_id msg) = length msg + 10"
  by (simp add: server_body_def MEMCACHED_HEADER_def MEMCACHED_TAIL_def)

lemma payload_fill_server:
  assumes "length q = 42" "length msg + 10 \<le> length p"
  shows "payload_fill 34 msg req_id True (q @ p) =
     Inr (q @ server_body req_id msg @ drop (length msg + 10) p)"
proof -
  obtain a y where p: "p = a @ y" "length a = 8"
    by (rule list_split_at [of 8 p]) (use assms in simp_all)
  obtain a1 a2 where a: "a = a1 @ a2" "length a1 = 2"
    by (rule list_split_at [of 2 a]) (simp_all add: p)
  obtain x t r where y: "y = x @ t @ r" "length x = length msg" "length t = 2"
    by (rule list_split3 [of "length msg" 2 y]) (use assms p in simp_all)
  let ?i = "to_be16 req_id"
  have "wr 42 ?i (q @ a1 @ a2 @ x @ t @ r) = Inr (q @ ?i @ a2 @ x @ t @ r)"
    using assms(1) a(2) by (simp add: wr_here)
  moreover have "wr 44 MEMCACHED_HEADER ((q @ ?i) @ a2 @ x @ t @ r) =
      Inr ((q @ ?i) @ MEMCACHED_HEADER @ x @ t @ r)"
    using assms(1) p a by (intro wr_here) (simp_all add: MEMCACHED_HEADER_def)
  moreover have "wr 50 msg ((q @ ?i @ MEMCACHED_HEADER) @ x @ t @ r) =
      Inr ((q @ ?i @ MEMCACHED_HEADER) @ msg @ t @ r)"
    using assms(1) y by (intro wr_here) (simp_all add: MEMCACHED_HEADER_def)
  moreover have "wr (50 + length msg) MEMCACHED_TAIL ((q @ ?i @ MEMCACHED_HEADER @ msg) @ t @ r) =
      Inr ((q @ ?i @ MEMCACHED_HEADER @ msg) @ MEMCACHED_TAIL @ r)"
    using assms(1) y by (intro wr_here) (simp_all add: MEMCACHED_HEADER_def MEMCACHED_TAIL_def)
  moreover have "drop (length msg + 10) p = r"
    using p a y by simp
  ultimately show ?thesis
    by (simp add: payload_fill_def server_body_def p a y)
qed

lemma payload_fill_client:
  assumes "length q = 42" "2 \<le> length p"
  shows "payload_fill 34 msg req_id False (q @ p) = Inr (q @ to_be16 req_id @ drop 2 p)"
  using assms by (simp add: payload_fill_def wr_def)

text \<open>The overlay and the hand-over to UDP, for a packet whose message is in place.\<close>

lemma udp_send_prefix:
  assumes env: "unformat_ok e" "tx_live e" and mac: "arp_lookup_mac s dst = Some mac" "length mac = 6"
    and b: "mbufs s m = Some b" "mb_data b = q @ p" "length q = 42"
    and sge: "rd_le64 28 (q @ p) = Inr m" "rd_le32 20 (q @ p) = Inr (word_of_nat n)"
    and n: "n \<le> 1472" "n \<le> length p"
  shows "udp_send e m 12 dst s = Inr (0, udp_sent e m b mac dst n p s)"
proof -
  obtain h u where q: "q = h @ u" "length h = 34"
    by (rule list_split_at [of 34 q]) (simp_all add: b(3))
  show ?thesis
    by (rule udp_send_ok [OF env mac b(1), of h u]) (use b q sge n in simp_all)
qed

lemma udp_sent_set_mbuf:
  "udp_sent e m (b\<lparr>mb_data := d\<rparr>) mac dst n p (set_mbuf m c s) = udp_sent e m b mac dst n p s"
  by (simp add: udp_sent_def net_simps)

lemma app_send_to_server:
  assumes env: "unformat_ok e" "tx_live e" and mac: "arp_lookup_mac s dst = Some mac" "length mac = 6"
    and b: "mbufs s m = Some b" "mb_data b = q @ p" "length q = 42"
    and msg: "length msg \<le> 1462" "length msg + 10 \<le> length p"
  shows "app_send e m 34 msg req_id dst True s = Inr (udp_sent e m b mac dst (length msg + 10)
     (server_body req_id msg @ drop (length msg + 10) p) s)"
proof -
  let ?p = "server_body req_id msg @ drop (length msg + 10) p" and ?n = "length msg + 10"
  obtain dl where dl: "rd_be16 38 q = Inr dl" using b(3) by (simp add: rd_be16_ok)
  obtain q1 where q1: "sge_fill m (mb_addr b) 34 (q @ ?p) = Inr (q1 @ ?p)" "length q1 = 42"
      "rd_le64 28 (q1 @ ?p) = Inr m"
    using sge_fill_ok [OF b(3) dl, of m "mb_addr b" ?p] by auto
  obtain q2 where q2: "wr 20 (to_le32 (word_of_nat ?n)) (q1 @ ?p) = Inr (q2 @ ?p)" "length q2 = 42"
    using wr_in_prefix [of 20 "to_le32 (word_of_nat ?n)" q1 ?p] q1 by auto
  have sge: "rd_le64 28 (q2 @ ?p) = Inr m" "rd_le32 20 (q2 @ ?p) = Inr (word_of_nat ?n)"
    using le64.read_after_write_disjoint [OF q2(1), of 28] q1(3) le32.read_after_write [OF q2(1)]
    by simp_all
  have len: "ucast (word_of_nat (length msg) + 10 :: u16) = (word_of_nat (length msg) + 10 :: u32)"
    using ucast_len [of "length msg + 10"] msg by simp
  let ?s0 = "set_mbuf m (b\<lparr>mb_data := q @ ?p\<rparr>) s" and ?s2 = "set_mbuf m (b\<lparr>mb_data := q2 @ ?p\<rparr>) s"
  have "rd_be16 38 (q @ p) = Inr dl" using dl b(3) by (simp add: rd_be16_def rd_append_left)
  then have "app_send e m 34 msg req_id dst True s =
      bindr (udp_send e m 12 dst ?s2) (\<lambda>(_, s). Inr s)"
    using b msg q1 q2
    by (simp add: app_send_def init_send_app_payload_def init_net_sge_def net_simps upd_data_def
        mbuf_at_def payload_fill_server Let_def len add.commute [of 10 "word_of_nat (length msg)"])
  also have "udp_send e m 12 dst ?s2 = Inr (0, udp_sent e m (b\<lparr>mb_data := q2 @ ?p\<rparr>) mac dst ?n ?p ?s2)"
    by (rule udp_send_prefix [OF env _ mac(2) _ _ q2(2) sge])
      (use mac msg in \<open>simp_all add: net_simps arp_lookup_mac_def\<close>)
  finally show ?thesis by (simp add: udp_sent_set_mbuf)
qed

lemma app_send_to_client:
  assumes env: "unformat_ok e" "tx_live e" and mac: "arp_lookup_mac s dst = Some mac" "length mac = 6"
    and b: "mbufs s m = Some b" "mb_data b = q @ p" "length q = 42"
    and n: "rd_be16 38 q = Inr (word_of_nat (n + 8))" "2 \<le> n" "n \<le> 1472" "n \<le> length p"
  shows "app_send e m 34 [] req_id dst False s =
     Inr (udp_sent e m b mac dst n (to_be16 req_id @ drop 2 p) s)"
proof -
  let ?p = "to_be16 req_id @ drop 2 p"
  have len: "ucast (word_of_nat (n + 8) :: u16) - 8 = (word_of_nat n :: u32)"
    using ucast_len [of "n + 8"] n by simp
  obtain q1 where q1: "sge_fill m (mb_addr b) 34 (q @ ?p) = Inr (q1 @ ?p)" "length q1 = 42"
      "rd_le64 28 (q1 @ ?p) = Inr m" "rd_le32 20 (q1 @ ?p) = Inr (word_of_nat n)"
    using sge_fill_ok [OF b(3) n(1), of m "mb_addr b" ?p] unfolding len by auto
  let ?s1 = "set_mbuf m (b\<lparr>mb_data := q1 @ ?p\<rparr>) s"
  have "rd_be16 38 (q @ p) = Inr (word_of_nat (n + 8))"
    using n(1) b(3) by (simp add: rd_be16_def rd_append_left)
  then have "app_send e m 34 [] req_id dst False s = bindr (udp_send e m 12 dst ?s1) (\<lambda>(_, s). Inr s)"
    using b n(2,4) q1
    by (simp add: app_send_def init_send_app_payload_def init_net_sge_def net_simps upd_data_def
        mbuf_at_def payload_fill_client Let_def)
  also have "udp_send e m 12 dst ?s1 = Inr (0, udp_sent e m (b\<lparr>mb_data := q1 @ ?p\<rparr>) mac dst n ?p ?s1)"
    by (rule udp_send_prefix [OF env _ mac(2) _ _ q1(2-4)])
      (use mac n in \<open>simp_all add: net_simps arp_lookup_mac_def\<close>)
  finally show ?thesis by (simp add: udp_sent_set_mbuf)
qed

lemma net_only_init_send [net_frame]:
  "init_send_app_payload m udph msg req_id to_server s = Inr (ap, s') \<Longrightarrow> net_only s s'"
  by (auto simp: init_send_app_payload_def bindr_eq_Inr Let_def split: if_splits
      intro: net_only_upd_data)

lemma net_only_init_net_sge [net_frame]: "init_net_sge m udph s = Inr s' \<Longrightarrow> net_only s s'"
  by (auto simp: init_net_sge_def bindr_eq_Inr intro: net_only_upd_data)

lemma net_only_app_send [net_frame]:
  assumes "app_send e m udph msg req_id dst to_server s = Inr s'"
  shows "net_only s s'"
proof -
  obtain ap s1 where s1: "init_send_app_payload m udph msg req_id to_server s = Inr (ap, s1)"
    and rest: "(case ap of None \<Rightarrow> Inr (log_event (Free m) s1)
      | Some ap \<Rightarrow> bindr (init_net_sge m udph s1) (\<lambda>s.
          bindr (if to_server then upd_data m (wr (12 + 8) (to_le32 (ucast (ap_total_len ap)))) s
                 else Inr s) (\<lambda>s. bindr (udp_send e m 12 dst s) (\<lambda>(_, s). Inr s)))) = Inr s'"
    using assms by (auto simp: app_send_def bindr_eq_Inr)
  have "net_only s1 s'"
    using rest by (auto simp: bindr_eq_Inr split: option.splits if_splits
        intro: net_only_trans [OF net_only_init_net_sge net_only_udp_send]
          net_only_trans [OF net_only_init_net_sge net_only_trans [OF net_only_upd_data net_only_udp_send]])
  with net_only_init_send [OF s1] show ?thesis by (rule net_only_trans)
qed

end
