(* ===== verification/Keys.thy ===== *)
theory Keys
  imports Payload
begin

text \<open>
  The key text of requests and replies (\<open>middlebox/src/api.c\<close>): the keys of a client's
  \<open>gets k1 k2 ...\<close>, the key of a server's \<open>VALUE k ...\<close>, and the merged request.

  A \<open>char *\<close> argument into a packet is the packet's data room from that byte to its end:
  reads past it, and writes past a local array of \<open>MAX_KEY_LENGTH\<close>,
  \<open>MAX_KEY_PER_PACKET\<close> or \<open>MAX_PAYLOAD_LEN\<close>, are \<open>Out_of_bounds\<close>. A local character
  array nothing has been written to yet is \<open>None\<close>.
\<close>

section \<open>Operations\<close>

definition MAX_KEY_PER_PACKET :: nat where "MAX_KEY_PER_PACKET = 722"
definition MAX_KEY_LENGTH :: nat where "MAX_KEY_LENGTH = 1443"

fun occurs :: "byte list \<Rightarrow> byte list \<Rightarrow> bool" where
  "occurs w [] \<longleftrightarrow> w = []"
| "occurs w (c # cs) \<longleftrightarrow> take (length w) (c # cs) = w \<or> occurs w cs"

text \<open>\<open>strstr\<close> searches up to the first NUL, wherever that is.\<close>

definition strstr :: "byte list \<Rightarrow> byte list \<Rightarrow> bool res" where
  "strstr mem w =
     (if occurs w (cstr mem) then Inr True
      else if 0 \<in> set mem then Inr False else Inl Out_of_bounds)"

text \<open>\<open>key_loop mem n acc\<close>: \<open>n\<close> bytes of the payload left at \<open>mem\<close>, \<open>acc\<close> copied so far.\<close>

fun key_loop :: "byte list \<Rightarrow> nat \<Rightarrow> byte list \<Rightarrow> byte list res" where
  "key_loop mem 0 acc = Inr acc"
| "key_loop [] (Suc n) acc = Inl Out_of_bounds"
| "key_loop (c # cs) (Suc n) acc =
     (if c = 32 then Inr acc
      else if MAX_KEY_LENGTH \<le> length acc + 1 then Inl Out_of_bounds
      else key_loop cs n (acc @ [c]))"

text \<open>The result, and the contents of \<open>key\<close> if the call has written it.\<close>

definition strip_key_value :: "byte list \<Rightarrow> u16 \<Rightarrow> (bool \<times> byte list option) res" where
  "strip_key_value mem payload_len =
     bindr (strstr mem (str ''VALUE'')) (\<lambda>found.
     if \<not> found then Inr (False, None)
     else bindr (key_loop (drop 6 mem) (unat payload_len - 6) []) (\<lambda>raw.
          Inr (True, if raw = [] then None else Some (cstr raw))))"

fun skip_word :: "byte list \<Rightarrow> nat \<Rightarrow> (byte list \<times> nat) res" where
  "skip_word mem 0 = Inr (mem, 0)"
| "skip_word [] (Suc n) = Inl Out_of_bounds"
| "skip_word (c # cs) (Suc n) = (if c = 32 then Inr (c # cs, Suc n) else skip_word cs n)"

text \<open>\<open>strcpy(keys[k], buffer)\<close> for the next \<open>k\<close>.\<close>

definition put_key :: "byte list option \<Rightarrow> byte list list \<Rightarrow> byte list list res" where
  "put_key buffer keys =
     (case buffer of
        None \<Rightarrow> Inl Uninit_read
      | Some raw \<Rightarrow>
          if MAX_KEY_PER_PACKET \<le> length keys then Inl Out_of_bounds
          else Inr (keys @ [cstr raw]))"

text \<open>
  \<open>buffer\<close> holds the bytes up to its terminating NUL; \<open>j\<close> is where the next byte goes. A
  space resets \<open>j\<close> only, so an empty word copies the buffer's old contents again.
\<close>

fun strip_loop ::
  "byte list \<Rightarrow> nat \<Rightarrow> byte list option \<Rightarrow> nat \<Rightarrow> byte list list \<Rightarrow> byte list list res" where
  "strip_loop mem 0 buffer j keys = put_key buffer keys"
| "strip_loop [] (Suc n) buffer j keys = Inl Out_of_bounds"
| "strip_loop (c # cs) (Suc n) buffer j keys =
     (if c = 32 then bindr (put_key buffer keys) (\<lambda>keys. strip_loop cs n buffer 0 keys)
      else if MAX_KEY_LENGTH \<le> j + 1 then Inl Out_of_bounds
      else strip_loop cs n
             (Some (take j (case buffer of None \<Rightarrow> [] | Some raw \<Rightarrow> raw) @ [c])) (j + 1) keys)"

definition strip_keys :: "byte list \<Rightarrow> u16 \<Rightarrow> byte list list res" where
  "strip_keys mem payload_len =
     bindr (skip_word mem (unat payload_len)) (\<lambda>(mem, n).
     strip_loop (drop 1 mem) (n - 1) None 0 [])"

definition strcat :: "nat \<Rightarrow> byte list \<Rightarrow> byte list \<Rightarrow> byte list res" where
  "strcat cap a b = (if length a + length b < cap then Inr (a @ b) else Inl Out_of_bounds)"

fun construct_loop :: "byte list list \<Rightarrow> byte list \<Rightarrow> byte list res" where
  "construct_loop [] payload = Inr payload"
| "construct_loop (k # ks) payload =
     bindr (strcat MAX_PAYLOAD_LEN payload [32]) (\<lambda>payload.
     bindr (strcat MAX_PAYLOAD_LEN payload k) (construct_loop ks))"

text \<open>\<open>keys\<close> are the first \<open>keys_len\<close> strings of the array.\<close>

definition construct_keys_packet :: "byte list list \<Rightarrow> byte list res" where
  "construct_keys_packet keys = construct_loop keys (str ''gets'')"

section \<open>What the loops compute\<close>

definition spaced :: "byte list list \<Rightarrow> byte list" where
  "spaced ks = concat (map (\<lambda>k. 32 # k) ks)"

lemma spaced_simps [simp]: "spaced [] = []" "spaced (k # ks) = 32 # k @ spaced ks"
  by (simp_all add: spaced_def)

lemma length_spaced: "length (spaced ks) = length ks + sum_list (map length ks)"
  by (induction ks) simp_all

text \<open>The keys read from a sequence of words: an empty word repeats the key before it.\<close>

fun fill_keys :: "byte list \<Rightarrow> byte list list \<Rightarrow> byte list list" where
  "fill_keys prev [] = []"
| "fill_keys prev (t # ts) =
     (let k = (if t = [] then prev else cstr t) in k # fill_keys k ts)"

lemma fill_keys_words: "\<forall>t \<in> set ts. t \<noteq> [] \<and> 0 \<notin> set t \<Longrightarrow> fill_keys prev ts = ts"
  by (induction ts arbitrary: prev) (auto simp: Let_def cstr_no_nul)

lemma skip_word_ok: "32 \<notin> set cmd \<Longrightarrow> skip_word (cmd @ 32 # r) (length cmd + Suc n) = Inr (32 # r, Suc n)"
  by (induction cmd) auto

lemma skip_word_none: "32 \<notin> set msg \<Longrightarrow> skip_word (msg @ r) (length msg) = Inr (r, 0)"
  by (induction msg) auto

lemma strip_loop_word:
  assumes "32 \<notin> set t" "t \<noteq> []" "j + length t < MAX_KEY_LENGTH"
  shows "strip_loop (t @ r) (length t + n) buffer j keys =
     strip_loop r n (Some (take j (case buffer of None \<Rightarrow> [] | Some raw \<Rightarrow> raw) @ t)) (j + length t) keys"
  using assms
proof (induction t arbitrary: j buffer)
  case (Cons c t)
  let ?b = "take j (case buffer of None \<Rightarrow> [] | Some raw \<Rightarrow> raw) @ [c]"
  show ?case
  proof (cases "t = []")
    case False
    have "min (Suc j) (length ?b) \<le> length ?b" by simp
    have "length ?b \<le> Suc j" by simp
    then have "take (j + 1) ?b = ?b" by simp
    with Cons False show ?thesis by simp
  qed (use Cons in simp)
qed simp

lemma strip_loop_long_word:
  assumes "32 \<notin> set t" "MAX_KEY_LENGTH \<le> j + length t" "j < MAX_KEY_LENGTH"
  shows "strip_loop (t @ r) (length t + n) buffer j keys = Inl Out_of_bounds"
  using assms by (induction t arbitrary: j buffer) auto

lemma strip_loop_words:
  assumes "\<forall>t \<in> set (t # ts). 32 \<notin> set t \<and> length t < MAX_KEY_LENGTH"
    and "length keys + length (t # ts) \<le> MAX_KEY_PER_PACKET"
    and "buffer = None \<longrightarrow> t \<noteq> []" "prev = (case buffer of None \<Rightarrow> [] | Some raw \<Rightarrow> cstr raw)"
  shows "strip_loop (t @ spaced ts @ r) (length t + length (spaced ts)) buffer 0 keys =
     Inr (keys @ fill_keys prev (t # ts))"
  using assms
proof (induction ts arbitrary: t buffer keys prev)
  case Nil
  show ?case
  proof (cases "t = []")
    case False
    then show ?thesis using Nil strip_loop_word [of t 0 r 0 buffer keys] by (simp add: put_key_def)
  qed (use Nil in \<open>auto simp: put_key_def split: option.splits\<close>)
next
  case (Cons u ts)
  let ?b = "if t = [] then buffer else Some t" and ?k = "if t = [] then prev else cstr t"
  let ?rest = "u @ spaced ts @ r" and ?n = "length u + length (spaced ts)"
  have word: "strip_loop (t @ 32 # ?rest) (length t + Suc ?n) buffer 0 keys =
      strip_loop (32 # ?rest) (Suc ?n) ?b (length t) keys"
    using Cons.prems strip_loop_word [of t 0 "32 # ?rest" "Suc ?n" buffer keys] by (cases "t = []") simp_all
  have put: "put_key ?b keys = Inr (keys @ [?k])"
    using Cons.prems by (auto simp: put_key_def split: option.splits)
  have "strip_loop ?rest ?n ?b 0 (keys @ [?k]) = Inr ((keys @ [?k]) @ fill_keys ?k (u # ts))"
    by (rule Cons.IH) (use Cons.prems in \<open>auto split: option.splits\<close>)
  then show ?case
    using word put by (simp add: Let_def)
qed

lemma strip_loop_overrun:
  assumes "\<forall>t \<in> set (t # ts). 32 \<notin> set t \<and> t \<noteq> [] \<and> length t < MAX_KEY_LENGTH"
    and "length keys \<le> MAX_KEY_PER_PACKET" "MAX_KEY_PER_PACKET < length keys + length (t # ts)"
  shows "strip_loop (t @ spaced ts @ r) (length t + length (spaced ts)) buffer 0 keys =
     Inl Out_of_bounds"
  using assms
proof (induction ts arbitrary: t buffer keys)
  case Nil
  then show ?case using strip_loop_word [of t 0 r 0 buffer keys] by (simp add: put_key_def)
next
  case (Cons u ts)
  let ?rest = "u @ spaced ts @ r" and ?n = "length u + length (spaced ts)"
  have word: "strip_loop (t @ 32 # ?rest) (length t + Suc ?n) buffer 0 keys =
      strip_loop (32 # ?rest) (Suc ?n) (Some t) (length t) keys"
    using Cons.prems strip_loop_word [of t 0 "32 # ?rest" "Suc ?n" buffer keys] by simp
  show ?case
  proof (cases "MAX_KEY_PER_PACKET \<le> length keys")
    case False
    then have "strip_loop ?rest ?n (Some t) 0 (keys @ [cstr t]) = Inl Out_of_bounds"
      using Cons.prems by (intro Cons.IH) auto
    with word False show ?thesis by (simp add: put_key_def)
  qed (use word in \<open>simp add: put_key_def\<close>)
qed

lemma construct_loop_eq:
  "length payload < MAX_PAYLOAD_LEN \<Longrightarrow> construct_loop ks payload =
     (if length payload + length (spaced ks) < MAX_PAYLOAD_LEN then Inr (payload @ spaced ks)
      else Inl Out_of_bounds)"
  by (induction ks arbitrary: payload) (auto simp: strcat_def)

lemma construct_keys_packet_eq:
  "construct_keys_packet ks =
     (if 4 + length (spaced ks) < MAX_PAYLOAD_LEN then Inr (str ''gets'' @ spaced ks)
      else Inl Out_of_bounds)"
  by (simp add: construct_keys_packet_def construct_loop_eq)

lemma strip_keys_words:
  assumes "32 \<notin> set cmd" "\<forall>t \<in> set (t # ts). 32 \<notin> set t \<and> length t < MAX_KEY_LENGTH" "t \<noteq> []"
    and "length (t # ts) \<le> MAX_KEY_PER_PACKET"
    and "unat n = length cmd + length (spaced (t # ts))"
  shows "strip_keys (cmd @ spaced (t # ts) @ r) n = Inr (fill_keys [] (t # ts))"
  using assms strip_loop_words [of t ts "[]" None "[]" r]
    skip_word_ok [of cmd "t @ spaced ts @ r" "length t + length (spaced ts)"]
  by (simp add: strip_keys_def)

section \<open>The key of a reply\<close>

lemma key_loop_word:
  assumes "32 \<notin> set k" "length acc + length k < MAX_KEY_LENGTH" "length k \<le> n"
  shows "key_loop (k @ 32 # r) n acc = Inr (acc @ k)"
  using assms
proof (induction k arbitrary: n acc)
  case Nil
  then show ?case by (cases n) simp_all
next
  case (Cons c k)
  then show ?case by (cases n) simp_all
qed

lemma occurs_append: "occurs w (x @ w @ y)"
proof (induction x)
  case Nil
  then show ?case by (cases "w @ y") (auto simp: append_eq_Cons_conv)
qed simp

lemma strip_key_value_at:
  assumes "occurs (str ''VALUE'') (cstr mem)" "drop 6 mem = key @ 32 # r"
    and "32 \<notin> set key" "0 \<notin> set key" "key \<noteq> []" "length key < MAX_KEY_LENGTH"
    and "6 + length key \<le> unat n"
  shows "strip_key_value mem n = Inr (True, Some key)"
  using assms by (simp add: strip_key_value_def strstr_def key_loop_word cstr_no_nul)

section \<open>Properties\<close>

text \<open>A request \<open>cmd k1 k2 ...\<close> within the array bounds yields its words in order; an
  empty word (two spaces in a row, or a trailing one) yields the key before it once more.
  Whatever follows the message in the packet's buffer is not looked at.\<close>

theorem strip_keys_reads_words:
  assumes "32 \<notin> set cmd" "\<forall>t \<in> set (t # ts). 32 \<notin> set t \<and> length t < MAX_KEY_LENGTH" "t \<noteq> []"
    and "length (t # ts) \<le> MAX_KEY_PER_PACKET"
    and "unat n = length cmd + length (spaced (t # ts))"
  shows "strip_keys (cmd @ spaced (t # ts) @ r) n = Inr (fill_keys [] (t # ts))"
  by (rule strip_keys_words [OF assms])

theorem strip_keys_reads_words_witness:
  "strip_keys (str ''gets'' @ spaced [str ''ab'', [], str ''c''] @ [13, 10]) 10 =
     Inr [str ''ab'', str ''ab'', str ''c'']"
  using strip_keys_reads_words [of "str ''gets''" "str ''ab''" "[[], str ''c'']" 10 "[13, 10]"]
  by (simp add: MAX_KEY_LENGTH_def MAX_KEY_PER_PACKET_def Let_def)

text \<open>C29: the merged request is read back as the keys it was made from.\<close>

theorem strip_construct_keys:
  assumes "construct_keys_packet ks = Inr msg" "ks \<noteq> []" "length ks \<le> MAX_KEY_PER_PACKET"
    and "\<forall>k \<in> set ks. k \<noteq> [] \<and> 32 \<notin> set k \<and> 0 \<notin> set k \<and> length k < MAX_KEY_LENGTH"
  shows "strip_keys (msg @ r) (word_of_nat (length msg)) = Inr ks"
proof -
  obtain t ts where ks: "ks = t # ts" using assms(2) by (cases ks) auto
  have msg: "msg = str ''gets'' @ spaced ks" "4 + length (spaced ks) < 1462"
    using assms(1) by (auto simp: construct_keys_packet_eq split: if_splits)
  then have "unat (word_of_nat (length msg) :: u16) = 4 + length (spaced ks)"
    using unat_small_u16 [of "length msg"] by simp
  then have "strip_keys (str ''gets'' @ spaced (t # ts) @ r) (word_of_nat (length msg)) =
      Inr (fill_keys [] (t # ts))"
    using assms(3,4) by (intro strip_keys_words) (auto simp: ks)
  then show ?thesis
    using assms(4) by (simp add: msg(1) ks fill_keys_words cstr_no_nul)
qed

text \<open>A request with more than 722 non-empty keys overruns the local array \<open>keys\<close>,
  although 1450 bytes of message hold 723 of them and 1462 are accepted.\<close>

theorem strip_keys_overrun:
  assumes "32 \<notin> set cmd" "\<forall>t \<in> set ts. 32 \<notin> set t \<and> t \<noteq> [] \<and> length t < MAX_KEY_LENGTH"
    and "MAX_KEY_PER_PACKET < length ts" "unat n = length cmd + length (spaced ts)"
  shows "strip_keys (cmd @ spaced ts @ r) n = Inl Out_of_bounds"
proof -
  obtain u us where ts: "ts = u # us" using assms(3) by (cases ts) auto
  have "strip_loop (u @ spaced us @ r) (length u + length (spaced us)) None 0 [] = Inl Out_of_bounds"
    by (rule strip_loop_overrun) (use assms ts in auto)
  then show ?thesis
    using assms skip_word_ok [of cmd "u @ spaced us @ r" "length u + length (spaced us)"]
    by (simp add: strip_keys_def ts)
qed

text \<open>A request with a key of 1443 bytes or more overruns the local \<open>buffer\<close>, although
  the message may be up to 1462 bytes long.\<close>

theorem strip_keys_long_key:
  assumes "32 \<notin> set cmd" "32 \<notin> set t" "MAX_KEY_LENGTH \<le> length t"
    and "unat n = length cmd + 1 + length t"
  shows "strip_keys (cmd @ 32 # t @ r) n = Inl Out_of_bounds"
  using assms skip_word_ok [of cmd "t @ r" "length t"] strip_loop_long_word [of t 0 r 0 None "[]"]
  by (simp add: strip_keys_def MAX_KEY_LENGTH_def)

text \<open>A request without a key (no space, or an empty first word) copies a buffer nothing
  was written to.\<close>

theorem strip_keys_uninit:
  assumes "32 \<notin> set cmd"
    and "unat n = length cmd \<or> length cmd + 2 \<le> unat n \<and> r = 32 # 32 # r'"
  shows "strip_keys (cmd @ r) n = Inl Uninit_read"
proof (cases "unat n = length cmd")
  case True
  then show ?thesis using assms(1) skip_word_none [of cmd r] by (simp add: strip_keys_def put_key_def)
next
  case False
  then have n: "length cmd + 2 \<le> unat n" and r: "r = 32 # 32 # r'" using assms(2) by auto
  define k where "k = unat n - length cmd - 2"
  have "unat n = length cmd + Suc (Suc k)" using n by (simp add: k_def)
  then have "skip_word (cmd @ r) (unat n) = Inr (r, Suc (Suc k))"
    by (simp only: r skip_word_ok [OF assms(1)])
  then show ?thesis
    by (simp add: strip_keys_def r put_key_def)
qed

text \<open>The merged request is \<open>gets\<close> and the keys, each after one space; it is built
  exactly when it fits the array with its NUL.\<close>

theorem construct_keys_packet_fits:
  "construct_keys_packet ks =
     (if 4 + (length ks + sum_list (map length ks)) + 1 \<le> MAX_PAYLOAD_LEN
      then Inr (str ''gets'' @ spaced ks) else Inl Out_of_bounds)"
  by (simp add: construct_keys_packet_eq length_spaced)

end
