(* ===== verification/App_State.thy ===== *)
theory App_State
  imports Keys
begin

text \<open>
  The static variables of \<open>middlebox/src/api.c\<close> and what the file calls of DPDK beyond the
  network layers: packet copies, the hash table of waiting clients, the clock.

  Arrays are functions from indices; every access checks the index against the array's size.
  The fixed-size key buffers \<open>key_hold\<close>, \<open>last_key\<close> and \<open>LRU_queue[i]\<close> are always
  zero-padded before they are filled or are whole copies of one that is, so each is
  represented by its string, and comparing or hashing all 1443 bytes is comparing strings.
\<close>

definition MAP_ENTRIES :: nat where "MAP_ENTRIES = 600"
definition MAX_REQ_ID :: nat where "MAX_REQ_ID = 60000"
definition MIN_OUTSTANDING_REQ :: nat where "MIN_OUTSTANDING_REQ = 1000"
definition GETS_LEN :: nat where "GETS_LEN = 4"
definition TIMEOUT :: int where "TIMEOUT = 100"
definition PROGRAM_TIMEOUT :: int where "PROGRAM_TIMEOUT = - 1"
definition CLOCKS_PER_SEC :: int where "CLOCKS_PER_SEC = 1000000"

record 'h app_state = net_state +
  ukey :: "nat \<Rightarrow> byte list"
  ukey_len :: u16
  total_ukey_size :: u16
  request_id :: u16
  outstanding_req :: u16
  key_hold :: "byte list"
  last_key :: "byte list"
  pkt_counts :: "nat \<Rightarrow> u16"
  client_pkts :: 'h
  keys_sent :: "nat \<Rightarrow> u16"
  keys_rcvd :: "nat \<Rightarrow> u16"     \<comment> \<open>\<open>int16_t\<close>: read signed\<close>
  last_seq_id :: u16
  last_send_clock :: int
  LRU_queue :: "nat \<Rightarrow> byte list"
  LRU_ptr :: nat
  memcached_pkt :: u64
  program_start_time :: int

datatype mempool = Mbuf_pool | Small_mbuf_pool

record 'h app_env = net_env +
  pktmbuf_copy :: "mempool \<Rightarrow> u64 \<Rightarrow> (u64 \<Rightarrow> mbuf option) \<Rightarrow> u64 \<times> (u64 \<Rightarrow> mbuf option)"
    \<comment> \<open>\<open>rte_pktmbuf_copy(m, pool, 0, UINT32_MAX)\<close>: the copy (0 on failure) and the heap\<close>
  hash_create :: 'h
  hash_lookup_data :: "'h \<Rightarrow> byte list \<Rightarrow> (nat \<times> u64) option"
    \<comment> \<open>position and data; \<open>None\<close> is a negative return value\<close>
  hash_add_key_data :: "'h \<Rightarrow> byte list \<Rightarrow> u64 \<Rightarrow> 'h"
  hash_del_key :: "'h \<Rightarrow> byte list \<Rightarrow> 'h"
  clock_now :: "event list \<Rightarrow> int"
  chain_fuel :: nat     \<comment> \<open>links of a packet chain followed before \<open>Hang\<close>\<close>

text \<open>\<open>sprintf(key_hold, "%u-%s", id, key)\<close> into a buffer of \<open>MAX_KEY_LENGTH\<close>.\<close>

definition signature :: "u16 \<Rightarrow> byte list \<Rightarrow> byte list" where
  "signature rid key = dec (unat rid) @ [45] @ key"

definition sprint_key :: "u16 \<Rightarrow> byte list \<Rightarrow> byte list res" where
  "sprint_key rid key =
     (if length (signature rid key) < MAX_KEY_LENGTH then Inr (signature rid key)
      else Inl Out_of_bounds)"

definition clock :: "('h, 'e) app_env_scheme \<Rightarrow> 'h app_state \<Rightarrow> int \<times> 'h app_state" where
  "clock e s = (clock_now e (trace s), log_event Clock s)"

text \<open>\<open>init_hashmap\<close>: a table of \<open>MAP_ENTRIES\<close> entries.\<close>

definition init_hashmap :: "('h, 'e) app_env_scheme \<Rightarrow> 'h app_state \<Rightarrow> 'h app_state" where
  "init_hashmap e s = s\<lparr>client_pkts := hash_create e\<rparr>"

text \<open>\<open>rte_hash_lookup\<close> as an array index: a negative value is outside.\<close>

definition slot_of :: "('h, 'e) app_env_scheme \<Rightarrow> 'h \<Rightarrow> byte list \<Rightarrow> nat res" where
  "slot_of e h k =
     (case hash_lookup_data e h k of
        None \<Rightarrow> Inl Out_of_bounds
      | Some (pos, _) \<Rightarrow> if pos < MAP_ENTRIES then Inr pos else Inl Out_of_bounds)"

section \<open>The state the program starts in\<close>

definition init_state :: "('h, 'e) app_env_scheme \<Rightarrow> (u64 \<Rightarrow> mbuf option) \<Rightarrow> 'h app_state" where
  "init_state e M =
     \<lparr>mbufs = M, trace = [], known_haddrs = (\<lambda>_. empty_entry), arp_count = 0,
      ukey = (\<lambda>_. []), ukey_len = 0, total_ukey_size = 0, request_id = 0, outstanding_req = 0,
      key_hold = [], last_key = [], pkt_counts = (\<lambda>_. 0), client_pkts = hash_create e,
      keys_sent = (\<lambda>_. 0), keys_rcvd = (\<lambda>_. 0), last_seq_id = 0, last_send_clock = 0,
      LRU_queue = (\<lambda>_. []), LRU_ptr = 0, memcached_pkt = 0, program_start_time = 0\<rparr>"

section \<open>What the handlers rely on of the hash table\<close>

text \<open>
  \<open>rte_hash\<close> as documented: lookup after add and delete, positions below the number of
  entries and private to a key, room for a new key while fewer than that many are stored.
\<close>

definition hash_keys :: "('h, 'e) app_env_scheme \<Rightarrow> 'h \<Rightarrow> byte list set" where
  "hash_keys e h = {k. hash_lookup_data e h k \<noteq> None}"

definition hash_ok :: "('h, 'e) app_env_scheme \<Rightarrow> bool" where
  "hash_ok e \<longleftrightarrow>
     (\<forall>k. hash_lookup_data e (hash_create e) k = None) \<and>
     (\<forall>h k p d. hash_lookup_data e h k = Some (p, d) \<longrightarrow> p < MAP_ENTRIES) \<and>
     (\<forall>h k k' p d d'. hash_lookup_data e h k = Some (p, d) \<longrightarrow>
        hash_lookup_data e h k' = Some (p, d') \<longrightarrow> k = k') \<and>
     (\<forall>h k d. k \<in> hash_keys e h \<or> card (hash_keys e h) < MAP_ENTRIES \<longrightarrow>
        (\<exists>p. hash_lookup_data e (hash_add_key_data e h k d) k = Some (p, d))) \<and>
     (\<forall>h k k' d. k' \<noteq> k \<longrightarrow>
        hash_lookup_data e (hash_add_key_data e h k d) k' = hash_lookup_data e h k') \<and>
     (\<forall>h k. hash_lookup_data e (hash_del_key e h k) k = None) \<and>
     (\<forall>h k k'. k' \<noteq> k \<longrightarrow>
        hash_lookup_data e (hash_del_key e h k) k' = hash_lookup_data e h k')"

lemma hash_create_lookup:
  assumes "hash_ok e"
  shows "hash_lookup_data e (hash_create e) k = None"
  by (rule assms [unfolded hash_ok_def, THEN conjunct1, rule_format])

lemma hash_pos:
  assumes "hash_ok e"
  shows "hash_lookup_data e h k = Some (p, d) \<Longrightarrow> p < MAP_ENTRIES"
  by (rule assms [unfolded hash_ok_def, THEN conjunct2, THEN conjunct1, rule_format])

lemma hash_pos_unique:
  assumes "hash_ok e"
  shows "hash_lookup_data e h k = Some (p, d) \<Longrightarrow> hash_lookup_data e h k' = Some (p, d') \<Longrightarrow> k = k'"
  by (rule assms [unfolded hash_ok_def, THEN conjunct2, THEN conjunct2, THEN conjunct1, rule_format])

lemma hash_add_same:
  assumes "hash_ok e"
  shows "k \<in> hash_keys e h \<or> card (hash_keys e h) < MAP_ENTRIES \<Longrightarrow>
     \<exists>p. hash_lookup_data e (hash_add_key_data e h k d) k = Some (p, d)"
  by (rule assms [unfolded hash_ok_def, THEN conjunct2, THEN conjunct2, THEN conjunct2, THEN conjunct1, rule_format])

lemma hash_add_other:
  assumes "hash_ok e"
  shows "k' \<noteq> k \<Longrightarrow>
     hash_lookup_data e (hash_add_key_data e h k d) k' = hash_lookup_data e h k'"
  by (rule assms [unfolded hash_ok_def, THEN conjunct2, THEN conjunct2, THEN conjunct2, THEN conjunct2, THEN conjunct1, rule_format])

lemma hash_del_same:
  assumes "hash_ok e"
  shows "hash_lookup_data e (hash_del_key e h k) k = None"
  by (rule assms [unfolded hash_ok_def, THEN conjunct2, THEN conjunct2, THEN conjunct2, THEN conjunct2, THEN conjunct2, THEN conjunct1, rule_format])

lemma hash_del_other:
  assumes "hash_ok e"
  shows "k' \<noteq> k \<Longrightarrow>
     hash_lookup_data e (hash_del_key e h k) k' = hash_lookup_data e h k'"
  by (rule assms [unfolded hash_ok_def, THEN conjunct2, THEN conjunct2, THEN conjunct2, THEN conjunct2, THEN conjunct2, THEN conjunct2, rule_format])

text \<open>A signature determines its request id and key.\<close>

lemma signature_inj:
  assumes "signature r k = signature r' k'"
  shows "r = r' \<and> k = k'"
proof -
  have tw: "takeWhile is_digit (dec n @ [45] @ x) = dec n"
    "dropWhile is_digit (dec n @ [45] @ x) = 45 # x" for n x
    using set_dec [of _ n]
    by (auto simp: takeWhile_append dropWhile_append is_digit_def word_le_nat_alt)
  have "dec (unat r) = dec (unat r')" "45 # k = 45 # k'"
    using assms tw [of "unat r" k] tw [of "unat r'" k'] by (metis signature_def)+
  then show ?thesis by (auto simp: word_unat_eq_iff dest: dec_inj)
qed

end
