(* ===== verification/Group.thy ===== *)
theory Group
  imports App_State
begin

text \<open>
  The group of unique keys waiting to be sent (\<open>ukey\<close>, \<open>ukey_len\<close>,
  \<open>total_ukey_size\<close>): collected by \<open>insert_ukey_group\<close>, sent to memcached as one
  request by \<open>construct_pkt_and_send_to_server\<close>.
\<close>

section \<open>Operations\<close>

definition ukeys :: "'h app_state \<Rightarrow> byte list list" where
  "ukeys s = map (ukey s) [0..<unat (ukey_len s)]"

definition insert_ukey_group :: "byte list \<Rightarrow> 'h app_state \<Rightarrow> 'h app_state res" where
  "insert_ukey_group key s =
     bindr (check Out_of_bounds (unat (ukey_len s) \<le> MAP_ENTRIES)) (\<lambda>_.
     if list_ex (\<lambda>k. k = key) (ukeys s) then Inr s
     else
       bindr (check Out_of_bounds (unat (ukey_len s) < MAP_ENTRIES \<and> length key < MAX_KEY_LENGTH)) (\<lambda>_.
       Inr (s\<lparr>ukey := (ukey s)(unat (ukey_len s) := key),
              ukey_len := ukey_len s + 1,
              total_ukey_size := total_ukey_size s + word_of_nat (length key)\<rparr>)))"

text \<open>The two ways of filling the request: all keys but the last, which is kept, or all.\<close>

definition fill_request :: "bool \<Rightarrow> 'h app_state \<Rightarrow> (byte list \<times> 'h app_state) res" where
  "fill_request full_pkt s =
     bindr (check Out_of_bounds (unat (ukey_len s) \<le> MAP_ENTRIES)) (\<lambda>_.
     let id = unat (request_id s); n = unat (ukey_len s)
     in if full_pkt then
          bindr (construct_keys_packet (map (ukey s) [0..<n - 1])) (\<lambda>payload.
          bindr (check Out_of_bounds (id < MAX_REQ_ID)) (\<lambda>_.
          let s = s\<lparr>keys_sent := (keys_sent s)(id := ukey_len s - 1)\<rparr>;
              s = s\<lparr>ukey := (ukey s)(0 := ukey s (n - 1))\<rparr>
          in Inr (payload, s\<lparr>ukey_len := 1, total_ukey_size := word_of_nat (length (ukey s 0))\<rparr>)))
        else
          bindr (construct_keys_packet (map (ukey s) [0..<n])) (\<lambda>payload.
          bindr (check Out_of_bounds (id < MAX_REQ_ID)) (\<lambda>_.
          let s = s\<lparr>keys_sent := (keys_sent s)(id := ukey_len s)\<rparr>
          in Inr (payload, s\<lparr>ukey_len := 0, total_ukey_size := 0\<rparr>))))"

definition construct_pkt_and_send_to_server ::
  "('h, 'e) app_env_scheme \<Rightarrow> bool \<Rightarrow> 'h app_state \<Rightarrow> 'h app_state res" where
  "construct_pkt_and_send_to_server e full_pkt s =
     (if ukey_len s = 0 then Inr s
      else
        bindr (get_iph_udph_from_buf (memcached_pkt s) s) (\<lambda>(memcached_iph, memcached_udph).
        bindr (fill_request full_pkt s) (\<lambda>(payload, s).
        let id = request_id s;
            s = s\<lparr>outstanding_req := outstanding_req s + 1,
                  keys_rcvd := (keys_rcvd s)(unat id := 0)\<rparr>;
            s = log_event (Refcnt (memcached_pkt s) 1) s
        in bindr (app_send e (memcached_pkt s) memcached_udph payload id
                    (ip_str_to_int TARGET_IP) True s) (\<lambda>s.
           let s = s\<lparr>request_id := word_of_nat ((unat (request_id s) + 1) mod MAX_REQ_ID)\<rparr>;
               (now, s) = clock e s
           in Inr (s\<lparr>last_send_clock := now\<rparr>)))))"

text \<open>The test that closes a group, in \<open>size_t\<close> arithmetic.\<close>

definition group_full :: "'h app_state \<Rightarrow> bool" where
  "group_full s \<longleftrightarrow>
     (word_of_nat MAX_PAYLOAD_LEN - word_of_nat GETS_LEN - ucast (ukey_len s) + 1 :: u64)
       \<le> ucast (total_ukey_size s)"

section \<open>The invariant\<close>

text \<open>
  The waiting keys are distinct C strings, the running total is their length, and their
  request does not exceed \<open>MAX_PAYLOAD_LEN\<close>.
\<close>

definition key_ok :: "byte list \<Rightarrow> bool" where
  "key_ok k \<longleftrightarrow> 0 \<notin> set k \<and> length k < MAX_KEY_LENGTH"

definition group_base :: "'h app_state \<Rightarrow> bool" where
  "group_base s \<longleftrightarrow>
     distinct (ukeys s) \<and> (\<forall>k \<in> set (ukeys s). key_ok k) \<and>
     unat (total_ukey_size s) = sum_list (map length (ukeys s)) \<and>
     unat (request_id s) < MAX_REQ_ID"

definition group_inv :: "'h app_state \<Rightarrow> bool" where
  "group_inv s \<longleftrightarrow> group_base s \<and>
     GETS_LEN + sum_list (map length (ukeys s)) + length (ukeys s) \<le> MAX_PAYLOAD_LEN"

lemma length_ukeys [simp]: "length (ukeys s) = unat (ukey_len s)"
  by (simp add: ukeys_def)

subsection \<open>Few distinct short keys exist\<close>

lemma card_distinct_le: "distinct xs \<Longrightarrow> finite A \<Longrightarrow> set xs \<subseteq> A \<Longrightarrow> length xs \<le> card A"
  by (metis card_mono distinct_card)

lemma card_bytes: "card (UNIV :: byte set) = 256"
  by (simp add: card_word)

text \<open>At most one key is empty and at most 255 have length one; all others weigh two or more.\<close>

lemma sum_length_lower:
  "2 * length ks \<le> sum_list (map length ks) + 2 * length (filter (\<lambda>k. length k = 0) ks)
     + length (filter (\<lambda>k. length k = 1) ks)"
proof (induction ks)
  case (Cons k ks)
  have "2 \<le> length k + 2 * (if length k = 0 then 1 else 0) + (if length k = 1 then 1 else 0)" by arith
  with Cons show ?case by (auto simp del: length_0_conv One_nat_def split: if_splits)
qed simp

lemma empty_keys: "distinct ks \<Longrightarrow> length (filter (\<lambda>k. length k = 0) ks) \<le> 1"
  using card_distinct_le [of "filter (\<lambda>k. length k = 0) ks" "{[]}"] by auto

lemma one_byte_keys:
  assumes "distinct ks" "\<forall>k \<in> set ks. 0 \<notin> set (k :: byte list)"
  shows "length (filter (\<lambda>k. length k = 1) ks) \<le> 255"
proof -
  let ?A = "(\<lambda>b. [b]) ` (UNIV - {0 :: byte})"
  have "set (filter (\<lambda>k. length k = 1) ks) \<subseteq> ?A"
  proof
    fix k assume "k \<in> set (filter (\<lambda>k. length k = 1) ks)"
    then have "length k = 1" "0 \<notin> set k" using assms(2) by auto
    then show "k \<in> ?A" by (cases k) auto
  qed
  moreover have "card ?A = 255"
    by (subst card_image) (auto simp: inj_on_def card_Diff_singleton card_bytes)
  ultimately show ?thesis
    using assms(1) card_distinct_le [of "filter (\<lambda>k. length k = 1) ks" ?A] by simp
qed

lemma distinct_keys_bound:
  assumes "distinct ks" "\<forall>k \<in> set ks. 0 \<notin> set (k :: byte list)"
    and "sum_list (map length ks) + length ks \<le> 1458"
  shows "length ks \<le> 571"
  using sum_length_lower [of ks] empty_keys [OF assms(1)] one_byte_keys [OF assms(1,2)] assms(3)
  by linarith

lemma group_inv_len:
  assumes "group_inv s"
  shows "unat (ukey_len s) \<le> 571"
  using assms distinct_keys_bound [of "ukeys s"]
  by (auto simp: group_inv_def group_base_def GETS_LEN_def key_ok_def)

section \<open>Inserting a key\<close>

definition group_pending :: "'h app_state \<Rightarrow> bool" where
  "group_pending s \<longleftrightarrow> group_base s \<and> ukeys s \<noteq> [] \<and>
     GETS_LEN + sum_list (map length (butlast (ukeys s))) + length (butlast (ukeys s)) \<le> MAX_PAYLOAD_LEN"

lemma ukeys_snoc:
  "unat n < 600 \<Longrightarrow> map (f(unat n := k)) [0..<unat (n + 1 :: u16)] = map f [0..<unat n] @ [k]"
proof -
  assume "unat n < 600"
  then have "unat (n + 1) = Suc (unat n)" by (simp add: unat_word_ariths)
  then show ?thesis by simp
qed

lemma insert_ukey_group_ok:
  assumes inv: "group_inv s" and k: "key_ok k"
  shows "\<exists>s'. insert_ukey_group k s = Inr s' \<and> (\<exists>a n t. s' = s\<lparr>ukey := a, ukey_len := n, total_ukey_size := t\<rparr>) \<and>
     ukeys s' = (if k \<in> set (ukeys s) then ukeys s else ukeys s @ [k]) \<and>
     (if k \<in> set (ukeys s) then group_inv s' else group_pending s')"
proof (cases "k \<in> set (ukeys s)")
  case True
  then have "list_ex (\<lambda>k'. k' = k) (ukeys s)" by (auto simp: list_ex_iff)
  moreover have "\<exists>a n t. s = s\<lparr>ukey := a, ukey_len := n, total_ukey_size := t\<rparr>"
    by (rule exI [of _ "ukey s"], rule exI [of _ "ukey_len s"], rule exI [of _ "total_ukey_size s"]) simp
  ultimately show ?thesis
    using inv True group_inv_len [OF inv]
    by (intro exI [of _ s]) (simp add: insert_ukey_group_def MAP_ENTRIES_def bindr_check)
next
  case False
  then have nex: "\<not> list_ex (\<lambda>k'. k' = k) (ukeys s)" by (auto simp: list_ex_iff)
  have len: "unat (ukey_len s) \<le> 571" by (rule group_inv_len [OF inv])
  have tot: "unat (total_ukey_size s) = sum_list (map length (ukeys s))"
    "sum_list (map length (ukeys s)) \<le> 1458"
    using inv by (simp_all add: group_inv_def group_base_def GETS_LEN_def)
  let ?s = "s\<lparr>ukey := (ukey s)(unat (ukey_len s) := k), ukey_len := ukey_len s + 1,
              total_ukey_size := total_ukey_size s + word_of_nat (length k)\<rparr>"
  have ks: "ukeys ?s = ukeys s @ [k]"
    using len by (simp add: ukeys_def ukeys_snoc)
  have "unat (total_ukey_size ?s) = sum_list (map length (ukeys ?s))"
    using k tot by (simp add: ks key_ok_def MAX_KEY_LENGTH_def unat_word_ariths unat_of_nat)
  then have "group_pending ?s"
    using inv False k by (auto simp: group_pending_def group_inv_def group_base_def ks
        simp del: length_ukeys)
  moreover have "insert_ukey_group k s = Inr ?s"
    using len nex k by (simp add: insert_ukey_group_def MAP_ENTRIES_def key_ok_def)
  ultimately show ?thesis using False ks by auto
qed

lemma unat_ucast_u64: "unat (ucast (w :: u16) :: u64) = unat w"
  by (simp add: unsigned_ucast_eq take_bit_nat_eq_self order.strict_trans2 [OF unsigned_less])

lemma group_full_iff:
  assumes "group_base s" "unat (ukey_len s) \<le> 600"
  shows "group_full s \<longleftrightarrow> MAX_PAYLOAD_LEN < GETS_LEN + sum_list (map length (ukeys s)) + length (ukeys s)"
proof -
  have n: "unat (ucast (ukey_len s) :: u64) = unat (ukey_len s)"
    and t: "unat (ucast (total_ukey_size s) :: u64) = sum_list (map length (ukeys s))"
    using assms(1) by (simp_all add: unat_ucast_u64 group_base_def)
  have "unat (1459 - ucast (ukey_len s) :: u64) = 1459 - unat (ukey_len s)"
    using assms(2) n by (subst unat_sub) (simp_all add: word_le_nat_alt)
  then show ?thesis
    using assms(2) by (auto simp: group_full_def GETS_LEN_def word_le_nat_alt t)
qed

lemma group_pending_len: "group_pending s \<Longrightarrow> unat (ukey_len s) \<le> 572"
proof -
  assume p: "group_pending s"
  then have "distinct (butlast (ukeys s))" "\<forall>k \<in> set (butlast (ukeys s)). 0 \<notin> set k"
    by (auto simp: group_pending_def group_base_def key_ok_def distinct_butlast dest: in_set_butlastD)
  then have "length (butlast (ukeys s)) \<le> 571"
    using p by (intro distinct_keys_bound) (auto simp: group_pending_def GETS_LEN_def)
  then show ?thesis by simp
qed

lemma group_pending_inv: "group_pending s \<Longrightarrow> \<not> group_full s \<Longrightarrow> group_inv s"
  using group_full_iff [of s] group_pending_len [of s]
  by (auto simp: group_pending_def group_inv_def)

section \<open>Filling the request\<close>

lemma map_ukey_butlast: "map (ukey s) [0..<unat (ukey_len s) - Suc 0] = butlast (ukeys s)"
  unfolding ukeys_def by (cases "unat (ukey_len s)") simp_all

lemma last_ukeys: "ukeys s \<noteq> [] \<Longrightarrow> last (ukeys s) = ukey s (unat (ukey_len s) - 1)"
  by (simp add: ukeys_def last_map)

lemma fill_request_full:
  assumes "fill_request True s = Inr (payload, s')" "group_base s" "ukeys s \<noteq> []"
  shows "payload = str ''gets'' @ spaced (butlast (ukeys s)) \<and> group_inv s' \<and>
     ukeys s' = [last (ukeys s)] \<and> keys_sent s' = (keys_sent s)(unat (request_id s) := ukey_len s - 1) \<and>
     (\<exists>a n t ks. s' = s\<lparr>ukey := a, ukey_len := n, total_ukey_size := t, keys_sent := ks\<rparr>)"
proof -
  let ?k = "last (ukeys s)"
  have k: "key_ok ?k" using assms(2,3) by (simp add: group_base_def)
  then have "length ?k < 1443" by (simp add: key_ok_def MAX_KEY_LENGTH_def)
  then have ut: "unat (word_of_nat (length ?k) :: u16) = length ?k" by (simp add: unat_of_nat)
  have s': "payload = str ''gets'' @ spaced (butlast (ukeys s))"
    "s' = s\<lparr>ukey := (ukey s)(0 := ?k), ukey_len := 1, total_ukey_size := word_of_nat (length ?k),
            keys_sent := (keys_sent s)(unat (request_id s) := ukey_len s - 1)\<rparr>"
    using assms(1,3)
    by (auto simp: fill_request_def bindr_eq_Inr Let_def construct_keys_packet_eq map_ukey_butlast
        last_ukeys split: if_splits)
  have u: "ukeys s' = [?k]" by (simp add: s'(2) ukeys_def)
  have "group_inv s'"
    using assms(2) k \<open>length ?k < 1443\<close>
    by (simp add: group_inv_def group_base_def u GETS_LEN_def del: length_ukeys)
      (simp add: s'(2) ut)
  with s' u show ?thesis by auto
qed

lemma fill_request_all:
  assumes "fill_request False s = Inr (payload, s')" "group_base s"
  shows "payload = str ''gets'' @ spaced (ukeys s) \<and> group_inv s' \<and> ukeys s' = [] \<and>
     keys_sent s' = (keys_sent s)(unat (request_id s) := ukey_len s) \<and>
     (\<exists>n t ks. s' = s\<lparr>ukey_len := n, total_ukey_size := t, keys_sent := ks\<rparr>)"
proof -
  have s': "payload = str ''gets'' @ spaced (ukeys s)"
    "s' = s\<lparr>ukey_len := 0, total_ukey_size := 0,
            keys_sent := (keys_sent s)(unat (request_id s) := ukey_len s)\<rparr>"
    using assms(1)
    by (auto simp: fill_request_def bindr_eq_Inr Let_def construct_keys_packet_eq ukeys_def
        split: if_splits)
  have u: "ukeys s' = []" by (simp add: s'(2) ukeys_def)
  have "group_inv s'"
    using assms(2) by (simp add: group_inv_def group_base_def u GETS_LEN_def del: length_ukeys) (simp add: s'(2))
  with s' u show ?thesis by auto
qed

text \<open>Building the request faults only when its NUL does not fit.\<close>

lemma fill_request_returns:
  assumes "group_base s" "unat (ukey_len s) \<le> 600"
    and "length ks + sum_list (map length ks) \<le> 1457"
    and "ks = (if full then butlast (ukeys s) else ukeys s)"
  shows "\<exists>r. fill_request full s = Inr r"
proof -
  have "construct_keys_packet ks = Inr (str ''gets'' @ spaced ks)"
    using assms(3) by (simp add: construct_keys_packet_eq length_spaced)
  with assms show ?thesis
    by (cases full) (simp_all add: fill_request_def Let_def MAP_ENTRIES_def map_ukey_butlast
        ukeys_def [symmetric] group_base_def)
qed

section \<open>Sending the group\<close>

text \<open>The variables sending a request touches beyond the group's own.\<close>

definition after_send :: "'h app_state \<Rightarrow> 'h app_state \<Rightarrow> bool" where
  "after_send s s' \<longleftrightarrow> (\<exists>M t now. s' = s\<lparr>mbufs := M, trace := t,
     outstanding_req := outstanding_req s + 1,
     keys_rcvd := (keys_rcvd s)(unat (request_id s) := 0),
     request_id := word_of_nat ((unat (request_id s) + 1) mod MAX_REQ_ID),
     last_send_clock := now\<rparr>)"

lemma construct_pkt_effect:
  assumes "construct_pkt_and_send_to_server e full s = Inr s'" "ukey_len s \<noteq> 0"
  shows "\<exists>payload s1. fill_request full s = Inr (payload, s1) \<and> after_send s1 s'"
proof -
  obtain udph payload s1 s2 where fill: "fill_request full s = Inr (payload, s1)"
    and send: "app_send e (memcached_pkt s1) udph payload (request_id s1) (ip_str_to_int TARGET_IP) True
       (log_event (Refcnt (memcached_pkt s1) 1) (s1\<lparr>outstanding_req := outstanding_req s1 + 1,
          keys_rcvd := (keys_rcvd s1)(unat (request_id s1) := 0)\<rparr>)) = Inr s2"
    and s': "s' = (log_event Clock (s2\<lparr>request_id := word_of_nat ((unat (request_id s2) + 1) mod MAX_REQ_ID)\<rparr>))
       \<lparr>last_send_clock := clock_now e (trace s2)\<rparr>"
    using assms by (auto simp: construct_pkt_and_send_to_server_def bindr_eq_Inr Let_def clock_def log_event_def)
  from net_only_app_send [OF send] obtain M t where
    "s2 = (s1\<lparr>outstanding_req := outstanding_req s1 + 1,
       keys_rcvd := (keys_rcvd s1)(unat (request_id s1) := 0)\<rparr>)\<lparr>mbufs := M, trace := t\<rparr>"
    by (auto simp: net_only_def log_event_def)
  then have "after_send s1 s'"
    unfolding after_send_def s' log_event_def
    by (intro exI [of _ M] exI [of _ "t @ [Clock]"] exI [of _ "clock_now e (trace s2)"]) simp
  with fill show ?thesis by blast
qed

lemma after_send_inv: "after_send s s' \<Longrightarrow> group_inv s \<Longrightarrow> group_inv s'"
  by (auto simp: after_send_def group_inv_def group_base_def ukeys_def MAX_REQ_ID_def unat_of_nat)

lemma construct_full_inv:
  "construct_pkt_and_send_to_server e True s = Inr s' \<Longrightarrow> group_base s \<Longrightarrow> ukeys s \<noteq> [] \<Longrightarrow> group_inv s'"
  using construct_pkt_effect [of e True s s'] fill_request_full [of s] after_send_inv
  by (fastforce simp: ukeys_def unat_eq_0)

lemma construct_all_inv:
  "construct_pkt_and_send_to_server e False s = Inr s' \<Longrightarrow> group_inv s \<Longrightarrow> group_inv s'"
proof (cases "ukey_len s = 0")
  case True
  then show "construct_pkt_and_send_to_server e False s = Inr s' \<Longrightarrow> group_inv s \<Longrightarrow> group_inv s'"
    by (simp add: construct_pkt_and_send_to_server_def)
next
  case False
  then show "construct_pkt_and_send_to_server e False s = Inr s' \<Longrightarrow> group_inv s \<Longrightarrow> group_inv s'"
    using construct_pkt_effect [of e False s s'] fill_request_all [of s] after_send_inv
    by (auto simp: group_inv_def)
qed

end
