(* ===== verification/Api.thy ===== *)
theory Api
  imports Group
begin

text \<open>
  The application handlers of \<open>middlebox/src/api.c\<close>: \<open>app_client_in\<close> merges a
  client's keys into the group and registers the client's packet under the signature of each
  key; \<open>app_server_in\<close> forwards a reply to every client waiting for it and keeps count of
  replies; \<open>refresh_backlog\<close> flushes a group that has waited too long.
\<close>

section \<open>Requests\<close>

definition init_memcached_pkt :: "('h, 'e) app_env_scheme \<Rightarrow> u64 \<Rightarrow> 'h app_state \<Rightarrow> 'h app_state" where
  "init_memcached_pkt e m s =
     (if memcached_pkt s = 0 then
        let (c, M) = pktmbuf_copy e Mbuf_pool m (mbufs s)
        in s\<lparr>mbufs := M, memcached_pkt := c\<rparr>
      else s)"

text \<open>A new signature takes the next place in the queue; whoever held that place is dropped.\<close>

definition drop_oldest :: "('h, 'e) app_env_scheme \<Rightarrow> 'h app_state \<Rightarrow> 'h app_state res" where
  "drop_oldest e s =
     bindr (check Out_of_bounds (LRU_ptr s < MAP_ENTRIES)) (\<lambda>_.
     let old = LRU_queue s (LRU_ptr s);
         s = (case hash_lookup_data e (client_pkts s) old of
                None \<Rightarrow> s
              | Some (pos, LRU_buf) \<Rightarrow>
                  log_event (Free LRU_buf) (s\<lparr>client_pkts := hash_del_key e (client_pkts s) old\<rparr>))
     in Inr (s\<lparr>LRU_queue := (LRU_queue s)(LRU_ptr s := key_hold s),
               LRU_ptr := (LRU_ptr s + 1) mod MAP_ENTRIES\<rparr>))"

definition register_client :: "('h, 'e) app_env_scheme \<Rightarrow> u64 \<Rightarrow> 'h app_state \<Rightarrow> 'h app_state res" where
  "register_client e curr_buf s =
     (let found = hash_lookup_data e (client_pkts s) (key_hold s)
      in bindr (if found = None then drop_oldest e s else Inr s) (\<lambda>s.
         let s = s\<lparr>client_pkts := hash_add_key_data e (client_pkts s) (key_hold s) curr_buf\<rparr>
         in bindr (case found of
                None \<Rightarrow> Inr s
              | Some (position, first_buf) \<Rightarrow>
                  bindr (mbuf_at curr_buf s) (\<lambda>b. Inr (set_mbuf curr_buf (b\<lparr>mb_next := first_buf\<rparr>) s)))
         (\<lambda>s. bindr (slot_of e (client_pkts s) (key_hold s)) (\<lambda>slot.
              Inr (s\<lparr>pkt_counts := (pkt_counts s)(slot := 1)\<rparr>)))))"

text \<open>The body of the loop over a request's keys, for key number \<open>i\<close>.\<close>

definition client_key ::
  "('h, 'e) app_env_scheme \<Rightarrow> u64 \<Rightarrow> nat \<Rightarrow> byte list \<Rightarrow> 'h app_state \<Rightarrow> 'h app_state res" where
  "client_key e m i key s =
     bindr (insert_ukey_group key s) (\<lambda>s.
     bindr (sprint_key (request_id s) key) (\<lambda>sig.
     let s = s\<lparr>key_hold := sig\<rparr>;
         (curr_buf, M) = (if 0 < i then pktmbuf_copy e Small_mbuf_pool m (mbufs s) else (m, mbufs s));
         s = s\<lparr>mbufs := M\<rparr>
     in bindr (register_client e curr_buf s) (\<lambda>s.
        if group_full s then construct_pkt_and_send_to_server e True s else Inr s)))"

fun client_keys ::
  "('h, 'e) app_env_scheme \<Rightarrow> u64 \<Rightarrow> nat \<Rightarrow> byte list list \<Rightarrow> 'h app_state \<Rightarrow> 'h app_state res" where
  "client_keys e m i [] s = Inr s"
| "client_keys e m i (k # ks) s = bindr (client_key e m i k s) (client_keys e m (Suc i) ks)"

definition app_client_in ::
  "('h, 'e) app_env_scheme \<Rightarrow> u64 \<Rightarrow> nat \<Rightarrow> u32 \<Rightarrow> 'h app_state \<Rightarrow> 'h app_state res" where
  "app_client_in e m udph client_address s =
     bindr (init_rcv_app_payload m udph s) (\<lambda>ap.
     case ap of
       None \<Rightarrow> Inr (log_event (Free m) s)
     | Some ap \<Rightarrow>
         let s = init_memcached_pkt e m s
         in bindr (get_data m (\<lambda>d. strip_keys (drop (ap_payload ap) d) (ap_msg_len ap)) s) (\<lambda>keys.
            bindr (client_keys e m 0 keys s) (\<lambda>s.
            if unat (outstanding_req s) < MIN_OUTSTANDING_REQ
            then construct_pkt_and_send_to_server e False s else Inr s)))"

section \<open>Replies\<close>

text \<open>\<open>while (ptr)\<close> along the chain of waiting clients' packets.\<close>

fun steer_loop ::
  "('h, 'e) app_env_scheme \<Rightarrow> nat \<Rightarrow> u64 \<Rightarrow> nat \<Rightarrow> u64 \<Rightarrow> 'h app_state \<Rightarrow> 'h app_state res" where
  "steer_loop e 0 m udph ptr s = (if ptr = 0 then Inr s else Inl Hang)"
| "steer_loop e (Suc n) m udph ptr s =
     (if ptr = 0 then Inr s
      else
        bindr (get_iph_udph_from_buf ptr s) (\<lambda>(curr_iph, curr_udph).
        bindr (init_rcv_app_payload ptr curr_udph s) (\<lambda>ap.
        case ap of
          None \<Rightarrow> Inl Null_deref
        | Some ap \<Rightarrow>
            bindr (extract_info ptr (ap_req_id ap) s) (\<lambda>client_req_id.
            let s = log_event (Refcnt m 1) s
            in bindr (get_data ptr (rd_be32 (curr_iph + 12)) s) (\<lambda>src_addr.
               bindr (app_send e m udph [] client_req_id src_addr False s) (\<lambda>s.
               bindr (mbuf_at ptr s) (\<lambda>b. steer_loop e n m udph (mb_next b) s)))))))"

text \<open>The signature a reply is looked up under, and the variables set on the way.\<close>

definition reply_position ::
  "('h, 'e) app_env_scheme \<Rightarrow> u16 \<Rightarrow> u16 \<Rightarrow> bool \<times> byte list option \<Rightarrow> 'h app_state
     \<Rightarrow> ((nat \<times> u64) option \<times> 'h app_state) res" where
  "reply_position e req_id datagram_exp stripped s =
     (case stripped of
        (True, None) \<Rightarrow> Inl Uninit_read
      | (True, Some key) \<Rightarrow>
          bindr (sprint_key req_id key) (\<lambda>sig.
          let s = s\<lparr>key_hold := sig\<rparr>;
              s = (if 1 < unat datagram_exp then s\<lparr>last_key := key_hold s\<rparr> else s)
          in Inr (hash_lookup_data e (client_pkts s) (key_hold s), s))
      | (False, _) \<Rightarrow> Inr (hash_lookup_data e (client_pkts s) (last_key s), s))"

definition count_reply ::
  "('h, 'e) app_env_scheme \<Rightarrow> u16 \<Rightarrow> u16 \<Rightarrow> 'h app_state \<Rightarrow> 'h app_state res" where
  "count_reply e req_id seq_id s =
     (let id = unat req_id
      in bindr (check Out_of_bounds (id < MAX_REQ_ID)) (\<lambda>_.
         if 0 \<le> sint (keys_rcvd s id) \<and> seq_id \<le> last_seq_id s then
           let s = s\<lparr>keys_rcvd := (keys_rcvd s)(id := keys_rcvd s id + 1)\<rparr>
           in if int (unat (keys_sent s id) div 2) < sint (keys_rcvd s id) then
                let s = s\<lparr>keys_rcvd := (keys_rcvd s)(id := - 1),
                          outstanding_req := outstanding_req s - 1\<rparr>
                in if unat (outstanding_req s) < MIN_OUTSTANDING_REQ
                   then construct_pkt_and_send_to_server e False s else Inr s
              else Inr s
         else Inr s))"

definition finish_reply ::
  "('h, 'e) app_env_scheme \<Rightarrow> nat \<Rightarrow> u64 \<Rightarrow> u16 \<Rightarrow> 'h app_state \<Rightarrow> 'h app_state res" where
  "finish_reply e position head datagram_exp s =
     bindr (check Out_of_bounds (position < MAP_ENTRIES)) (\<lambda>_.
     if pkt_counts s position < datagram_exp
     then Inr (s\<lparr>pkt_counts := (pkt_counts s)(position := pkt_counts s position + 1)\<rparr>)
     else Inr (log_event (Free head) (s\<lparr>client_pkts := hash_del_key e (client_pkts s) (key_hold s)\<rparr>)))"

definition app_server_in ::
  "('h, 'e) app_env_scheme \<Rightarrow> u64 \<Rightarrow> nat \<Rightarrow> 'h app_state \<Rightarrow> 'h app_state res" where
  "app_server_in e m udph s =
     bindr (init_rcv_app_payload m udph s) (\<lambda>ap.
     case ap of
       None \<Rightarrow> Inr (log_event (Free m) s)
     | Some ap \<Rightarrow>
         bindr (extract_info m (ap_req_id ap) s) (\<lambda>req_id.
         bindr (extract_info m (ap_hdr ap) s) (\<lambda>seq_id.
         bindr (extract_info m (ap_hdr ap + 2) s) (\<lambda>datagram_exp.
         bindr (get_data m (\<lambda>d. strip_key_value (drop (ap_payload ap) d) (ap_msg_len ap)) s) (\<lambda>stripped.
         bindr (reply_position e req_id datagram_exp stripped s) (\<lambda>(found, s).
         case found of
           None \<Rightarrow> Inr (log_event (Free m) s)
         | Some (position, head) \<Rightarrow>
             bindr (steer_loop e (chain_fuel e) m udph head s) (\<lambda>s.
             let s = log_event (Free m) s
             in bindr (count_reply e req_id seq_id s) (\<lambda>s.
                finish_reply e position head datagram_exp (s\<lparr>last_seq_id := seq_id\<rparr>)))))))))"

section \<open>Timeouts\<close>

text \<open>Ticks of \<open>clock\<close> as milliseconds against a limit: \<open>dt / CLOCKS_PER_SEC * 1000 >= limit\<close>.\<close>

definition elapsed :: "int \<Rightarrow> int \<Rightarrow> bool" where
  "elapsed limit dt \<longleftrightarrow> limit * CLOCKS_PER_SEC \<le> dt * 1000"

definition program_timeout :: "('h, 'e) app_env_scheme \<Rightarrow> 'h app_state \<Rightarrow> 'h app_state res" where
  "program_timeout e s =
     (if 0 \<le> PROGRAM_TIMEOUT then
        let s = (if program_start_time s = 0
                 then let (now, s) = clock e s in s\<lparr>program_start_time := now\<rparr> else s);
            (now, s) = clock e s
        in if elapsed PROGRAM_TIMEOUT (now - program_start_time s) then Inl Exited else Inr s
      else Inr s)"

definition refresh_backlog :: "('h, 'e) app_env_scheme \<Rightarrow> 'h app_state \<Rightarrow> 'h app_state res" where
  "refresh_backlog e s =
     bindr (program_timeout e s) (\<lambda>s.
     let s = (if last_send_clock s = 0
              then let (now, s) = clock e s in s\<lparr>last_send_clock := now\<rparr> else s)
     in if ukey_len s = 0 then Inr s
        else
          let (now, s) = clock e s
          in if elapsed TIMEOUT (now - last_send_clock s) then
               let s = s\<lparr>outstanding_req := 0\<rparr>;
                   s = s\<lparr>keys_rcvd := (\<lambda>i. if i < MAX_REQ_ID then - 1 else keys_rcvd s i)\<rparr>
               in construct_pkt_and_send_to_server e False s
             else Inr s)"

end
