(* ===== verification/Middlebox.thy ===== *)
theory Middlebox
  imports Api
begin

text \<open>
  The receive path from the Ethernet frame to the application (\<open>eth_in\<close>, \<open>ip_in\<close>,
  \<open>udp_in\<close>), the start-up of \<open>middlebox/src/middlebox.c\<close> with \<open>port_init\<close> of
  \<open>dpdk_init.c\<close>, and the main loop.
\<close>

section \<open>Dispatch\<close>

definition udp_in ::
  "('h, 'e) app_env_scheme \<Rightarrow> u64 \<Rightarrow> nat \<Rightarrow> nat \<Rightarrow> 'h app_state \<Rightarrow> 'h app_state res" where
  "udp_in e m iph udph s =
     bindr (get_data m (rd_be32 (iph + 12)) s) (\<lambda>src_addr.
     if arp_lookup_mac s src_addr = None then Inr (log_event (Free m) s)
     else
       bindr (get_data m (rd_be16 (udph + 2)) s) (\<lambda>dst_port.
       if dst_port \<noteq> LOCAL_PORT then Inr (log_event (Free m) s)
       else if src_addr = ip_str_to_int TARGET_IP then app_server_in e m udph s
       else app_client_in e m udph src_addr s))"

text \<open>\<open>dst_addr\<close> is read as stored, in network order, for both tests.\<close>

definition ip_in ::
  "('h, 'e) app_env_scheme \<Rightarrow> u64 \<Rightarrow> nat \<Rightarrow> 'h app_state \<Rightarrow> 'h app_state res" where
  "ip_in e m iph s =
     bindr (get_data m (rd_le32 (iph + 16)) s) (\<lambda>dst_addr.
     if dst_addr \<noteq> of_le (to_be32 get_local_ip) \<and> \<not> ip_is_multicast dst_addr
     then Inr (log_event (Free m) s)
     else
       bindr (get_data m (rd iph 1) s) (\<lambda>ihl.
       bindr (get_data m (rd (iph + 9) 1) s) (\<lambda>proto.
       let hdrlen = unat (hd ihl AND 0x0f) * 4
       in if hd proto = IPPROTO_TCP then Inr (log_event (Free m) s)
          else if hd proto = IPPROTO_UDP then udp_in e m iph (iph + hdrlen) s
          else Inr (log_event (Free m) s))))"

definition eth_in :: "('h, 'e) app_env_scheme \<Rightarrow> u64 \<Rightarrow> 'h app_state \<Rightarrow> 'h app_state res" where
  "eth_in e m s =
     bindr (get_data m (rd_be16 12) s) (\<lambda>ether_type.
     if ether_type = ETHER_TYPE_ARP then arp_in e m 14 s
     else if ether_type = ETHER_TYPE_IPV4 then ip_in e m 14 s
     else Inr s)"

section \<open>Start-up\<close>

text \<open>
  The device calls \<open>port_init\<close> makes, as their return values per port; the offload
  capability the device reports, and the configuration it is given, are one bit.
\<close>

record device_env =
  eal_init :: int
  mbuf_pool_ok :: bool
  small_mbuf_pool_ok :: bool
  dev_ports :: "u16 list"
  is_valid_port :: "u16 \<Rightarrow> bool"
  dev_info_get :: "u16 \<Rightarrow> int \<times> bool"          \<comment> \<open>\<open>MBUF_FAST_FREE\<close> in \<open>tx_offload_capa\<close>\<close>
  dev_configure :: "u16 \<Rightarrow> u16 \<Rightarrow> u16 \<Rightarrow> bool \<Rightarrow> int"
  adjust_nb_rx_tx_desc :: "u16 \<Rightarrow> u16 \<Rightarrow> u16 \<Rightarrow> int \<times> u16 \<times> u16"
  rx_queue_setup :: "u16 \<Rightarrow> u16 \<Rightarrow> u16 \<Rightarrow> int"
  tx_queue_setup :: "u16 \<Rightarrow> u16 \<Rightarrow> u16 \<Rightarrow> bool \<Rightarrow> int"
  dev_start :: "u16 \<Rightarrow> int"
  macaddr_get :: "u16 \<Rightarrow> int"

definition RX_RING_SIZE :: u16 where "RX_RING_SIZE = 1024"
definition TX_RING_SIZE :: u16 where "TX_RING_SIZE = 1024"

text \<open>\<open>for (q = 0; q < rings; q++)\<close> until a set-up call returns a negative value.\<close>

fun queue_loop :: "(u16 \<Rightarrow> int) \<Rightarrow> nat \<Rightarrow> u16 \<Rightarrow> int" where
  "queue_loop setup 0 q = 0"
| "queue_loop setup (Suc n) q = (if setup q < 0 then setup q else queue_loop setup n (q + 1))"

definition port_init :: "device_env \<Rightarrow> u16 \<Rightarrow> int" where
  "port_init d port =
     (if \<not> is_valid_port d port then -1
      else
        let (retval, fast_free) = dev_info_get d port
        in if retval \<noteq> 0 then retval
           else
             let retval = dev_configure d port 1 1 fast_free
             in if retval \<noteq> 0 then retval
                else
                  let (retval, nb_rxd, nb_txd) = adjust_nb_rx_tx_desc d port RX_RING_SIZE TX_RING_SIZE
                  in if retval \<noteq> 0 then retval
                     else
                       let retval = queue_loop (\<lambda>q. rx_queue_setup d port q nb_rxd) 1 0
                       in if retval < 0 then retval
                          else
                            let retval = queue_loop (\<lambda>q. tx_queue_setup d port q nb_txd fast_free) 1 0
                            in if retval < 0 then retval
                               else
                                 let retval = dev_start d port
                                 in if retval < 0 then retval
                                    else
                                      let retval = macaddr_get d port
                                      in if retval \<noteq> 0 then retval else 0)"

text \<open>
  \<open>main\<close> up to the endless loop. \<open>M\<close> is the packet heap, \<open>file\<close> the lines of
  \<open>config-files/arp-data.csv\<close>.
\<close>

definition main_init ::
  "('h, 'e) app_env_scheme \<Rightarrow> device_env \<Rightarrow> byte list list option \<Rightarrow> (u64 \<Rightarrow> mbuf option)
     \<Rightarrow> 'h app_state res" where
  "main_init e d file M =
     bindr (check Exited (0 \<le> eal_init d)) (\<lambda>_.
     bindr (check Exited (mbuf_pool_ok d)) (\<lambda>_.
     bindr (check Exited (small_mbuf_pool_ok d)) (\<lambda>_.
     bindr (check Exited (list_all (\<lambda>p. port_init d p = 0) (dev_ports d))) (\<lambda>_.
     bindr (init_arp_table e file (init_state e M)) (\<lambda>s. Inr (init_hashmap e s))))))"

section \<open>The main loop\<close>

fun rx_loop :: "('h, 'e) app_env_scheme \<Rightarrow> u64 list \<Rightarrow> 'h app_state \<Rightarrow> 'h app_state res" where
  "rx_loop e [] s = Inr s"
| "rx_loop e (m # ms) s =
     bindr (refresh_backlog e s) (\<lambda>s. bindr (eth_in e m s) (rx_loop e ms))"

text \<open>
  One visit to a port. \<open>rte_eth_rx_burst\<close> hands over packets: the heap now holding them,
  and up to \<open>BURST_SIZE\<close> addresses.
\<close>

definition BURST_SIZE :: nat where "BURST_SIZE = 32"

definition poll_port ::
  "('h, 'e) app_env_scheme \<Rightarrow> (u64 \<Rightarrow> mbuf option) \<Rightarrow> u64 list \<Rightarrow> 'h app_state \<Rightarrow> 'h app_state res" where
  "poll_port e M bufs s =
     bindr (refresh_backlog e s) (\<lambda>s. rx_loop e (take BURST_SIZE bufs) (s\<lparr>mbufs := M\<rparr>))"

text \<open>
  The endless loop over the ports as the states between two visits: what arrives, and where
  the driver puts it, is not the program's choice.
\<close>

inductive lcore_main :: "('h, 'e) app_env_scheme \<Rightarrow> 'h app_state \<Rightarrow> 'h app_state \<Rightarrow> bool"
  for e :: "('h, 'e) app_env_scheme" where
  lcore_start: "lcore_main e s s"
| lcore_poll: "lcore_main e s t \<Longrightarrow> poll_port e M bufs t = Inr u \<Longrightarrow> lcore_main e s u"

end
