(* ===== verification/Invariants.thy ===== *)
theory Invariants
  imports Middlebox
begin

text \<open>
  The invariants of the application's state and their preservation by every handler, up to
  the main loop: the group of waiting keys, and the queue that bounds the client table.
\<close>

section \<open>A loop that runs a handler\<close>

text \<open>
  The main loop runs one handler per packet until one faults. Whatever the handler keeps, the
  loop keeps.
\<close>

locale handler_loop =
  fixes handle :: "'a \<Rightarrow> 's \<Rightarrow> 's res"
    and loop :: "'a list \<Rightarrow> 's \<Rightarrow> 's res"
    and inv :: "'s \<Rightarrow> bool"
  assumes loop_Nil: "loop [] s = Inr s"
    and loop_Cons: "loop (x # xs) s = bindr (handle x s) (loop xs)"
    and handle_keeps: "inv s \<Longrightarrow> handle x s = Inr s' \<Longrightarrow> inv s'"
begin

lemma loop_keeps: "inv s \<Longrightarrow> loop xs s = Inr s' \<Longrightarrow> inv s'"
  by (induction xs arbitrary: s) (auto simp: loop_Nil loop_Cons bindr_eq_Inr dest: handle_keeps)

lemma loop_append: "loop (xs @ ys) s = bindr (loop xs s) (loop ys)"
proof (induction xs arbitrary: s)
  case (Cons x xs)
  then show ?case by (cases "handle x s") (simp_all add: loop_Cons)
qed (simp add: loop_Nil)

end

section \<open>The group of waiting keys\<close>

definition same_group :: "'h app_state \<Rightarrow> 'h app_state \<Rightarrow> bool" where
  "same_group s s' \<longleftrightarrow> ukey s' = ukey s \<and> ukey_len s' = ukey_len s \<and>
     total_ukey_size s' = total_ukey_size s \<and> request_id s' = request_id s"

lemma same_group_ukeys: "same_group s s' \<Longrightarrow> ukeys s' = ukeys s"
  by (simp add: same_group_def ukeys_def)

lemma same_group_transfer:
  assumes "same_group s s'"
  shows "group_base s' = group_base s" "group_inv s' = group_inv s"
    "group_pending s' = group_pending s" "group_full s' = group_full s"
  using assms same_group_ukeys [OF assms]
  by (simp_all add: same_group_def group_base_def group_inv_def group_pending_def group_full_def
      del: length_ukeys)

lemma same_group_refl [simp]: "same_group s s"
  by (simp add: same_group_def)

lemma same_group_trans: "same_group s t \<Longrightarrow> same_group t u \<Longrightarrow> same_group s u"
  by (simp add: same_group_def)

lemma same_group_net: "net_only s s' \<Longrightarrow> same_group s s'"
  by (auto simp: net_only_def same_group_def)

lemma same_group_log [simp]: "same_group s (log_event ev s)"
  by (simp add: same_group_net)

lemma same_group_drop_oldest: "drop_oldest e s = Inr s' \<Longrightarrow> same_group s s'"
  by (auto simp: drop_oldest_def bindr_eq_Inr Let_def log_event_def same_group_def split: option.splits)

lemma same_group_register: "register_client e c s = Inr s' \<Longrightarrow> same_group s s'"
proof (cases "hash_lookup_data e (client_pkts s) (key_hold s) = None")
  case True
  assume "register_client e c s = Inr s'"
  with True obtain s1 where s1: "drop_oldest e s = Inr s1" and "same_group s1 s'"
    by (auto simp: register_client_def bindr_eq_Inr Let_def same_group_def)
  then show ?thesis using same_group_drop_oldest [OF s1] by (auto intro: same_group_trans)
next
  case False
  assume "register_client e c s = Inr s'"
  with False show ?thesis
    by (auto simp: register_client_def bindr_eq_Inr Let_def set_mbuf_def same_group_def)
qed

lemma construct_full_step:
  assumes "group_inv s \<or> group_pending s"
    and "(if group_full s then construct_pkt_and_send_to_server e True s else Inr s) = Inr s'"
  shows "group_inv s'"
proof (cases "group_full s")
  case True
  then have "group_pending s"
    using assms(1) group_full_iff [of s] group_inv_len [of s]
    by (auto simp: group_inv_def group_pending_def)
  then show ?thesis
    using assms(2) True by (auto simp: group_pending_def intro: construct_full_inv)
qed (use assms group_pending_inv in auto)

lemma client_key_inv:
  assumes "client_key e m i k s = Inr s'" "group_inv s" "key_ok k"
  shows "group_inv s'"
proof -
  obtain s1 where ins: "insert_ukey_group k s = Inr s1" "group_inv s1 \<or> group_pending s1"
    using insert_ukey_group_ok [OF assms(2,3)] by (auto split: if_splits)
  let ?copy = "\<lambda>M. if 0 < i then pktmbuf_copy e Small_mbuf_pool m M else (m, M)"
  obtain sig where "bindr (register_client e (fst (?copy (mbufs s1)))
        (s1\<lparr>key_hold := sig, mbufs := snd (?copy (mbufs s1))\<rparr>))
      (\<lambda>s. if group_full s then construct_pkt_and_send_to_server e True s else Inr s) = Inr s'"
    using assms(1) ins(1) by (auto simp: client_key_def bindr_eq_Inr Let_def case_prod_beta cong: if_cong)
  then obtain c M s2 where reg: "register_client e c (s1\<lparr>key_hold := sig, mbufs := M\<rparr>) = Inr s2"
    and fin: "(if group_full s2 then construct_pkt_and_send_to_server e True s2 else Inr s2) = Inr s'"
    unfolding bindr_eq_Inr by blast
  have "same_group s1 (s1\<lparr>key_hold := sig, mbufs := M\<rparr>)" by (simp add: same_group_def)
  then have "same_group s1 s2" using same_group_register [OF reg] by (rule same_group_trans)
  then show ?thesis
    using ins(2) fin construct_full_step [of s2 e s'] by (simp add: same_group_transfer)
qed

lemma client_keys_inv:
  "client_keys e m i ks s = Inr s' \<Longrightarrow> group_inv s \<Longrightarrow> \<forall>k \<in> set ks. key_ok k \<Longrightarrow> group_inv s'"
  by (induction ks arbitrary: i s) (auto simp: bindr_eq_Inr dest: client_key_inv)

text \<open>Every key a request yields is a C string that fits its array.\<close>

lemma put_key_ok:
  assumes "put_key buffer keys = Inr keys'" "\<forall>k \<in> set keys. key_ok k"
    and "\<forall>raw. buffer = Some raw \<longrightarrow> length raw < MAX_KEY_LENGTH"
  shows "\<forall>k \<in> set keys'. key_ok k"
proof -
  obtain raw where "buffer = Some raw" "keys' = keys @ [cstr raw]"
    using assms(1) by (auto simp: put_key_def split: option.splits if_splits)
  moreover from this have "key_ok (cstr raw)"
    using assms(3) length_cstr [of raw] by (simp add: key_ok_def)
  ultimately show ?thesis using assms(2) by simp
qed

lemma strip_loop_key_ok:
  "strip_loop mem n buffer j keys = Inr keys' \<Longrightarrow> \<forall>k \<in> set keys. key_ok k \<Longrightarrow>
     \<forall>raw. buffer = Some raw \<longrightarrow> length raw < MAX_KEY_LENGTH \<Longrightarrow> \<forall>k \<in> set keys'. key_ok k"
proof (induction mem n buffer j keys arbitrary: keys' rule: strip_loop.induct)
  case (1 mem buffer j keys)
  show ?case by (rule put_key_ok [OF _ "1.prems"(2,3)]) (use "1.prems"(1) in simp)
next
  case (2 n buffer j keys)
  then show ?case by simp
next
  case (3 c cs n buffer j keys)
  show ?case
  proof (cases "c = 32")
    case True
    with "3.prems"(1) obtain keys1 where k: "put_key buffer keys = Inr keys1"
      "strip_loop cs n buffer 0 keys1 = Inr keys'" by (auto simp: bindr_eq_Inr)
    show ?thesis
      by (rule "3.IH"(1) [OF True k(2) put_key_ok [OF k(1) "3.prems"(2,3)] "3.prems"(3)])
  next
    case False
    with "3.prems"(1) have j: "\<not> MAX_KEY_LENGTH \<le> j + 1" by (auto split: if_splits)
    show ?thesis
    proof (rule "3.IH"(2) [OF False j _ "3.prems"(2)])
      show "strip_loop cs n (Some (take j (case buffer of None \<Rightarrow> [] | Some raw \<Rightarrow> raw) @ [c]))
          (j + 1) keys = Inr keys'"
        using "3.prems"(1) False j by simp
    qed (use j in auto)
  qed
qed

lemma strip_keys_key_ok: "strip_keys mem n = Inr keys \<Longrightarrow> \<forall>k \<in> set keys. key_ok k"
  by (auto simp: strip_keys_def bindr_eq_Inr dest: strip_loop_key_ok)

lemma app_client_in_inv:
  assumes "app_client_in e m udph a s = Inr s'" "group_inv s"
  shows "group_inv s'"
proof -
  have init: "group_inv (init_memcached_pkt e m s)"
    using assms(2) same_group_transfer(2) [of s "init_memcached_pkt e m s"]
    by (auto simp: init_memcached_pkt_def same_group_def split: prod.splits)
  have drop: "group_inv (log_event ev s)" for ev
    using assms(2) by (simp add: same_group_transfer [OF same_group_log])
  show ?thesis
    using assms(1) init drop
    by (auto simp: app_client_in_def bindr_eq_Inr Let_def get_data_def split: option.splits if_splits
        dest!: client_keys_inv strip_keys_key_ok intro: construct_all_inv)
qed

lemma net_only_steer [net_frame]: "steer_loop e n m udph ptr s = Inr s' \<Longrightarrow> net_only s s'"
proof (induction n arbitrary: ptr s)
  case (Suc n)
  show ?case
  proof (cases "ptr = 0")
    case False
    then obtain r a s1 p where "app_send e m udph [] r a False (log_event (Refcnt m 1) s) = Inr s1"
      "steer_loop e n m udph p s1 = Inr s'"
      using Suc.prems by (auto simp: bindr_eq_Inr Let_def split: option.splits)
    then show ?thesis
      by (meson Suc.IH net_only_app_send net_only_log net_only_trans)
  qed (use Suc in simp)
qed (auto split: if_splits)

lemma same_group_steer: "steer_loop e n m udph ptr s = Inr s' \<Longrightarrow> same_group s s'"
  by (rule same_group_net [OF net_only_steer])

lemma same_group_reply_position:
  "reply_position e r x k s = Inr (f, s') \<Longrightarrow> same_group s s'"
  by (auto simp: reply_position_def bindr_eq_Inr Let_def same_group_def split: bool.splits option.splits prod.splits)

lemma count_reply_inv:
  assumes "count_reply e r q s = Inr s'" "group_inv s"
  shows "group_inv s'"
proof -
  have "group_inv (s\<lparr>keys_rcvd := a, outstanding_req := b\<rparr>)" "group_inv (s\<lparr>keys_rcvd := a\<rparr>)" for a b
    using assms(2) by (subst same_group_transfer(2) [of s]; simp add: same_group_def)+
  then show ?thesis
    using assms by (auto simp: count_reply_def bindr_eq_Inr Let_def split: if_splits
        intro: construct_all_inv)
qed

lemma same_group_finish: "finish_reply e p h x s = Inr s' \<Longrightarrow> same_group s s'"
  by (auto simp: finish_reply_def bindr_eq_Inr log_event_def same_group_def split: if_splits)

text \<open>The ways through \<open>app_server_in\<close>.\<close>

lemma app_server_in_cases:
  assumes "app_server_in e m udph s = Inr s'"
  obtains (dropped) "s' = log_event (Free m) s"
  | (unknown) r x st s1 where "reply_position e r x st s = Inr (None, s1)" "s' = log_event (Free m) s1"
  | (steered) r x st pos hd s1 s2 q s3 where
      "reply_position e r x st s = Inr (Some (pos, hd), s1)"
      "steer_loop e (chain_fuel e) m udph hd s1 = Inr s2"
      "count_reply e r q (log_event (Free m) s2) = Inr s3"
      "finish_reply e pos hd x (s3\<lparr>last_seq_id := q\<rparr>) = Inr s'"
proof -
  obtain ap where "init_rcv_app_payload m udph s = Inr ap"
    and rest: "(case ap of None \<Rightarrow> Inr (log_event (Free m) s) | Some ap \<Rightarrow>
         bindr (extract_info m (ap_req_id ap) s) (\<lambda>req_id.
         bindr (extract_info m (ap_hdr ap) s) (\<lambda>seq_id.
         bindr (extract_info m (ap_hdr ap + 2) s) (\<lambda>datagram_exp.
         bindr (get_data m (\<lambda>d. strip_key_value (drop (ap_payload ap) d) (ap_msg_len ap)) s) (\<lambda>stripped.
         bindr (reply_position e req_id datagram_exp stripped s) (\<lambda>(found, s).
         case found of
           None \<Rightarrow> Inr (log_event (Free m) s)
         | Some (position, head) \<Rightarrow>
             bindr (steer_loop e (chain_fuel e) m udph head s) (\<lambda>s.
             let s = log_event (Free m) s
             in bindr (count_reply e req_id seq_id s) (\<lambda>s.
                finish_reply e position head datagram_exp (s\<lparr>last_seq_id := seq_id\<rparr>))))))))) = Inr s'"
    using assms unfolding app_server_in_def bindr_eq_Inr by blast
  show thesis
  proof (cases ap)
    case None
    with rest show thesis by (intro dropped) simp
  next
    case (Some p)
    with rest obtain r q x st found s1 where
      "reply_position e r x st s = Inr (found, s1)"
      "(case found of
           None \<Rightarrow> Inr (log_event (Free m) s1)
         | Some (position, head) \<Rightarrow>
             bindr (steer_loop e (chain_fuel e) m udph head s1) (\<lambda>s.
             let s = log_event (Free m) s
             in bindr (count_reply e r q s) (\<lambda>s.
                finish_reply e position head x (s\<lparr>last_seq_id := q\<rparr>)))) = Inr s'"
      by (auto simp: bindr_eq_Inr)
    then show thesis
      by (cases found) (auto simp: bindr_eq_Inr Let_def intro: unknown steered)
  qed
qed

lemma app_server_in_inv:
  assumes "app_server_in e m udph s = Inr s'" "group_inv s"
  shows "group_inv s'"
  using assms(1)
proof (cases rule: app_server_in_cases)
  case dropped
  with assms(2) show ?thesis by (simp add: same_group_transfer [OF same_group_log])
next
  case (unknown r x st s1)
  with assms(2) same_group_transfer(2) [OF same_group_reply_position [OF unknown(1)]] show ?thesis
    by (simp add: same_group_transfer [OF same_group_log])
next
  case (steered r x st pos hd s1 s2 q s3)
  have "group_inv s1" "group_inv s2"
    using assms(2) same_group_transfer(2) [OF same_group_reply_position [OF steered(1)]]
      same_group_transfer(2) [OF same_group_steer [OF steered(2)]] by simp_all
  then have "group_inv s3"
    using count_reply_inv [OF steered(3)] by (simp add: same_group_transfer [OF same_group_log])
  moreover have "same_group s3 (s3\<lparr>last_seq_id := q\<rparr>)" by (simp add: same_group_def)
  then have "same_group s3 s'" using same_group_finish [OF steered(4)] by (rule same_group_trans)
  ultimately show ?thesis by (simp add: same_group_transfer)
qed

text \<open>\<open>refresh_backlog\<close> with the program timeout switched off, as it is configured.\<close>

definition start_clock :: "('h, 'e) app_env_scheme \<Rightarrow> 'h app_state \<Rightarrow> 'h app_state" where
  "start_clock e s =
     (if last_send_clock s = 0 then (log_event Clock s)\<lparr>last_send_clock := clock_now e (trace s)\<rparr> else s)"

definition reset_counts :: "'h app_state \<Rightarrow> 'h app_state" where
  "reset_counts s = s\<lparr>outstanding_req := 0,
     keys_rcvd := (\<lambda>i. if i < MAX_REQ_ID then - 1 else keys_rcvd s i)\<rparr>"

lemma refresh_backlog_eq:
  "refresh_backlog e s =
     (let s1 = start_clock e s
      in if ukey_len s = 0 then Inr s1
         else if elapsed TIMEOUT (clock_now e (trace s1) - last_send_clock s1)
              then construct_pkt_and_send_to_server e False (reset_counts (log_event Clock s1))
              else Inr (log_event Clock s1))"
proof (cases "last_send_clock s = 0")
  case True
  then show ?thesis
    unfolding refresh_backlog_def program_timeout_def PROGRAM_TIMEOUT_def start_clock_def reset_counts_def
      clock_def log_event_def
    by (simp add: Let_def cong: if_cong)
next
  case False
  then show ?thesis
    unfolding refresh_backlog_def program_timeout_def PROGRAM_TIMEOUT_def start_clock_def reset_counts_def
      clock_def log_event_def
    by (simp add: Let_def cong: if_cong)
qed

lemma same_group_clocks:
  "same_group s (start_clock e s)" "same_group s (log_event Clock (start_clock e s))"
  "same_group s (reset_counts (log_event Clock (start_clock e s)))"
  by (simp_all add: same_group_def start_clock_def reset_counts_def log_event_def)

lemma refresh_backlog_inv:
  "refresh_backlog e s = Inr s' \<Longrightarrow> group_inv s \<Longrightarrow> group_inv s'"
  by (auto simp: refresh_backlog_eq Let_def same_group_transfer(2) [OF same_group_clocks(1)]
      same_group_transfer(2) [OF same_group_clocks(2)] same_group_transfer(2) [OF same_group_clocks(3)]
      split: if_splits intro: construct_all_inv)

section \<open>From the frame to the handlers\<close>

lemma same_group_arp_in: "arp_in e m off s = Inr s' \<Longrightarrow> same_group s s'"
  using net_only_arp_in by (rule same_group_net)

lemma udp_in_inv: "udp_in e m iph udph s = Inr s' \<Longrightarrow> group_inv s \<Longrightarrow> group_inv s'"
  by (auto simp: udp_in_def bindr_eq_Inr same_group_transfer [OF same_group_log] split: if_splits
      dest: app_server_in_inv app_client_in_inv)

lemma ip_in_inv: "ip_in e m iph s = Inr s' \<Longrightarrow> group_inv s \<Longrightarrow> group_inv s'"
  by (auto simp: ip_in_def bindr_eq_Inr Let_def same_group_transfer [OF same_group_log] split: if_splits
      dest: udp_in_inv)

lemma eth_in_inv: "eth_in e m s = Inr s' \<Longrightarrow> group_inv s \<Longrightarrow> group_inv s'"
  by (auto simp: eth_in_def bindr_eq_Inr same_group_transfer [OF same_group_arp_in] split: if_splits
      dest: ip_in_inv)

interpretation rx: handler_loop "\<lambda>m s. bindr (refresh_backlog e s) (eth_in e m)" "rx_loop e" group_inv for e
proof unfold_locales
  show "rx_loop e (m # ms) s = bindr (bindr (refresh_backlog e s) (eth_in e m)) (rx_loop e ms)" for m ms s
    by (cases "refresh_backlog e s") simp_all
  show "bindr (refresh_backlog e s) (eth_in e m) = Inr s' \<Longrightarrow> group_inv s \<Longrightarrow> group_inv s'" for m s s'
    by (auto simp: bindr_eq_Inr dest: refresh_backlog_inv eth_in_inv)
qed simp

lemma poll_port_inv:
  assumes "poll_port e M bufs s = Inr s'" "group_inv s"
  shows "group_inv s'"
proof -
  obtain s1 where s1: "refresh_backlog e s = Inr s1" "rx_loop e (take BURST_SIZE bufs) (s1\<lparr>mbufs := M\<rparr>) = Inr s'"
    using assms(1) by (auto simp: poll_port_def bindr_eq_Inr)
  have "group_inv (s1\<lparr>mbufs := M\<rparr>)"
    using refresh_backlog_inv [OF s1(1) assms(2)]
    by (subst same_group_transfer(2) [of s1]) (simp_all add: same_group_def)
  then show ?thesis using s1(2) by (rule rx.loop_keeps)
qed

lemma init_state_group: "group_inv (init_state e M)"
  by (simp add: group_inv_def group_base_def ukeys_def init_state_def GETS_LEN_def MAX_REQ_ID_def)

lemma load_arp_lines_frame:
  "load_arp_lines e ls s = Inr s' \<Longrightarrow> \<exists>tbl n. s' = s\<lparr>known_haddrs := tbl, arp_count := n\<rparr>"
proof (induction ls arbitrary: s)
  case Nil
  have "s = s\<lparr>known_haddrs := known_haddrs s, arp_count := arp_count s\<rparr>" by simp
  with Nil show ?case by (metis load_arp_lines.simps(1) sum.inject(2))
next
  case (Cons l ls)
  from Cons.prems obtain ip mac where l: "split_arp_line l = Inr (ip, mac)"
    "load_arp_lines e ls (snd (add_arp_entry e ip mac s)) = Inr s'" by (auto simp: bindr_eq_Inr)
  obtain tbl n where "snd (add_arp_entry e ip mac s) = s\<lparr>known_haddrs := tbl, arp_count := n\<rparr>"
  proof (cases "ARP_ENTRIES_COUNT \<le> unat (arp_count s)")
    case True
    then show ?thesis
      by (intro that [where tbl = "known_haddrs s" and n = "arp_count s"]) (simp add: add_arp_entry_def)
  next
    case False
    then show ?thesis by (intro that) (simp add: add_arp_entry_def Let_def)
  qed
  with Cons.IH [OF l(2)] show ?case by auto
qed

text \<open>Start-up leaves everything but the ARP table in its initial state.\<close>

lemma main_init_frame:
  "main_init e d lines M = Inr s \<Longrightarrow> \<exists>tbl n. s = (init_state e M)\<lparr>known_haddrs := tbl, arp_count := n\<rparr>"
  by (auto simp: main_init_def bindr_eq_Inr init_arp_table_def init_hashmap_def init_state_def
      split: option.splits dest!: load_arp_lines_frame)

lemma main_init_group: "main_init e d lines M = Inr s \<Longrightarrow> group_inv s"
  using main_init_frame [of e d lines M s] init_state_group [of e M]
  by (auto simp: group_inv_def group_base_def ukeys_def)

inductive_cases lcore_main_E: "lcore_main e s s'"

lemma lcore_main_inv: "lcore_main e s s' \<Longrightarrow> group_inv s \<Longrightarrow> group_inv s'"
  by (induction rule: lcore_main.induct) (auto dest: poll_port_inv)

end
