(* ===== verification/Steering.thy ===== *)
theory Steering
  imports Invariants
begin

text \<open>
  What the handlers put on the wire: a reply goes to every waiting client in the order of the
  chain, a group goes to memcached as one request. The packets are assumed to have the plain
  20-byte IP header, so the UDP header is at offset 34 and the payload at 42.
\<close>

section \<open>The chain of waiting clients\<close>

text \<open>A client's packet: its address, the id of its request, its address and hardware address.\<close>

definition waiting ::
  "'z net_state_scheme \<Rightarrow> u64 \<Rightarrow> mbuf \<Rightarrow> u16 \<Rightarrow> u32 \<Rightarrow> byte list \<Rightarrow> bool" where
  "waiting s a b rid src mac \<longleftrightarrow>
     a \<noteq> 0 \<and> mbufs s a = Some b \<and>
     (\<exists>ihl. rd 14 1 (mb_data b) = Inr [ihl] \<and> ihl AND 0x0f = 5) \<and>
     (\<exists>dl. rd_be16 38 (mb_data b) = Inr dl \<and> 8 \<le> unat dl \<and> unat dl \<le> 1480) \<and>
     rd_be16 42 (mb_data b) = Inr rid \<and> rd_be32 26 (mb_data b) = Inr src \<and>
     arp_lookup_mac s src = Some mac \<and> length mac = 6"

fun chain :: "'z net_state_scheme \<Rightarrow> u64 \<Rightarrow> (u64 \<times> u16 \<times> u32 \<times> byte list) list \<Rightarrow> bool" where
  "chain s ptr [] \<longleftrightarrow> ptr = 0"
| "chain s ptr ((a, rid, src, mac) # ws) \<longleftrightarrow>
     ptr = a \<and> (\<exists>b. waiting s a b rid src mac \<and> chain s (mb_next b) ws)"

lemma waiting_other:
  assumes "mbufs s' a = mbufs s a" "known_haddrs s' = known_haddrs s"
  shows "waiting s' a b rid src mac = waiting s a b rid src mac"
  using assms by (simp add: waiting_def arp_lookup_mac_def)

lemma chain_other:
  assumes "\<forall>w \<in> set ws. mbufs s' (fst w) = mbufs s (fst w)" "known_haddrs s' = known_haddrs s"
  shows "chain s' ptr ws = chain s ptr ws"
  using assms
proof (induction ws arbitrary: ptr)
  case (Cons w ws)
  then show ?case by (cases w) (simp add: waiting_other [OF _ Cons.prems(2)])
qed simp

text \<open>The reply as a packet whose first \<open>n\<close> payload bytes are two id bytes and \<open>y\<close>.\<close>

definition reply_packet :: "'z net_state_scheme \<Rightarrow> u64 \<Rightarrow> nat \<Rightarrow> byte list \<Rightarrow> bool" where
  "reply_packet s m n y \<longleftrightarrow>
     (\<exists>b q x z. mbufs s m = Some b \<and> mb_data b = q @ x @ y @ z \<and> length q = 42 \<and> length x = 2 \<and>
        rd_be16 38 q = Inr (word_of_nat (n + 8)) \<and> length y + 2 = n \<and> n \<le> 1472)"

lemma udp_frame_prefix:
  assumes "length mac = 6" "length body \<le> 1472"
  shows "\<exists>q. udp_frame e mac dst body = q @ body \<and> length q = 42 \<and>
     rd_be16 38 q = Inr (word_of_nat (length body + 8))"
proof -
  let ?q = "mac @ local_mac @ to_be16 ETHER_TYPE_IPV4 @
     ip_header e get_local_ip dst 64 0 IPPROTO_UDP (word_of_nat (length body + 8)) @
     udp_header (word_of_nat (length body))"
  have "ucast ((word_of_nat (length body) :: u32) + 8) = (word_of_nat (length body + 8) :: u16)"
    using assms(2) by (rule u16_of_u32_len)
  then have "rd_be16 38 ?q = Inr (word_of_nat (length body + 8))"
    using assms(1) by (simp add: rd_be16_def rd_append_right udp_header_def rd_def)
  then show ?thesis using assms(1) by (intro exI [of _ ?q]) (simp add: udp_frame_def)
qed

lemma app_send_reply:
  assumes env: "unformat_ok e" "tx_live e" and mac: "arp_lookup_mac s src = Some mac" "length mac = 6"
    and pkt: "reply_packet s m n y"
  shows "\<exists>s'. app_send e m 34 [] rid src False s = Inr s' \<and>
     calls (trace s') = calls (trace s) @ [Tx m (udp_frame e mac src (to_be16 rid @ y))] \<and>
     known_haddrs s' = known_haddrs s \<and> (\<forall>a. a \<noteq> m \<longrightarrow> mbufs s' a = mbufs s a) \<and>
     reply_packet s' m n y"
proof -
  obtain b q x z where b: "mbufs s m = Some b" "mb_data b = q @ x @ y @ z" "length q = 42"
    and x: "length x = 2" and n: "rd_be16 38 q = Inr (word_of_nat (n + 8))" "length y + 2 = n" "n \<le> 1472"
    using pkt by (auto simp: reply_packet_def)
  let ?p = "to_be16 rid @ y @ z"
  let ?s = "udp_sent e m b mac src n ?p s"
  have send: "app_send e m 34 [] rid src False s = Inr ?s"
    using app_send_to_client [OF env mac b n(1), of rid] n x by simp
  have body: "take n ?p = to_be16 rid @ y" "drop n ?p = z" using n(2) by auto
  have "calls (trace ?s) = calls (trace s) @ [Tx m (udp_frame e mac src (to_be16 rid @ y))]"
    using udp_sent_calls [OF mac(2) n(3), of ?p] n(2) by (simp add: body)
  moreover have "reply_packet ?s m n y"
  proof -
    have len: "length (to_be16 rid @ y) = n" using n(2) by simp
    obtain q' where q': "udp_frame e mac src (to_be16 rid @ y) = q' @ to_be16 rid @ y" "length q' = 42"
      "rd_be16 38 q' = Inr (word_of_nat (n + 8))"
      using udp_frame_prefix [OF mac(2), of "to_be16 rid @ y" e src] len n(3) by auto
    let ?b = "b\<lparr>mb_data := udp_frame e mac src (take n ?p) @ drop n ?p,
        mb_pkt_len := word_of_nat (n + 42), mb_data_len := word_of_nat (n + 42)\<rparr>"
    have "mbufs ?s m = Some ?b" by (simp only: udp_sent_fields fun_upd_same)
    moreover have "mb_data ?b = q' @ to_be16 rid @ y @ z"
      by (simp only: body q'(1) append_assoc) simp
    moreover have "length (to_be16 rid) = 2" by simp
    ultimately show ?thesis using q'(2,3) n unfolding reply_packet_def by blast
  qed
  ultimately show ?thesis using send by (intro exI [of _ ?s]) (simp add: net_simps)
qed

definition reply_frames ::
  "'e net_env_scheme \<Rightarrow> u64 \<Rightarrow> byte list \<Rightarrow> (u64 \<times> u16 \<times> u32 \<times> byte list) list \<Rightarrow> event list" where
  "reply_frames e m y ws =
     concat (map (\<lambda>(a, rid, src, mac). [Refcnt m 1, Tx m (udp_frame e mac src (to_be16 rid @ y))]) ws)"

lemma get_data_frame:
  "mbufs s' a = Some b \<Longrightarrow> get_data a f s' = f (mb_data b)"
  by (simp add: get_data_def mbuf_at_def)

lemma steer_loop_step:
  assumes "waiting s a b rid src mac"
  shows "steer_loop e (Suc k) m 34 a s =
     bindr (app_send e m 34 [] rid src False (log_event (Refcnt m 1) s)) (\<lambda>s.
     bindr (mbuf_at a s) (\<lambda>b. steer_loop e k m 34 (mb_next b) s))"
proof -
  obtain ihl dl where w: "a \<noteq> 0" "mbufs s a = Some b" "rd 14 1 (mb_data b) = Inr [ihl]" "ihl AND 15 = 5"
    "rd_be16 38 (mb_data b) = Inr dl" "8 \<le> unat dl" "unat dl \<le> 1480"
    "rd_be16 42 (mb_data b) = Inr rid" "rd_be32 26 (mb_data b) = Inr src"
    using assms by (auto simp: waiting_def)
  have dl: "unat (ucast dl - 8 :: u32) \<le> 1472"
  proof -
    have "unat (ucast dl :: u32) = unat dl"
      by (simp add: unsigned_ucast_eq take_bit_nat_eq_self order.strict_trans2 [OF unsigned_less])
    then show ?thesis using w(6,7) by (simp add: unat_sub word_le_nat_alt)
  qed
  then have rcv: "init_rcv_app_payload a 34 s = Inr (Some \<lparr>ap_req_id = 42, ap_hdr = 44, ap_payload = 50,
      ap_msg_len = ucast (ucast dl - 8 :: u32) - 2 - 6 - 2,
      ap_tail = Some (50 + unat (ucast (ucast dl - 8 :: u32) - 2 - 6 - 2 :: u16)),
      ap_total_len = ucast (ucast dl - 8 :: u32)\<rparr>)"
    using w by (simp add: init_rcv_app_payload_def get_data_frame Let_def UDP_MAX_LEN_def)
  show ?thesis
    using w(1) rcv w
    by (simp add: get_iph_udph_from_buf_def get_data_frame extract_info_def Let_def net_simps)
qed

lemma steer_loop_chain:
  assumes "unformat_ok e" "tx_live e" "chain s ptr ws" "\<forall>w \<in> set ws. fst w \<noteq> m"
    and "reply_packet s m n y" "length ws \<le> k"
  shows "\<exists>s'. steer_loop e k m 34 ptr s = Inr s' \<and>
     calls (trace s') = calls (trace s) @ reply_frames e m y ws \<and>
     (\<forall>a. a \<noteq> m \<longrightarrow> mbufs s' a = mbufs s a) \<and> mbufs s' m \<noteq> None"
  using assms
proof (induction ws arbitrary: ptr s k)
  case Nil
  then show ?case by (cases k) (auto simp: reply_frames_def reply_packet_def)
next
  case (Cons w ws)
  obtain a rid src mac where w: "w = (a, rid, src, mac)" by (cases w)
  obtain b where b: "waiting s a b rid src mac" "chain s (mb_next b) ws" and a: "ptr = a" "a \<noteq> m"
    using Cons.prems(3,4) w by auto
  obtain j where k: "k = Suc j" "length ws \<le> j" using Cons.prems(6) by (cases k) auto
  let ?s = "log_event (Refcnt m 1) s"
  have "reply_packet ?s m n y" "arp_lookup_mac ?s src = Some mac" "length mac = 6"
    using Cons.prems(5) b(1) by (simp_all add: reply_packet_def waiting_def net_simps arp_lookup_mac_def)
  from app_send_reply [OF Cons.prems(1,2) this(2,3,1)] obtain s1 where
    s1: "app_send e m 34 [] rid src False ?s = Inr s1"
    "calls (trace s1) = calls (trace s) @ [Refcnt m 1, Tx m (udp_frame e mac src (to_be16 rid @ y))]"
    "known_haddrs s1 = known_haddrs s" "\<forall>a. a \<noteq> m \<longrightarrow> mbufs s1 a = mbufs s a"
    "reply_packet s1 m n y"
    by (auto simp: net_simps)
  have "mbufs s1 a = Some b" using b(1) a s1(4) by (simp add: waiting_def)
  then have step: "steer_loop e k m 34 ptr s = steer_loop e j m 34 (mb_next b) s1"
    by (simp only: k(1) a(1) steer_loop_step [OF b(1)] s1(1) bindr_Inr mbuf_at_Some)
  have "chain s1 (mb_next b) ws"
    using b(2) Cons.prems(4) s1(3,4) by (subst chain_other [of ws s1 s]) auto
  then obtain s2 where "steer_loop e j m 34 (mb_next b) s1 = Inr s2"
    "calls (trace s2) = calls (trace s1) @ reply_frames e m y ws" "\<forall>a. a \<noteq> m \<longrightarrow> mbufs s2 a = mbufs s1 a"
    "mbufs s2 m \<noteq> None"
    using Cons.IH [OF Cons.prems(1,2) _ _ s1(5) k(2)] Cons.prems(4) by (meson list.set_intros(2))
  then show ?case
    using step s1 by (auto simp: reply_frames_def w)
qed

section \<open>A request to memcached\<close>

text \<open>The packet reserved for requests is live, plain and large enough, and memcached known.\<close>

definition server_ready :: "'h app_state \<Rightarrow> byte list \<Rightarrow> bool" where
  "server_ready s mac \<longleftrightarrow>
     arp_lookup_mac s (ip_str_to_int TARGET_IP) = Some mac \<and> length mac = 6 \<and>
     (\<exists>b q p ihl. mbufs s (memcached_pkt s) = Some b \<and> mb_data b = q @ p \<and> length q = 42 \<and>
        rd 14 1 q = Inr [ihl] \<and> ihl AND 0x0f = 5 \<and> 1472 \<le> length p)"

definition request_frame :: "'e net_env_scheme \<Rightarrow> byte list \<Rightarrow> u16 \<Rightarrow> byte list list \<Rightarrow> byte list" where
  "request_frame e mac rid ks =
     udp_frame e mac (ip_str_to_int TARGET_IP) (server_body rid (str ''gets'' @ spaced ks))"

lemma server_ready_other:
  assumes "mbufs s' = mbufs s" "known_haddrs s' = known_haddrs s" "memcached_pkt s' = memcached_pkt s"
  shows "server_ready s' mac = server_ready s mac"
  using assms by (simp add: server_ready_def arp_lookup_mac_def)

lemma ihl_of_frame:
  assumes "length mac = 6"
  shows "rd 14 1 (mac @ local_mac @ to_be16 t @ ip_header e src dst ttl tos proto l @ r) = Inr [0x45]"
  using assms by (simp add: rd_def ip_header_def ip_header_with_def)

lemma app_send_request:
  assumes env: "unformat_ok e" "tx_live e" and ready: "server_ready s mac"
    and msg: "length msg \<le> 1462"
  shows "\<exists>s'. app_send e (memcached_pkt s) 34 msg rid (ip_str_to_int TARGET_IP) True s = Inr s' \<and>
     calls (trace s') = calls (trace s) @
       [Tx (memcached_pkt s) (udp_frame e mac (ip_str_to_int TARGET_IP) (server_body rid msg))] \<and>
     server_ready s' mac \<and> known_haddrs s' = known_haddrs s \<and>
     (\<forall>a. a \<noteq> memcached_pkt s \<longrightarrow> mbufs s' a = mbufs s a)"
proof -
  obtain b q p where mac: "arp_lookup_mac s (ip_str_to_int TARGET_IP) = Some mac" "length mac = 6"
    and b: "mbufs s (memcached_pkt s) = Some b" "mb_data b = q @ p" "length q = 42" "1472 \<le> length p"
    using ready by (auto simp: server_ready_def)
  let ?n = "length msg + 10" and ?r = "drop (length msg + 10) p" and ?body = "server_body rid msg"
  let ?s = "udp_sent e (memcached_pkt s) b mac (ip_str_to_int TARGET_IP) ?n (?body @ ?r) s"
  have len: "length msg + 10 \<le> length p" using msg b(4) by simp
  have send: "app_send e (memcached_pkt s) 34 msg rid (ip_str_to_int TARGET_IP) True s = Inr ?s"
    by (rule app_send_to_server [OF env mac b(1-3) msg len])
  have body: "take ?n (?body @ ?r) = ?body" "drop ?n (?body @ ?r) = ?r" by simp_all
  have "calls (trace ?s) = calls (trace s) @ [Tx (memcached_pkt s) (udp_frame e mac (ip_str_to_int TARGET_IP) ?body)]"
    using udp_sent_calls [OF mac(2), of ?n "?body @ ?r"] msg by (simp add: body)
  moreover have "server_ready ?s mac"
  proof -
    let ?b = "b\<lparr>mb_data := udp_frame e mac (ip_str_to_int TARGET_IP) (take ?n (?body @ ?r)) @ drop ?n (?body @ ?r),
        mb_pkt_len := word_of_nat (?n + 42), mb_data_len := word_of_nat (?n + 42)\<rparr>"
    obtain q' where q': "udp_frame e mac (ip_str_to_int TARGET_IP) ?body = q' @ ?body" "length q' = 42"
      using udp_frame_prefix [OF mac(2), of ?body e] msg by auto
    have "mbufs ?s (memcached_pkt ?s) = Some ?b" by (simp add: udp_sent_def sent_state_def set_mbuf_def)
    moreover have "mb_data ?b = q' @ ?body @ ?r" by (simp only: body q'(1) append_assoc) simp
    moreover have "rd 14 1 q' = Inr [0x45]"
    proof -
      have "rd 14 1 (udp_frame e mac (ip_str_to_int TARGET_IP) ?body) = Inr [0x45]"
        unfolding udp_frame_def by (rule ihl_of_frame [OF mac(2)])
      then show ?thesis unfolding q'(1) using q'(2) by (simp add: rd_append_left)
    qed
    moreover have "1472 \<le> length (?body @ ?r)" using len b(4) by simp
    moreover have "(0x45 :: byte) AND 0x0f = 5" by simp
    moreover have "arp_lookup_mac ?s (ip_str_to_int TARGET_IP) = Some mac"
      using mac(1) by (simp add: arp_lookup_mac_def net_simps)
    ultimately show ?thesis using mac(2) q'(2) unfolding server_ready_def by blast
  qed
  moreover have "known_haddrs ?s = known_haddrs s" "\<forall>a. a \<noteq> memcached_pkt s \<longrightarrow> mbufs ?s a = mbufs s a"
    by (simp_all add: net_simps)
  ultimately show ?thesis using send by blast
qed

lemma server_ready_headers: "server_ready s mac \<Longrightarrow> get_iph_udph_from_buf (memcached_pkt s) s = Inr (14, 34)"
  by (auto simp: server_ready_def get_iph_udph_from_buf_def get_data_frame rd_append_left)

text \<open>The keys a request carries: all, or all but the last.\<close>

definition sent_keys :: "bool \<Rightarrow> 'h app_state \<Rightarrow> byte list list" where
  "sent_keys full s = (if full then butlast (ukeys s) else ukeys s)"

definition kept_keys :: "bool \<Rightarrow> 'h app_state \<Rightarrow> byte list list" where
  "kept_keys full s = (if full then [last (ukeys s)] else [])"

definition request_text_len :: "byte list list \<Rightarrow> nat" where
  "request_text_len ks = GETS_LEN + sum_list (map length ks) + length ks"

lemma fill_request_effect:
  assumes "fill_request full s = Inr (payload, s')" "group_base s" "ukeys s \<noteq> []"
  shows "payload = str ''gets'' @ spaced (sent_keys full s) \<and> group_inv s' \<and> ukeys s' = kept_keys full s \<and>
     keys_sent s' = (keys_sent s)(unat (request_id s) := word_of_nat (length (sent_keys full s))) \<and>
     (\<exists>a n t ks. s' = s\<lparr>ukey := a, ukey_len := n, total_ukey_size := t, keys_sent := ks\<rparr>)"
proof (cases full)
  case True
  have "1 \<le> unat (ukey_len s)" using assms(3) by (cases "unat (ukey_len s)") (simp_all add: ukeys_def)
  then have "word_of_nat (length (butlast (ukeys s))) = ukey_len s - 1"
    by (simp add: word_unat_eq_iff unat_of_nat unat_sub word_le_nat_alt)
  then show ?thesis
    using fill_request_full [of s payload s'] assms
    by (simp add: True sent_keys_def kept_keys_def)
next
  case False
  then have all: "fill_request False s = Inr (payload, s')" using assms(1) by simp
  obtain n t ks where "s' = s\<lparr>ukey_len := n, total_ukey_size := t, keys_sent := ks\<rparr>"
    using fill_request_all [OF all assms(2)] by blast
  then have "s' = s\<lparr>ukey := ukey s, ukey_len := n, total_ukey_size := t, keys_sent := ks\<rparr>" by simp
  then have "\<exists>a n t ks. s' = s\<lparr>ukey := a, ukey_len := n, total_ukey_size := t, keys_sent := ks\<rparr>" by blast
  then show ?thesis
    using fill_request_all [OF all assms(2)]
    by (simp add: False sent_keys_def kept_keys_def)
qed

lemma construct_sends:
  assumes env: "unformat_ok e" "tx_live e" and ready: "server_ready s mac"
    and group: "group_base s" "ukeys s \<noteq> []" "unat (ukey_len s) \<le> 600"
    and fits: "request_text_len (sent_keys full s) < MAX_PAYLOAD_LEN"
  shows "\<exists>s'. construct_pkt_and_send_to_server e full s = Inr s' \<and>
     calls (trace s') = calls (trace s) @ [Refcnt (memcached_pkt s) 1,
       Tx (memcached_pkt s) (request_frame e mac (request_id s) (sent_keys full s))] \<and>
     ukeys s' = kept_keys full s \<and> group_inv s' \<and> server_ready s' mac \<and>
     request_id s' = word_of_nat ((unat (request_id s) + 1) mod MAX_REQ_ID) \<and>
     outstanding_req s' = outstanding_req s + 1 \<and>
     keys_sent s' = (keys_sent s)(unat (request_id s) := word_of_nat (length (sent_keys full s))) \<and>
     keys_rcvd s' = (keys_rcvd s)(unat (request_id s) := 0) \<and>
     client_pkts s' = client_pkts s \<and> LRU_queue s' = LRU_queue s \<and> LRU_ptr s' = LRU_ptr s \<and>
     pkt_counts s' = pkt_counts s \<and> known_haddrs s' = known_haddrs s \<and>
     memcached_pkt s' = memcached_pkt s \<and>
     (\<forall>a. a \<noteq> memcached_pkt s \<longrightarrow> mbufs s' a = mbufs s a)"
proof -
  have "length (sent_keys full s) + sum_list (map length (sent_keys full s)) \<le> 1457"
    using fits by (simp add: request_text_len_def GETS_LEN_def)
  then obtain payload s1 where fill: "fill_request full s = Inr (payload, s1)"
    using fill_request_returns [OF group(1,3)] sent_keys_def [of full s] by (metis surj_pair)
  note eff = fill_request_effect [OF fill group(1,2)]
  from eff obtain a n t ks where s1: "s1 = s\<lparr>ukey := a, ukey_len := n, total_ukey_size := t, keys_sent := ks\<rparr>"
    by blast
  let ?s2 = "log_event (Refcnt (memcached_pkt s) 1) (s1\<lparr>outstanding_req := outstanding_req s1 + 1,
     keys_rcvd := (keys_rcvd s1)(unat (request_id s1) := 0)\<rparr>)"
  have len: "length payload \<le> 1462"
    using eff fits by (simp add: length_spaced request_text_len_def GETS_LEN_def)
  have "server_ready ?s2 mac" using ready by (subst server_ready_other [of _ s]) (simp_all add: s1 log_event_def)
  moreover have mp: "memcached_pkt ?s2 = memcached_pkt s" by (simp add: s1 log_event_def)
  ultimately obtain s3 where s3:
    "app_send e (memcached_pkt s) 34 payload (request_id s) (ip_str_to_int TARGET_IP) True ?s2 = Inr s3"
    "calls (trace s3) = calls (trace s) @ [Refcnt (memcached_pkt s) 1,
       Tx (memcached_pkt s) (request_frame e mac (request_id s) (sent_keys full s))]" "server_ready s3 mac"
    "known_haddrs s3 = known_haddrs s" "\<forall>a. a \<noteq> memcached_pkt s \<longrightarrow> mbufs s3 a = mbufs s a"
    using app_send_request [OF env _ len, of ?s2 mac "request_id s"] eff
    by (auto simp: s1 log_event_def request_frame_def)
  from net_only_app_send [OF s3(1)] obtain M u where s3e: "s3 = ?s2\<lparr>mbufs := M, trace := u\<rparr>"
    by (auto simp: net_only_def)
  let ?s4 = "(log_event Clock (s3\<lparr>request_id := word_of_nat ((unat (request_id s3) + 1) mod MAX_REQ_ID)\<rparr>))
       \<lparr>last_send_clock := clock_now e (trace s3)\<rparr>"
  have ne: "ukey_len s \<noteq> 0" using group(2) by (auto simp: ukeys_def)
  have run: "construct_pkt_and_send_to_server e full s = Inr ?s4"
    using s3(1) ne mp server_ready_headers [OF ready]
    by (simp add: construct_pkt_and_send_to_server_def fill Let_def clock_def s1 log_event_def)
  have "after_send s1 ?s4"
    unfolding after_send_def by (rule exI [of _ M], rule exI [of _ "u @ [Clock]"],
        rule exI [of _ "clock_now e u"]) (simp add: s3e log_event_def)
  then have "group_inv ?s4" using eff after_send_inv by blast
  moreover have "server_ready ?s4 mac"
    using s3(3) by (subst server_ready_other [of _ s3]) (simp_all add: log_event_def)
  moreover have "ukeys ?s4 = ukeys s1" by (simp add: ukeys_def s3e log_event_def)
  then have "ukeys ?s4 = kept_keys full s" using eff by simp
  moreover have "calls (trace ?s4) = calls (trace s3)" by (simp add: log_event_def)
  moreover have "mbufs ?s4 = mbufs s3" "known_haddrs ?s4 = known_haddrs s3" by (simp_all add: log_event_def)
  ultimately show ?thesis
    unfolding run using eff s3(2,4,5) by (intro exI [of _ ?s4]) (simp add: s3e log_event_def s1)
qed

section \<open>A reply from memcached\<close>

text \<open>A reply in a buffer: 42 bytes of headers, the memcached header, the text, what follows it.\<close>

definition reply_at ::
  "'z net_state_scheme \<Rightarrow> u64 \<Rightarrow> u16 \<Rightarrow> u16 \<Rightarrow> u16 \<Rightarrow> byte list \<Rightarrow> byte list \<Rightarrow> byte list \<Rightarrow> bool" where
  "reply_at s m rid seq dgrams rsv text z \<longleftrightarrow>
     (\<exists>b q. mbufs s m = Some b \<and>
        mb_data b = q @ to_be16 rid @ to_be16 seq @ to_be16 dgrams @ rsv @ text @ z \<and>
        length q = 42 \<and> rd_be16 38 q = Inr (word_of_nat (length text + 16))) \<and>
     length rsv = 2 \<and> 2 \<le> length text \<and> length text \<le> 1464"

definition reply_body :: "u16 \<Rightarrow> u16 \<Rightarrow> byte list \<Rightarrow> byte list \<Rightarrow> byte list" where
  "reply_body seq dgrams rsv text = to_be16 seq @ to_be16 dgrams @ rsv @ text"

lemma reply_at_packet:
  assumes "reply_at s m rid seq dgrams rsv text z" "mbufs t m = mbufs s m"
  shows "reply_packet t m (length text + 8) (reply_body seq dgrams rsv text)"
proof -
  obtain b q where "mbufs t m = Some b" "length q = 42" "rd_be16 38 q = Inr (word_of_nat (length text + 16))"
    "mb_data b = q @ to_be16 rid @ reply_body seq dgrams rsv text @ z"
    using assms by (auto simp: reply_at_def reply_body_def)
  moreover have "length (reply_body seq dgrams rsv text) + 2 = length text + 8" "length text + 8 \<le> 1472"
    using assms(1) by (simp_all add: reply_at_def reply_body_def)
  moreover have "length (to_be16 rid) = 2" "length text + 8 + 8 = length text + 16" by simp_all
  ultimately show ?thesis unfolding reply_packet_def by metis
qed

text \<open>What follows the look-up of the waiting clients.\<close>

definition deliver ::
  "('h, 'e) app_env_scheme \<Rightarrow> u64 \<Rightarrow> u16 \<Rightarrow> u16 \<Rightarrow> u16 \<Rightarrow> (nat \<times> u64) option \<times> 'h app_state
     \<Rightarrow> 'h app_state res" where
  "deliver e m rid seq dgrams r =
     (case r of
        (None, s) \<Rightarrow> Inr (log_event (Free m) s)
      | (Some (position, head), s) \<Rightarrow>
          bindr (steer_loop e (chain_fuel e) m 34 head s) (\<lambda>s.
          bindr (count_reply e rid seq (log_event (Free m) s)) (\<lambda>s.
          finish_reply e position head dgrams (s\<lparr>last_seq_id := seq\<rparr>))))"

lemma app_server_in_reads:
  assumes "reply_at s m rid seq dgrams rsv text z"
  shows "app_server_in e m 34 s =
     bindr (strip_key_value (text @ z) (word_of_nat (length text - 2))) (\<lambda>st.
     bindr (reply_position e rid dgrams st s) (deliver e m rid seq dgrams))"
proof -
  let ?n = "length text"
  obtain b q where b: "mbufs s m = Some b" "length q = 42" "length rsv = 2" "2 \<le> ?n" "?n \<le> 1464"
    "rd_be16 38 q = Inr (word_of_nat (?n + 16))"
    "mb_data b = q @ to_be16 rid @ to_be16 seq @ to_be16 dgrams @ rsv @ text @ z"
    using assms by (auto simp: reply_at_def)
  have dl: "rd_be16 38 (mb_data b) = Inr (word_of_nat (?n + 16))"
    using b(2,6) by (simp add: b(7) rd_be16_def rd_append_left)
  have fields: "rd_be16 42 (mb_data b) = Inr rid" "rd_be16 44 (mb_data b) = Inr seq"
    "rd_be16 46 (mb_data b) = Inr dgrams" "drop 50 (mb_data b) = text @ z"
    using b(2,3) by (simp_all add: b(7) rd_be16_def rd_append_right rd_def)
  have "ucast (word_of_nat (?n + 16) :: u16) = (word_of_nat (?n + 16) :: u32)"
    using b(5) by (intro ucast_len) simp
  then have len: "ucast (word_of_nat (?n + 16) :: u16) - 8 = (word_of_nat (?n + 8) :: u32)" by simp
  have "unat (word_of_nat (?n + 8) :: u32) = ?n + 8"
    using b(5) by (simp only: unat_of_nat) simp
  then have small: "\<not> UDP_MAX_LEN < unat (word_of_nat (?n + 8) :: u32)"
    using b(5) by (simp only: UDP_MAX_LEN_def)
  have msg: "ucast (word_of_nat (?n + 8) :: u32) - 2 - 6 - 2 = (word_of_nat (?n - 2) :: u16)"
  proof -
    have "ucast (word_of_nat (?n + 8) :: u32) = (word_of_nat (?n + 8) :: u16)"
      using u16_of_u32_len [of ?n] b(5) by (simp add: add.commute)
    moreover have "word_of_nat (?n - 2 + 10) = (word_of_nat (?n - 2) + 10 :: u16)" by simp
    moreover have "?n - 2 + 10 = ?n + 8" using b(4) by simp
    ultimately show ?thesis by simp
  qed
  have dl': "rd_be16 (34 + 4) (mb_data b) = Inr (word_of_nat (?n + 16))" using dl by simp
  have offs: "(34 :: nat) + 8 = 42" "(42 :: nat) + 2 = 44" "(44 :: nat) + 6 = 50" by simp_all
  have rcv: "init_rcv_app_payload m 34 s = Inr (Some \<lparr>ap_req_id = 42, ap_hdr = 44, ap_payload = 50,
      ap_msg_len = word_of_nat (?n - 2), ap_tail = Some (50 + unat (word_of_nat (?n - 2) :: u16)),
      ap_total_len = ucast (word_of_nat (?n + 8) :: u32)\<rparr>)"
    unfolding init_rcv_app_payload_def get_data_frame [OF b(1)]
    by (simp only: dl' len msg small offs Let_def bindr_Inr if_False)
  have deliver: "(\<lambda>(found, s). case found of
           None \<Rightarrow> Inr (log_event (Free m) s)
         | Some (position, head) \<Rightarrow>
             bindr (steer_loop e (chain_fuel e) m 34 head s) (\<lambda>s.
             let s = log_event (Free m) s
             in bindr (count_reply e rid seq s) (\<lambda>s.
                finish_reply e position head dgrams (s\<lparr>last_seq_id := seq\<rparr>)))) = deliver e m rid seq dgrams"
    by (auto simp: deliver_def Let_def fun_eq_iff split: option.splits prod.splits)
  show ?thesis
    unfolding app_server_in_def rcv
    by (simp add: extract_info_def get_data_frame [OF b(1)] fields deliver del: One_nat_def)
qed

text \<open>The key a first reply packet names.\<close>

definition key_text :: "byte list \<Rightarrow> bool" where
  "key_text key \<longleftrightarrow> key \<noteq> [] \<and> 32 \<notin> set key \<and> 0 \<notin> set key \<and> length key < MAX_KEY_LENGTH"

lemma strip_value_line:
  assumes "text = str ''VALUE '' @ key @ 32 # r" "key_text key" "2 \<le> length r" "length text \<le> 1464"
  shows "strip_key_value (text @ z) (word_of_nat (length text - 2)) = Inr (True, Some key)"
proof (rule strip_key_value_at)
  have "occurs (str ''VALUE'') ([] @ str ''VALUE'' @ 32 # cstr (key @ 32 # r @ z))" by (rule occurs_append)
  then show "occurs (str ''VALUE'') (cstr (text @ z))" by (simp add: assms(1))
  have "unat (word_of_nat (length text - 2) :: u16) = length text - 2"
    using assms(4) by (intro unat_small_u16) simp
  then show "6 + length key \<le> unat (word_of_nat (length text - 2) :: u16)"
    using assms(1,3) by simp
  show "drop 6 (text @ z) = key @ 32 # (r @ z)" by (simp add: assms(1))
qed (use assms(2) in \<open>auto simp: key_text_def\<close>)

text \<open>Counting a reply when no keys are waiting sends nothing.\<close>

lemma count_reply_idle:
  assumes "ukey_len s = 0" "unat rid < MAX_REQ_ID"
  shows "\<exists>r n. count_reply e rid seq s = Inr (s\<lparr>keys_rcvd := r, outstanding_req := n\<rparr>)"
proof -
  have "\<exists>r n. s\<lparr>keys_rcvd := a\<rparr> = s\<lparr>keys_rcvd := r, outstanding_req := n\<rparr>" for a
    by (rule exI [of _ a], rule exI [of _ "outstanding_req s"]) simp
  moreover have "\<exists>r n. s = s\<lparr>keys_rcvd := r, outstanding_req := n\<rparr>"
    by (rule exI [of _ "keys_rcvd s"], rule exI [of _ "outstanding_req s"]) simp
  ultimately show ?thesis
    using assms by (auto simp: count_reply_def Let_def construct_pkt_and_send_to_server_def)
qed

lemma deliver_frames:
  assumes env: "unformat_ok e" "tx_live e" and reply: "reply_at s m rid seq dgrams rsv text z"
    and t: "mbufs t = mbufs s" "ukey_len t = 0"
    and ws: "chain t head ws" "\<forall>w \<in> set ws. fst w \<noteq> m" "length ws \<le> chain_fuel e"
    and bounds: "pos < MAP_ENTRIES" "unat rid < MAX_REQ_ID"
  shows "\<exists>s'. deliver e m rid seq dgrams (Some (pos, head), t) = Inr s' \<and>
     calls (trace s') = calls (trace t) @ reply_frames e m (reply_body seq dgrams rsv text) ws @ [Free m] @
       (if pkt_counts t pos < dgrams then [] else [Free head]) \<and>
     client_pkts s' = (if pkt_counts t pos < dgrams then client_pkts t
                       else hash_del_key e (client_pkts t) (key_hold t)) \<and>
     pkt_counts s' = (if pkt_counts t pos < dgrams then (pkt_counts t)(pos := pkt_counts t pos + 1)
                      else pkt_counts t) \<and>
     last_seq_id s' = seq \<and> ukey_len s' = 0 \<and> known_haddrs s' = known_haddrs t \<and>
     (\<forall>a. a \<noteq> m \<longrightarrow> mbufs s' a = mbufs t a)"
proof -
  have "reply_packet t m (length text + 8) (reply_body seq dgrams rsv text)"
    by (rule reply_at_packet [OF reply]) (simp add: t(1))
  from steer_loop_chain [OF env ws(1,2) this ws(3)] obtain s2 where
    s2: "steer_loop e (chain_fuel e) m 34 head t = Inr s2"
      "calls (trace s2) = calls (trace t) @ reply_frames e m (reply_body seq dgrams rsv text) ws"
      "\<forall>a. a \<noteq> m \<longrightarrow> mbufs s2 a = mbufs t a"
    by blast
  from net_only_steer [OF s2(1)] obtain M u where u: "s2 = t\<lparr>mbufs := M, trace := u\<rparr>"
    by (auto simp: net_only_def)
  have "ukey_len (log_event (Free m) s2) = 0" by (simp add: u log_event_def t(2))
  from count_reply_idle [OF this bounds(2)] obtain r n where
    "count_reply e rid seq (log_event (Free m) s2) = Inr ((log_event (Free m) s2)\<lparr>keys_rcvd := r, outstanding_req := n\<rparr>)"
    by blast
  then show ?thesis
    using s2 bounds(1) t(2) by (simp add: deliver_def finish_reply_def u log_event_def)
qed

end
