(* ===== verification/Clients.thy ===== *)
theory Clients
  imports Steering
begin

text \<open>
  The table of waiting clients and the queue of \<open>MAP_ENTRIES\<close> signatures that bounds it
  (\<open>client_pkts\<close>, \<open>LRU_queue\<close>, \<open>LRU_ptr\<close>): registering a packet never fails, and
  every signature in the table has a place in the queue, in every state the main loop reaches.
\<close>

section \<open>The invariant of the queue\<close>

definition lru_inv :: "('h, 'e) app_env_scheme \<Rightarrow> 'h app_state \<Rightarrow> bool" where
  "lru_inv e s \<longleftrightarrow>
     hash_keys e (client_pkts s) \<subseteq> LRU_queue s ` {..<MAP_ENTRIES} \<and> LRU_ptr s < MAP_ENTRIES"

lemma lru_card:
  assumes "lru_inv e s"
  shows "card (hash_keys e (client_pkts s)) \<le> MAP_ENTRIES"
proof -
  have "card (hash_keys e (client_pkts s)) \<le> card (LRU_queue s ` {..<MAP_ENTRIES})"
    using assms by (intro card_mono) (simp_all add: lru_inv_def)
  also have "\<dots> \<le> card {..<MAP_ENTRIES}" by (rule card_image_le) simp
  finally show ?thesis by simp
qed

lemma hash_keys_del:
  assumes "hash_ok e"
  shows "hash_keys e (hash_del_key e h k) = hash_keys e h - {k}"
proof (rule set_eqI)
  fix x show "x \<in> hash_keys e (hash_del_key e h k) \<longleftrightarrow> x \<in> hash_keys e h - {k}"
    using hash_del_same [OF assms, of h k] hash_del_other [OF assms, of x k h]
    by (cases "x = k") (simp_all add: hash_keys_def)
qed

lemma hash_keys_add:
  assumes "hash_ok e"
  shows "hash_keys e (hash_add_key_data e h k d) \<subseteq> insert k (hash_keys e h)"
proof
  fix x assume "x \<in> hash_keys e (hash_add_key_data e h k d)"
  then show "x \<in> insert k (hash_keys e h)"
    using hash_add_other [OF assms, of x k h d] by (cases "x = k") (simp_all add: hash_keys_def)
qed

definition same_table :: "'h app_state \<Rightarrow> 'h app_state \<Rightarrow> bool" where
  "same_table s s' \<longleftrightarrow>
     client_pkts s' = client_pkts s \<and> LRU_queue s' = LRU_queue s \<and> LRU_ptr s' = LRU_ptr s"

lemma same_table_refl [simp]: "same_table s s"
  by (simp add: same_table_def)

lemma same_table_trans: "same_table s t \<Longrightarrow> same_table t u \<Longrightarrow> same_table s u"
  by (simp add: same_table_def)

lemma same_table_lru: "same_table s s' \<Longrightarrow> lru_inv e s' = lru_inv e s"
  by (simp add: same_table_def lru_inv_def)

lemma same_table_net: "net_only s s' \<Longrightarrow> same_table s s'"
  by (auto simp: net_only_def same_table_def)

lemma same_table_log [simp]: "same_table s (log_event ev s)"
  by (simp add: same_table_net)

section \<open>Registering a client\<close>

lemma drop_oldest_lookup:
  assumes "hash_ok e" "lru_inv e s"
  shows "\<exists>t h. drop_oldest e s = Inr (s\<lparr>trace := t, client_pkts := h,
       LRU_queue := (LRU_queue s)(LRU_ptr s := key_hold s), LRU_ptr := (LRU_ptr s + 1) mod MAP_ENTRIES\<rparr>) \<and>
     hash_keys e h = hash_keys e (client_pkts s) - {LRU_queue s (LRU_ptr s)} \<and>
     (\<forall>k. k \<noteq> LRU_queue s (LRU_ptr s) \<longrightarrow> hash_lookup_data e h k = hash_lookup_data e (client_pkts s) k) \<and>
     t = trace s @ (case hash_lookup_data e (client_pkts s) (LRU_queue s (LRU_ptr s)) of
                      None \<Rightarrow> [] | Some (pos, buf) \<Rightarrow> [Free buf])"
proof -
  let ?old = "LRU_queue s (LRU_ptr s)"
  have ptr: "LRU_ptr s < MAP_ENTRIES" using assms(2) by (simp add: lru_inv_def)
  show ?thesis
  proof (cases "hash_lookup_data e (client_pkts s) ?old")
    case None
    then have "?old \<notin> hash_keys e (client_pkts s)" by (simp add: hash_keys_def)
    with None ptr show ?thesis
      by (intro exI [of _ "trace s"] exI [of _ "client_pkts s"]) (simp add: drop_oldest_def)
  next
    case (Some x)
    obtain pos buf where x: "x = (pos, buf)" by (cases x)
    with Some ptr show ?thesis
      using hash_del_other [OF assms(1)]
      by (intro exI [of _ "trace s @ [Free buf]"] exI [of _ "hash_del_key e (client_pkts s) ?old"])
        (simp add: drop_oldest_def log_event_def hash_keys_del [OF assms(1)])
  qed
qed

text \<open>Once the oldest place is given away, a new signature always has room.\<close>

lemma drop_oldest_room:
  assumes inv: "lru_inv e s" and new: "key_hold s \<notin> hash_keys e (client_pkts s)"
  shows "card (hash_keys e (client_pkts s) - {LRU_queue s (LRU_ptr s)}) < MAP_ENTRIES"
proof -
  let ?others = "LRU_queue s ` ({..<MAP_ENTRIES} - {LRU_ptr s})"
  have "hash_keys e (client_pkts s) - {LRU_queue s (LRU_ptr s)} \<subseteq> ?others"
    using inv by (auto simp: lru_inv_def)
  then have "card (hash_keys e (client_pkts s) - {LRU_queue s (LRU_ptr s)}) \<le> card ?others"
    by (intro card_mono) simp_all
  also have "\<dots> \<le> card ({..<MAP_ENTRIES} - {LRU_ptr s})" by (rule card_image_le) simp
  also have "\<dots> < MAP_ENTRIES" using inv by (simp add: lru_inv_def card_Diff_singleton)
  finally show ?thesis .
qed

lemma register_new:
  assumes ok: "hash_ok e" and inv: "lru_inv e s"
    and new: "hash_lookup_data e (client_pkts s) (key_hold s) = None"
  shows "\<exists>t h slot. register_client e c s = Inr (s\<lparr>trace := t, client_pkts := h,
       LRU_queue := (LRU_queue s)(LRU_ptr s := key_hold s), LRU_ptr := (LRU_ptr s + 1) mod MAP_ENTRIES,
       pkt_counts := (pkt_counts s)(slot := 1)\<rparr>) \<and>
     slot < MAP_ENTRIES \<and> hash_lookup_data e h (key_hold s) = Some (slot, c) \<and>
     (\<forall>k. k \<noteq> key_hold s \<longrightarrow> hash_lookup_data e h k =
        (if k = LRU_queue s (LRU_ptr s) then None else hash_lookup_data e (client_pkts s) k)) \<and>
     t = trace s @ (case hash_lookup_data e (client_pkts s) (LRU_queue s (LRU_ptr s)) of
                      None \<Rightarrow> [] | Some (pos, buf) \<Rightarrow> [Free buf])"
proof -
  obtain t h where d: "drop_oldest e s = Inr (s\<lparr>trace := t, client_pkts := h,
       LRU_queue := (LRU_queue s)(LRU_ptr s := key_hold s), LRU_ptr := (LRU_ptr s + 1) mod MAP_ENTRIES\<rparr>)"
    and h: "hash_keys e h = hash_keys e (client_pkts s) - {LRU_queue s (LRU_ptr s)}"
      "\<forall>k. k \<noteq> LRU_queue s (LRU_ptr s) \<longrightarrow> hash_lookup_data e h k = hash_lookup_data e (client_pkts s) k"
    and t: "t = trace s @ (case hash_lookup_data e (client_pkts s) (LRU_queue s (LRU_ptr s)) of
                      None \<Rightarrow> [] | Some (pos, buf) \<Rightarrow> [Free buf])"
    using drop_oldest_lookup [OF ok inv] by blast
  have old: "hash_lookup_data e h (LRU_queue s (LRU_ptr s)) = None"
    using h(1) by (auto simp: hash_keys_def)
  have "card (hash_keys e h) < MAP_ENTRIES"
    unfolding h(1) by (rule drop_oldest_room [OF inv]) (simp add: hash_keys_def new)
  then obtain slot where slot: "hash_lookup_data e (hash_add_key_data e h (key_hold s) c) (key_hold s) = Some (slot, c)"
    using hash_add_same [OF ok] by blast
  moreover have "slot < MAP_ENTRIES" by (rule hash_pos [OF ok slot])
  ultimately show ?thesis
    using h(2) old t hash_add_other [OF ok]
    by (intro exI [of _ t] exI [of _ "hash_add_key_data e h (key_hold s) c"] exI [of _ slot])
      (simp add: register_client_def new d slot_of_def)
qed

lemma register_known:
  assumes ok: "hash_ok e"
    and known: "hash_lookup_data e (client_pkts s) (key_hold s) = Some (pos, first)"
    and c: "mbufs s c = Some b"
  shows "\<exists>h slot. register_client e c s = Inr (s\<lparr>client_pkts := h,
       mbufs := (mbufs s)(c := Some (b\<lparr>mb_next := first\<rparr>)), pkt_counts := (pkt_counts s)(slot := 1)\<rparr>) \<and>
     slot < MAP_ENTRIES \<and> hash_lookup_data e h (key_hold s) = Some (slot, c) \<and>
     (\<forall>k. k \<noteq> key_hold s \<longrightarrow> hash_lookup_data e h k = hash_lookup_data e (client_pkts s) k)"
proof -
  have "key_hold s \<in> hash_keys e (client_pkts s)" by (simp add: hash_keys_def known)
  then obtain slot where slot:
    "hash_lookup_data e (hash_add_key_data e (client_pkts s) (key_hold s) c) (key_hold s) = Some (slot, c)"
    using hash_add_same [OF ok] by blast
  moreover have "slot < MAP_ENTRIES" by (rule hash_pos [OF ok slot])
  ultimately show ?thesis
    using c hash_add_other [OF ok]
    by (intro exI [of _ "hash_add_key_data e (client_pkts s) (key_hold s) c"] exI [of _ slot])
      (simp add: register_client_def known slot_of_def mbuf_at_def set_mbuf_def)
qed

lemma drop_oldest_lru:
  assumes "hash_ok e" "lru_inv e s" "drop_oldest e s = Inr s'"
  shows "lru_inv e s' \<and> key_hold s' \<in> LRU_queue s' ` {..<MAP_ENTRIES}"
proof -
  obtain t h where s': "s' = s\<lparr>trace := t, client_pkts := h,
       LRU_queue := (LRU_queue s)(LRU_ptr s := key_hold s), LRU_ptr := (LRU_ptr s + 1) mod MAP_ENTRIES\<rparr>"
    and h: "hash_keys e h = hash_keys e (client_pkts s) - {LRU_queue s (LRU_ptr s)}"
    using drop_oldest_lookup [OF assms(1,2)] assms(3) by auto
  have ptr: "LRU_ptr s < MAP_ENTRIES" using assms(2) by (simp add: lru_inv_def)
  have "k \<in> (LRU_queue s)(LRU_ptr s := key_hold s) ` {..<MAP_ENTRIES}" if k: "k \<in> hash_keys e h" for k
  proof -
    obtain i where i: "i < MAP_ENTRIES" "k = LRU_queue s i"
      using k h assms(2) by (auto simp: lru_inv_def)
    moreover have "i \<noteq> LRU_ptr s" using k h i(2) by auto
    ultimately show ?thesis by (intro image_eqI [of _ _ i]) simp_all
  qed
  then have "lru_inv e s'"
    by (auto simp: s' lru_inv_def MAP_ENTRIES_def)
  moreover have "key_hold s' \<in> LRU_queue s' ` {..<MAP_ENTRIES}"
    using ptr by (intro image_eqI [of _ _ "LRU_ptr s"]) (simp_all add: s')
  ultimately show ?thesis ..
qed

lemma register_client_lru:
  assumes ok: "hash_ok e" and inv: "lru_inv e s" and run: "register_client e c s = Inr s'"
  shows "lru_inv e s'"
proof -
  have sub: "hash_keys e (hash_add_key_data e (client_pkts t) (key_hold t) c) \<subseteq> LRU_queue t ` {..<MAP_ENTRIES}"
    if "lru_inv e t" "key_hold t \<in> LRU_queue t ` {..<MAP_ENTRIES}" for t
    using that hash_keys_add [OF ok] by (fastforce simp: lru_inv_def)
  show ?thesis
  proof (cases "hash_lookup_data e (client_pkts s) (key_hold s)")
    case None
    with run obtain t slot where t: "drop_oldest e s = Inr t"
      "s' = t\<lparr>client_pkts := hash_add_key_data e (client_pkts t) (key_hold t) c, pkt_counts := (pkt_counts t)(slot := 1)\<rparr>"
      by (auto simp: register_client_def bindr_eq_Inr Let_def)
    with drop_oldest_lru [OF ok inv t(1)] sub [of t] show ?thesis by (simp add: lru_inv_def)
  next
    case (Some x)
    obtain pos first where x: "x = (pos, first)" by (cases x)
    have "key_hold s \<in> hash_keys e (client_pkts s)" by (simp add: hash_keys_def Some)
    then have held: "key_hold s \<in> LRU_queue s ` {..<MAP_ENTRIES}" using inv by (auto simp: lru_inv_def)
    obtain M slot where "s' = s\<lparr>client_pkts := hash_add_key_data e (client_pkts s) (key_hold s) c,
        mbufs := M, pkt_counts := (pkt_counts s)(slot := 1)\<rparr>"
      using run Some x by (auto simp: register_client_def bindr_eq_Inr Let_def set_mbuf_def)
    with sub [OF inv held] inv show ?thesis by (simp add: lru_inv_def)
  qed
qed

section \<open>The queue in every reachable state\<close>

lemma same_table_construct: "construct_pkt_and_send_to_server e full s = Inr s' \<Longrightarrow> same_table s s'"
proof (cases "ukey_len s = 0")
  case False
  assume "construct_pkt_and_send_to_server e full s = Inr s'"
  from construct_pkt_effect [OF this False] obtain payload s1 where
    "fill_request full s = Inr (payload, s1)" "after_send s1 s'" by blast
  then have "same_table s s1" "same_table s1 s'"
    by (auto simp: fill_request_def bindr_eq_Inr Let_def same_table_def after_send_def split: if_splits)
  then show ?thesis by (rule same_table_trans)
qed (simp add: construct_pkt_and_send_to_server_def)

lemma construct_lru:
  "construct_pkt_and_send_to_server e full s = Inr s' \<Longrightarrow> lru_inv e s \<Longrightarrow> lru_inv e s'"
  using same_table_lru [OF same_table_construct] by blast

lemma same_table_insert: "insert_ukey_group k s = Inr s' \<Longrightarrow> same_table s s'"
  by (auto simp: insert_ukey_group_def bindr_eq_Inr same_table_def split: if_splits)

lemma client_key_lru:
  assumes ok: "hash_ok e" and inv: "lru_inv e s" and run: "client_key e m i k s = Inr s'"
  shows "lru_inv e s'"
proof -
  let ?copy = "\<lambda>M. if 0 < i then pktmbuf_copy e Small_mbuf_pool m M else (m, M)"
  obtain s1 sig where ins: "insert_ukey_group k s = Inr s1" and
    "bindr (register_client e (fst (?copy (mbufs s1)))
        (s1\<lparr>key_hold := sig, mbufs := snd (?copy (mbufs s1))\<rparr>))
      (\<lambda>s. if group_full s then construct_pkt_and_send_to_server e True s else Inr s) = Inr s'"
    using run by (auto simp: client_key_def bindr_eq_Inr Let_def case_prod_beta cong: if_cong)
  then obtain c M s2 where reg: "register_client e c (s1\<lparr>key_hold := sig, mbufs := M\<rparr>) = Inr s2"
    and fin: "(if group_full s2 then construct_pkt_and_send_to_server e True s2 else Inr s2) = Inr s'"
    unfolding bindr_eq_Inr by blast
  have "lru_inv e (s1\<lparr>key_hold := sig, mbufs := M\<rparr>)"
    using inv same_table_insert [OF ins] by (simp add: same_table_def lru_inv_def)
  then have "lru_inv e s2" by (rule register_client_lru [OF ok _ reg])
  then show ?thesis
    using fin by (auto split: if_splits intro: construct_lru)
qed

lemma client_keys_lru:
  "hash_ok e \<Longrightarrow> client_keys e m i ks s = Inr s' \<Longrightarrow> lru_inv e s \<Longrightarrow> lru_inv e s'"
  by (induction ks arbitrary: i s) (auto simp: bindr_eq_Inr dest: client_key_lru)

lemma lru_log [simp]: "lru_inv e (log_event ev s) = lru_inv e s"
  by (simp add: same_table_lru)

lemma app_client_in_lru:
  assumes "hash_ok e" "app_client_in e m udph a s = Inr s'" "lru_inv e s"
  shows "lru_inv e s'"
proof -
  have "lru_inv e (init_memcached_pkt e m s)"
    using assms(3) by (auto simp: init_memcached_pkt_def lru_inv_def split: prod.splits)
  then show ?thesis
    using assms(2,3)
    by (auto simp: app_client_in_def bindr_eq_Inr Let_def split: option.splits if_splits
        dest!: client_keys_lru [OF assms(1)] intro: construct_lru)
qed

lemma same_table_reply_position: "reply_position e r x k s = Inr (f, s') \<Longrightarrow> same_table s s'"
  by (auto simp: reply_position_def bindr_eq_Inr Let_def same_table_def
      split: bool.splits option.splits prod.splits)

lemma same_table_count_reply:
  assumes "count_reply e r q s = Inr s'"
  shows "same_table s s'"
proof -
  have "same_table s t" if "construct_pkt_and_send_to_server e False (s\<lparr>keys_rcvd := a, outstanding_req := b\<rparr>) = Inr t" for a b t
    using same_table_construct [OF that] by (simp add: same_table_def)
  then show ?thesis
    using assms by (auto simp: count_reply_def bindr_eq_Inr Let_def same_table_def split: if_splits)
qed

lemma finish_reply_lru:
  "hash_ok e \<Longrightarrow> finish_reply e p h x s = Inr s' \<Longrightarrow> lru_inv e s \<Longrightarrow> lru_inv e s'"
  by (auto simp: finish_reply_def bindr_eq_Inr log_event_def lru_inv_def hash_keys_del split: if_splits)

lemma app_server_in_lru:
  assumes "hash_ok e" "app_server_in e m udph s = Inr s'" "lru_inv e s"
  shows "lru_inv e s'"
  using assms(2)
proof (cases rule: app_server_in_cases)
  case dropped
  with assms(3) show ?thesis by simp
next
  case (unknown r x st s1)
  with assms(3) same_table_lru [OF same_table_reply_position [OF unknown(1)], of e] show ?thesis by simp
next
  case (steered r x st pos hd s1 s2 q s3)
  have "same_table s s1" "same_table s1 s2" "same_table (log_event (Free m) s2) s3"
    using same_table_reply_position [OF steered(1)] same_table_net [OF net_only_steer [OF steered(2)]]
      same_table_count_reply [OF steered(3)] by simp_all
  then have "lru_inv e s3"
    using assms(3) same_table_lru [of s s1 e] same_table_lru [of s1 s2 e]
      same_table_lru [of "log_event (Free m) s2" s3 e] by simp
  then have "lru_inv e (s3\<lparr>last_seq_id := q\<rparr>)" by (simp add: lru_inv_def)
  then show ?thesis by (rule finish_reply_lru [OF assms(1) steered(4)])
qed

lemma refresh_backlog_lru: "refresh_backlog e s = Inr s' \<Longrightarrow> lru_inv e s \<Longrightarrow> lru_inv e s'"
proof -
  have "same_table s (start_clock e s)" "same_table s (log_event Clock (start_clock e s))"
    "same_table s (reset_counts (log_event Clock (start_clock e s)))"
    by (simp_all add: same_table_def start_clock_def reset_counts_def log_event_def)
  note clocks = this [THEN same_table_lru]
  assume "refresh_backlog e s = Inr s'" "lru_inv e s"
  then show ?thesis
    by (auto simp: refresh_backlog_eq Let_def clocks split: if_splits intro: construct_lru)
qed

lemma udp_in_lru: "hash_ok e \<Longrightarrow> udp_in e m iph udph s = Inr s' \<Longrightarrow> lru_inv e s \<Longrightarrow> lru_inv e s'"
  by (auto simp: udp_in_def bindr_eq_Inr split: if_splits dest: app_server_in_lru app_client_in_lru)

lemma ip_in_lru: "hash_ok e \<Longrightarrow> ip_in e m iph s = Inr s' \<Longrightarrow> lru_inv e s \<Longrightarrow> lru_inv e s'"
  by (auto simp: ip_in_def bindr_eq_Inr Let_def split: if_splits dest: udp_in_lru)

lemma eth_in_lru: "hash_ok e \<Longrightarrow> eth_in e m s = Inr s' \<Longrightarrow> lru_inv e s \<Longrightarrow> lru_inv e s'"
  using same_table_lru [OF same_table_net [OF net_only_arp_in], of e m 14 s s' e]
  by (auto simp: eth_in_def bindr_eq_Inr split: if_splits dest: ip_in_lru)

text \<open>The handlers keep the queue's invariant whenever the table is as documented.\<close>

interpretation rx_lru: handler_loop "\<lambda>m s. bindr (refresh_backlog e s) (eth_in e m)" "rx_loop e"
  "\<lambda>s. hash_ok e \<and> lru_inv e s" for e
proof unfold_locales
  show "rx_loop e (m # ms) s = bindr (bindr (refresh_backlog e s) (eth_in e m)) (rx_loop e ms)" for m ms s
    by (cases "refresh_backlog e s") simp_all
  show "bindr (refresh_backlog e s) (eth_in e m) = Inr s' \<Longrightarrow> hash_ok e \<and> lru_inv e s \<Longrightarrow>
      hash_ok e \<and> lru_inv e s'" for m s s'
    by (auto simp: bindr_eq_Inr dest: refresh_backlog_lru eth_in_lru)
qed simp

lemma poll_port_lru:
  assumes "hash_ok e" "poll_port e M bufs s = Inr s'" "lru_inv e s"
  shows "lru_inv e s'"
proof -
  obtain s1 where s1: "refresh_backlog e s = Inr s1" "rx_loop e (take BURST_SIZE bufs) (s1\<lparr>mbufs := M\<rparr>) = Inr s'"
    using assms(2) by (auto simp: poll_port_def bindr_eq_Inr)
  have "lru_inv e (s1\<lparr>mbufs := M\<rparr>)"
    using refresh_backlog_lru [OF s1(1) assms(3)] by (simp add: lru_inv_def)
  then show ?thesis using rx_lru.loop_keeps [OF _ s1(2)] assms(1) by blast
qed

lemma init_state_lru: "hash_ok e \<Longrightarrow> lru_inv e (init_state e M)"
  by (simp add: lru_inv_def init_state_def hash_keys_def hash_create_lookup MAP_ENTRIES_def)

lemma main_init_lru: "main_init e d lines M = Inr s \<Longrightarrow> hash_ok e \<Longrightarrow> lru_inv e s"
  using main_init_frame [of e d lines M s] init_state_lru [of e M] by (auto simp: lru_inv_def)

lemma lcore_main_lru: "lcore_main e s s' \<Longrightarrow> hash_ok e \<Longrightarrow> lru_inv e s \<Longrightarrow> lru_inv e s'"
  by (induction rule: lcore_main.induct) (auto dest: poll_port_lru)

end
