(* ===== verification/Behaviour.thy ===== *)
theory Behaviour
  imports Clients
begin

text \<open>
  What the middlebox does with a frame, a request, a reply and a timeout, as properties over
  whole handlers; the places where it does something else than intended.
\<close>

section \<open>Requests\<close>

text \<open>A client's \<open>gets\<close> packet: headers, id, the rest of the memcached header, the text.\<close>

definition request_at ::
  "'z net_state_scheme \<Rightarrow> u64 \<Rightarrow> u16 \<Rightarrow> byte list \<Rightarrow> byte list \<Rightarrow> bool" where
  "request_at s m rid text z \<longleftrightarrow>
     (\<exists>b q hdr. mbufs s m = Some b \<and> mb_data b = q @ to_be16 rid @ hdr @ text @ [13, 10] @ z \<and>
        length q = 42 \<and> length hdr = 6 \<and> rd_be16 38 q = Inr (word_of_nat (length text + 18))) \<and>
     length text \<le> 1462"

lemma message_length:
  assumes "k \<le> 1462"
  shows "unat (ucast (word_of_nat (k + 18) :: u16) - 8 :: u32) = k + 10"
    "ucast (ucast (word_of_nat (k + 18) :: u16) - 8 :: u32) - 2 - 6 - 2 = (word_of_nat k :: u16)"
proof -
  have "ucast (word_of_nat (k + 18) :: u16) = (word_of_nat (k + 18) :: u32)"
    using assms by (intro ucast_len) simp
  then have len: "ucast (word_of_nat (k + 18) :: u16) - 8 = (word_of_nat (k + 10) :: u32)" by simp
  show "unat (ucast (word_of_nat (k + 18) :: u16) - 8 :: u32) = k + 10"
    unfolding len using assms by (simp only: unat_of_nat) simp
  have "ucast (word_of_nat (k + 10) :: u32) = (word_of_nat (k + 10) :: u16)"
    using u16_of_u32_len [of "k + 2"] assms by (simp add: add.commute)
  then show "ucast (ucast (word_of_nat (k + 18) :: u16) - 8 :: u32) - 2 - 6 - 2 = (word_of_nat k :: u16)"
    unfolding len by simp
qed

lemma app_client_in_reads:
  assumes "request_at s m rid text z" and same: "mbufs (init_memcached_pkt e m s) m = mbufs s m"
  shows "app_client_in e m 34 a s =
     bindr (strip_keys (text @ [13, 10] @ z) (word_of_nat (length text))) (\<lambda>keys.
     bindr (client_keys e m 0 keys (init_memcached_pkt e m s)) (\<lambda>s.
     if unat (outstanding_req s) < MIN_OUTSTANDING_REQ
     then construct_pkt_and_send_to_server e False s else Inr s))"
proof -
  let ?n = "length text"
  obtain b q hdr where b: "mbufs s m = Some b" "length q = 42" "length hdr = 6"
    "rd_be16 38 q = Inr (word_of_nat (?n + 18))" "?n \<le> 1462"
    "mb_data b = q @ to_be16 rid @ hdr @ text @ [13, 10] @ z"
    using assms by (auto simp: request_at_def)
  have dl: "rd_be16 (34 + 4) (mb_data b) = Inr (word_of_nat (?n + 18))"
    using b(2,4) by (simp add: b(6) rd_be16_def rd_append_left)
  have small: "\<not> UDP_MAX_LEN < unat (ucast (word_of_nat (?n + 18) :: u16) - 8 :: u32)"
    unfolding message_length(1) [OF b(5)] UDP_MAX_LEN_def using b(5) by simp
  have offs: "(34 :: nat) + 8 = 42" "(42 :: nat) + 2 = 44" "(44 :: nat) + 6 = 50" by simp_all
  obtain t l where rcv: "init_rcv_app_payload m 34 s = Inr (Some \<lparr>ap_req_id = 42, ap_hdr = 44, ap_payload = 50,
      ap_msg_len = word_of_nat ?n, ap_tail = t, ap_total_len = l\<rparr>)"
    unfolding init_rcv_app_payload_def get_data_frame [OF b(1)]
    by (simp only: dl small message_length(2) [OF b(5)] offs Let_def bindr_Inr if_False)
  have body: "drop 50 (mb_data b) = text @ [13, 10] @ z" using b(2,3) by (simp add: b(6))
  have "mbufs (init_memcached_pkt e m s) m = Some b" using same b(1) by simp
  then show ?thesis
    unfolding app_client_in_def rcv by (simp add: get_data_frame body)
qed

text \<open>The effect of one key of a request that is new to the group and leaves it open.\<close>

lemma next_request_id:
  "unat r < MAX_REQ_ID \<Longrightarrow> word_of_nat ((unat r + 1) mod MAX_REQ_ID) \<noteq> (r :: u16)"
proof
  assume r: "unat r < MAX_REQ_ID" and eq: "word_of_nat ((unat r + 1) mod MAX_REQ_ID) = r"
  have "(unat r + 1) mod MAX_REQ_ID < 65536" by (simp add: MAX_REQ_ID_def)
  then have "unat (word_of_nat ((unat r + 1) mod MAX_REQ_ID) :: u16) = (unat r + 1) mod MAX_REQ_ID"
    by (simp add: unat_of_nat)
  then have "(unat r + 1) mod MAX_REQ_ID = unat r" using eq by simp
  then show False using r by (cases "unat r + 1 = MAX_REQ_ID") (simp_all add: MAX_REQ_ID_def)
qed

definition evicted :: "('h, 'e) app_env_scheme \<Rightarrow> 'h app_state \<Rightarrow> event list" where
  "evicted e s = (case hash_lookup_data e (client_pkts s) (LRU_queue s (LRU_ptr s)) of
                    None \<Rightarrow> [] | Some (pos, buf) \<Rightarrow> [Free buf])"

definition key_buffer :: "('h, 'e) app_env_scheme \<Rightarrow> nat \<Rightarrow> u64 \<Rightarrow> (u64 \<Rightarrow> mbuf option) \<Rightarrow> u64 \<times> (u64 \<Rightarrow> mbuf option)" where
  "key_buffer e i m M = (if 0 < i then pktmbuf_copy e Small_mbuf_pool m M else (m, M))"

lemma client_key_adds:
  assumes ok: "hash_ok e" and inv: "lru_inv e s" "group_inv s" and k: "key_ok k"
    and len: "length (signature (request_id s) k) < MAX_KEY_LENGTH"
    and new: "hash_lookup_data e (client_pkts s) (signature (request_id s) k) = None"
    and buf: "key_buffer e i m (mbufs s) = (c, M)"
  shows "\<exists>t slot. client_key e m i k s =
       (if group_full t then construct_pkt_and_send_to_server e True t else Inr t) \<and>
     (if k \<in> set (ukeys s) then group_inv t else group_pending t) \<and>
     ukeys t = (if k \<in> set (ukeys s) then ukeys s else ukeys s @ [k]) \<and> request_id t = request_id s \<and>
     calls (trace t) = calls (trace s) @ evicted e s \<and> slot < MAP_ENTRIES \<and> pkt_counts t slot = 1 \<and>
     hash_lookup_data e (client_pkts t) (signature (request_id s) k) = Some (slot, c) \<and>
     (\<forall>k'. k' \<noteq> signature (request_id s) k \<longrightarrow> hash_lookup_data e (client_pkts t) k' =
        (if k' = LRU_queue s (LRU_ptr s) then None else hash_lookup_data e (client_pkts s) k')) \<and>
     (\<forall>i. i \<noteq> slot \<longrightarrow> pkt_counts t i = pkt_counts s i) \<and>
     LRU_queue t = (LRU_queue s)(LRU_ptr s := signature (request_id s) k) \<and>
     LRU_ptr t = (LRU_ptr s + 1) mod MAP_ENTRIES \<and> lru_inv e t \<and>
     mbufs t = M \<and> known_haddrs t = known_haddrs s \<and> memcached_pkt t = memcached_pkt s \<and>
     outstanding_req t = outstanding_req s \<and> last_send_clock t = last_send_clock s"
proof -
  let ?sig = "signature (request_id s) k"
  obtain s1 a n u where ins: "insert_ukey_group k s = Inr s1"
    and s1: "s1 = s\<lparr>ukey := a, ukey_len := n, total_ukey_size := u\<rparr>"
      "ukeys s1 = (if k \<in> set (ukeys s) then ukeys s else ukeys s @ [k])"
      "if k \<in> set (ukeys s) then group_inv s1 else group_pending s1"
    using insert_ukey_group_ok [OF inv(2) k(1)] by auto
  let ?s2 = "s1\<lparr>key_hold := ?sig, mbufs := M\<rparr>"
  have s2: "lru_inv e ?s2" "hash_lookup_data e (client_pkts ?s2) (key_hold ?s2) = None"
    using inv(1) new by (simp_all add: s1(1) lru_inv_def)
  from register_new [OF ok this, of c] obtain t h slot where
    reg: "register_client e c ?s2 = Inr (?s2\<lparr>trace := t, client_pkts := h,
       LRU_queue := (LRU_queue ?s2)(LRU_ptr ?s2 := ?sig), LRU_ptr := (LRU_ptr ?s2 + 1) mod MAP_ENTRIES,
       pkt_counts := (pkt_counts ?s2)(slot := 1)\<rparr>)" (is "_ = Inr ?t")
    and slot: "slot < MAP_ENTRIES" "hash_lookup_data e h ?sig = Some (slot, c)"
      "\<forall>k. k \<noteq> ?sig \<longrightarrow> hash_lookup_data e h k =
        (if k = LRU_queue s (LRU_ptr s) then None else hash_lookup_data e (client_pkts s) k)"
      "t = trace s @ evicted e s"
    by (auto simp: s1(1) evicted_def)
  have id: "request_id s1 = request_id s" "mbufs s1 = mbufs s" by (simp_all add: s1(1))
  have run: "client_key e m i k s = (if group_full ?t then construct_pkt_and_send_to_server e True ?t else Inr ?t)"
  proof -
    have "client_key e m i k s = bindr (register_client e c ?s2)
        (\<lambda>s. if group_full s then construct_pkt_and_send_to_server e True s else Inr s)"
      using len buf by (cases i) (auto simp: client_key_def ins sprint_key_def key_buffer_def s1(1))
    with reg show ?thesis by simp
  qed
  have "lru_inv e ?t" by (rule register_client_lru [OF ok s2(1) reg])
  moreover have same: "same_group s1 ?t" by (simp add: same_group_def)
  moreover have "calls (evicted e s) = evicted e s" by (simp add: evicted_def split: option.splits prod.splits)
  moreover have "if k \<in> set (ukeys s) then group_inv ?t else group_pending ?t"
    using s1(3) same_group_transfer(2,3) [OF same] by (simp split: if_splits)
  ultimately show ?thesis
    using slot s1(2) same_group_ukeys [OF same] unfolding run
    by (intro exI [of _ ?t] exI [of _ slot]) (simp add: s1(1) cong: if_cong)
qed

lemma client_key_registers:
  assumes "hash_ok e" "lru_inv e s" "group_inv s" "key_ok k" "k \<notin> set (ukeys s)"
    and "length (signature (request_id s) k) < MAX_KEY_LENGTH"
    and "hash_lookup_data e (client_pkts s) (signature (request_id s) k) = None"
  shows "\<exists>t slot. client_key e m 0 k s =
       (if group_full t then construct_pkt_and_send_to_server e True t else Inr t) \<and>
     group_pending t \<and> ukeys t = ukeys s @ [k] \<and> request_id t = request_id s \<and>
     calls (trace t) = calls (trace s) @ evicted e s \<and> slot < MAP_ENTRIES \<and> pkt_counts t slot = 1 \<and>
     hash_lookup_data e (client_pkts t) (signature (request_id s) k) = Some (slot, m) \<and>
     (\<forall>k'. k' \<noteq> signature (request_id s) k \<longrightarrow> hash_lookup_data e (client_pkts t) k' =
        (if k' = LRU_queue s (LRU_ptr s) then None else hash_lookup_data e (client_pkts s) k')) \<and>
     mbufs t = mbufs s \<and> known_haddrs t = known_haddrs s \<and> memcached_pkt t = memcached_pkt s \<and>
     outstanding_req t = outstanding_req s"
proof -
  have "key_buffer e 0 m (mbufs s) = (m, mbufs s)" by (simp add: key_buffer_def)
  from client_key_adds [OF assms(1-4,6,7) this] assms(5) show ?thesis by auto
qed

section \<open>One request, end to end\<close>

lemma strip_single_key:
  assumes "key_text k" "length k \<le> 1400"
  shows "strip_keys ((str ''gets'' @ 32 # k) @ r) (word_of_nat (length (str ''gets'' @ 32 # k))) = Inr [k]"
proof -
  have "unat (word_of_nat (length (str ''gets'' @ 32 # k)) :: u16) = 4 + length (spaced [k])"
    using assms(2) unat_small_u16 [of "length (str ''gets'' @ 32 # k)"] by simp
  then show ?thesis
    using strip_keys_words [of "str ''gets''" k "[]" _ r] assms
    by (auto simp: key_text_def cstr_no_nul MAX_KEY_PER_PACKET_def)
qed

lemma signature_fits: "length k \<le> 1400 \<Longrightarrow> length (signature r k) < MAX_KEY_LENGTH"
proof -
  have "unat r < 65536" by (rule order.strict_trans2 [OF unsigned_less]) simp
  then have "length (dec (unat r)) \<le> 5" by (intro length_dec) simp_all
  then show "length k \<le> 1400 \<Longrightarrow> length (signature r k) < MAX_KEY_LENGTH"
    by (simp add: signature_def MAX_KEY_LENGTH_def)
qed

lemma request_forwarded:
  assumes env: "unformat_ok e" "tx_live e" "hash_ok e" and inv: "lru_inv e s" "group_inv s"
    and req: "request_at s m crid (str ''gets'' @ 32 # k) z" "key_text k" "length k \<le> 1400"
    and idle: "ukey_len s = 0" "unat (outstanding_req s) < MIN_OUTSTANDING_REQ"
    and mp: "memcached_pkt s \<noteq> 0" "m \<noteq> memcached_pkt s" "server_ready s mac"
    and new: "hash_lookup_data e (client_pkts s) (signature (request_id s) k) = None"
  shows "\<exists>s' slot. app_client_in e m 34 a s = Inr s' \<and>
     calls (trace s') = calls (trace s) @ evicted e s @ [Refcnt (memcached_pkt s) 1,
       Tx (memcached_pkt s) (request_frame e mac (request_id s) [k])] \<and>
     slot < MAP_ENTRIES \<and> pkt_counts s' slot = 1 \<and>
     hash_lookup_data e (client_pkts s') (signature (request_id s) k) = Some (slot, m) \<and>
     request_id s' = word_of_nat ((unat (request_id s) + 1) mod MAX_REQ_ID) \<and>
     outstanding_req s' = outstanding_req s + 1 \<and> ukey_len s' = 0 \<and> group_inv s' \<and>
     known_haddrs s' = known_haddrs s \<and> mbufs s' m = mbufs s m"
proof -
  have us: "ukeys s = []" using idle(1) by (simp add: ukeys_def)
  have init: "init_memcached_pkt e m s = s" using mp(1) by (simp add: init_memcached_pkt_def)
  have ok: "key_ok k" using req(2) by (simp add: key_text_def key_ok_def)
  obtain t slot where key: "client_key e m 0 k s =
       (if group_full t then construct_pkt_and_send_to_server e True t else Inr t)"
    and t: "group_pending t" "ukeys t = [k]" "request_id t = request_id s"
      "calls (trace t) = calls (trace s) @ evicted e s" "slot < MAP_ENTRIES" "pkt_counts t slot = 1"
      "hash_lookup_data e (client_pkts t) (signature (request_id s) k) = Some (slot, m)"
      "mbufs t = mbufs s" "known_haddrs t = known_haddrs s" "memcached_pkt t = memcached_pkt s"
      "outstanding_req t = outstanding_req s"
    using client_key_registers [OF env(3) inv ok _ signature_fits [OF req(3)] new, of m] us by auto
  have n: "unat (ukey_len t) = 1" using t(2) length_ukeys [of t] by (simp del: length_ukeys)
  have base: "group_base t" using t(1) by (simp add: group_pending_def)
  have open_: "\<not> group_full t"
    using group_full_iff [OF base] n t(2) req(3) by (simp add: GETS_LEN_def)
  have ready: "server_ready t mac" using mp(3) t by (subst server_ready_other [of t s]) simp_all
  have fits: "request_text_len (sent_keys False t) < MAX_PAYLOAD_LEN"
    using req(3) by (simp add: sent_keys_def t(2) request_text_len_def GETS_LEN_def)
  obtain s' where s': "construct_pkt_and_send_to_server e False t = Inr s'"
    "calls (trace s') = calls (trace t) @ [Refcnt (memcached_pkt t) 1,
       Tx (memcached_pkt t) (request_frame e mac (request_id t) (sent_keys False t))]"
    "ukeys s' = kept_keys False t" "group_inv s'"
    "request_id s' = word_of_nat ((unat (request_id t) + 1) mod MAX_REQ_ID)"
    "outstanding_req s' = outstanding_req t + 1" "client_pkts s' = client_pkts t"
    "pkt_counts s' = pkt_counts t" "known_haddrs s' = known_haddrs t"
    "\<forall>a. a \<noteq> memcached_pkt t \<longrightarrow> mbufs s' a = mbufs t a"
    using construct_sends [OF env(1,2) ready base _ _ fits] t(2) n by auto
  have "ukey_len s' = 0" using s'(3) length_ukeys [of s'] by (simp add: kept_keys_def unat_eq_0 del: length_ukeys)
  moreover have "app_client_in e m 34 a s = Inr s'"
    using app_client_in_reads [OF req(1), of e a] strip_single_key [OF req(2,3), of "[13, 10] @ z"]
      key open_ s'(1) t(11) idle(2)
    by (simp add: init)
  ultimately show ?thesis
    using s' t mp(2) by (intro exI [of _ s'] exI [of _ slot]) (simp add: sent_keys_def)
qed

text \<open>A client's \<open>gets key\<close> that arrives when no keys are waiting and memcached has
  room is merged into a group of one and sent on at once as one request frame under the current
  id; the client's packet is registered under that id and key, and the id advances.\<close>

theorem app_client_in_forwards:
  assumes "unformat_ok e" "tx_live e" "hash_ok e" "lru_inv e s" "group_inv s"
    and "request_at s m crid (str ''gets'' @ 32 # k) z" "key_text k" "length k \<le> 1400"
    and "ukey_len s = 0" "unat (outstanding_req s) < MIN_OUTSTANDING_REQ"
    and "memcached_pkt s \<noteq> 0" "m \<noteq> memcached_pkt s" "server_ready s mac"
    and "hash_lookup_data e (client_pkts s) (signature (request_id s) k) = None"
  shows "\<exists>s' slot. app_client_in e m 34 a s = Inr s' \<and>
     calls (trace s') = calls (trace s) @ evicted e s @ [Refcnt (memcached_pkt s) 1,
       Tx (memcached_pkt s) (request_frame e mac (request_id s) [k])] \<and>
     hash_lookup_data e (client_pkts s') (signature (request_id s) k) = Some (slot, m) \<and>
     request_id s' = word_of_nat ((unat (request_id s) + 1) mod MAX_REQ_ID) \<and>
     outstanding_req s' = outstanding_req s + 1 \<and> ukey_len s' = 0"
  using request_forwarded [OF assms, of a] by blast

lemma first_reply_delivered:
  assumes env: "unformat_ok e" "tx_live e" and reply: "reply_at s m rid seq dgrams rsv text z"
    and line: "text = str ''VALUE '' @ key @ 32 # r" "key_text key" "2 \<le> length r"
    and fits: "length (signature rid key) < MAX_KEY_LENGTH"
    and found: "hash_lookup_data e (client_pkts s) (signature rid key) = Some (pos, head)"
    and ws: "chain s head ws" "\<forall>w \<in> set ws. fst w \<noteq> m" "length ws \<le> chain_fuel e"
    and bounds: "pos < MAP_ENTRIES" "unat rid < MAX_REQ_ID" and idle: "ukey_len s = 0"
  shows "\<exists>s'. app_server_in e m 34 s = Inr s' \<and>
     calls (trace s') = calls (trace s) @ reply_frames e m (reply_body seq dgrams rsv text) ws @ [Free m] @
       (if pkt_counts s pos < dgrams then [] else [Free head]) \<and>
     client_pkts s' = (if pkt_counts s pos < dgrams then client_pkts s
                       else hash_del_key e (client_pkts s) (signature rid key)) \<and>
     pkt_counts s' = (if pkt_counts s pos < dgrams then (pkt_counts s)(pos := pkt_counts s pos + 1)
                      else pkt_counts s) \<and>
     ukey_len s' = 0 \<and> known_haddrs s' = known_haddrs s \<and> (\<forall>a. a \<noteq> m \<longrightarrow> mbufs s' a = mbufs s a)"
proof -
  have small: "length text \<le> 1464" using reply by (simp add: reply_at_def)
  define t where "t = (let s1 = s\<lparr>key_hold := signature rid key\<rparr>
    in if 1 < unat dgrams then s1\<lparr>last_key := key_hold s1\<rparr> else s1)"
  have t: "mbufs t = mbufs s" "ukey_len t = 0" "known_haddrs t = known_haddrs s" "trace t = trace s"
    "client_pkts t = client_pkts s" "pkt_counts t = pkt_counts s" "key_hold t = signature rid key"
    using idle by (simp_all add: t_def Let_def)
  have pos: "reply_position e rid dgrams (True, Some key) s = Inr (Some (pos, head), t)"
    using fits found by (simp add: reply_position_def sprint_key_def Let_def t_def)
  have "app_server_in e m 34 s = deliver e m rid seq dgrams (Some (pos, head), t)"
    using strip_value_line [OF line small, of z]
    by (simp add: app_server_in_reads [OF reply] pos)
  moreover have "chain t head ws"
    using ws(1) t by (subst chain_other [of ws t s]) simp_all
  ultimately show ?thesis
    using deliver_frames [OF env reply t(1,2) _ ws(2,3) bounds, of head] t by auto
qed

text \<open>The first packet of a reply goes to every client waiting for its id and key, in the
  order of the chain, each copy under that client's own request id and otherwise unchanged; the
  chain is then released exactly when the expected number of packets has been seen.\<close>

theorem app_server_in_delivers:
  assumes "unformat_ok e" "tx_live e" "reply_at s m rid seq dgrams rsv text z"
    and "text = str ''VALUE '' @ key @ 32 # r" "key_text key" "2 \<le> length r"
    and "length (signature rid key) < MAX_KEY_LENGTH"
    and "hash_lookup_data e (client_pkts s) (signature rid key) = Some (pos, head)"
    and "chain s head ws" "\<forall>w \<in> set ws. fst w \<noteq> m" "length ws \<le> chain_fuel e"
    and "pos < MAP_ENTRIES" "unat rid < MAX_REQ_ID" "ukey_len s = 0"
  shows "\<exists>s'. app_server_in e m 34 s = Inr s' \<and>
     calls (trace s') = calls (trace s) @ reply_frames e m (reply_body seq dgrams rsv text) ws @ [Free m] @
       (if pkt_counts s pos < dgrams then [] else [Free head]) \<and>
     client_pkts s' = (if pkt_counts s pos < dgrams then client_pkts s
                       else hash_del_key e (client_pkts s) (signature rid key))"
  using first_reply_delivered [OF assms] by blast

text \<open>A reply whose id and key nobody waits for is released and nothing is sent.\<close>

theorem app_server_in_unknown:
  assumes "reply_at s m rid seq dgrams rsv text z"
    and "text = str ''VALUE '' @ key @ 32 # r" "key_text key" "2 \<le> length r"
    and "length (signature rid key) < MAX_KEY_LENGTH"
    and "hash_lookup_data e (client_pkts s) (signature rid key) = None"
  shows "\<exists>s'. app_server_in e m 34 s = Inr s' \<and> trace s' = trace s @ [Free m] \<and>
     client_pkts s' = client_pkts s \<and> keys_rcvd s' = keys_rcvd s \<and>
     outstanding_req s' = outstanding_req s"
proof -
  have "length text \<le> 1464" using assms(1) by (simp add: reply_at_def)
  then show ?thesis
    using strip_value_line [OF assms(2-4), of z] assms(5,6)
    by (simp add: app_server_in_reads [OF assms(1)] reply_position_def sprint_key_def Let_def
        deliver_def log_event_def)
qed

text \<open>C24: the last continuation packet of a reply (no key in it, so it belongs to
  \<open>last_key\<close>) that arrives after another signature was formed releases the chain of its
  clients and removes that other signature: the released chain can still be found.\<close>

theorem app_server_in_dangling_chain:
  assumes env: "unformat_ok e" "tx_live e" "hash_ok e" and reply: "reply_at s m rid seq dgrams rsv text z"
    and line: "\<not> occurs (str ''VALUE'') (cstr (text @ z))" "0 \<in> set (text @ z)"
    and found: "hash_lookup_data e (client_pkts s) (last_key s) = Some (pos, head)"
    and ws: "chain s head ws" "\<forall>w \<in> set ws. fst w \<noteq> m" "length ws \<le> chain_fuel e"
    and rid: "unat rid < MAX_REQ_ID" and idle: "ukey_len s = 0"
    and done_: "dgrams \<le> pkt_counts s pos" and other: "key_hold s \<noteq> last_key s"
  shows "\<exists>s'. app_server_in e m 34 s = Inr s' \<and>
     calls (trace s') = calls (trace s) @ reply_frames e m (reply_body seq dgrams rsv text) ws @
       [Free m, Free head] \<and>
     hash_lookup_data e (client_pkts s') (last_key s) = Some (pos, head) \<and>
     hash_lookup_data e (client_pkts s') (key_hold s) = None"
proof -
  have pos: "pos < MAP_ENTRIES" by (rule hash_pos [OF env(3) found])
  have strip: "strip_key_value (text @ z) (word_of_nat (length text - 2)) = Inr (False, None)"
    using line by (simp add: strip_key_value_def strstr_def)
  have "app_server_in e m 34 s = deliver e m rid seq dgrams (Some (pos, head), s)"
    using strip found by (simp add: app_server_in_reads [OF reply] reply_position_def)
  then show ?thesis
    using deliver_frames [OF env(1,2) reply refl idle ws pos rid] found done_ other
      hash_del_other [OF env(3), of "last_key s" "key_hold s" "client_pkts s"]
      hash_del_same [OF env(3), of "client_pkts s" "key_hold s"]
    by auto
qed

text \<open>C4: a request and its reply, end to end: after a client's \<open>gets key\<close> was merged
  and sent to memcached, a one-packet reply under the id it was sent with comes back to that
  client, addressed to it, under the id the client chose; then the reply and the client's packet
  are released and the client is no longer registered.\<close>

theorem request_reply_roundtrip:
  assumes env: "unformat_ok e" "tx_live e" "hash_ok e" "1 \<le> chain_fuel e"
    and inv: "lru_inv e s" "group_inv s"
    and req: "request_at s m crid (str ''gets'' @ 32 # k) z" "key_text k" "length k \<le> 1400"
    and client: "waiting s m b crid csrc cmac" "mb_next b = 0"
    and idle: "ukey_len s = 0" "unat (outstanding_req s) < MIN_OUTSTANDING_REQ"
    and mp: "memcached_pkt s \<noteq> 0" "m \<noteq> memcached_pkt s" "server_ready s mac"
    and new: "hash_lookup_data e (client_pkts s) (signature (request_id s) k) = None"
    and run: "app_client_in e m 34 a s = Inr s1" and t: "t = s1\<lparr>mbufs := (mbufs s1)(m' := Some rb)\<rparr>"
    and reply: "m' \<noteq> m" "reply_at t m' (request_id s) seq 1 rsv text z'"
      "text = str ''VALUE '' @ k @ 32 # r" "2 \<le> length r"
  shows "\<exists>s2. app_server_in e m' 34 t = Inr s2 \<and>
     calls (trace s2) = calls (trace s1) @ [Refcnt m' 1,
       Tx m' (udp_frame e cmac csrc (to_be16 crid @ reply_body seq 1 rsv text)), Free m', Free m] \<and>
     hash_lookup_data e (client_pkts s2) (signature (request_id s) k) = None"
proof -
  obtain slot where s1: "slot < MAP_ENTRIES" "pkt_counts s1 slot = 1" "ukey_len s1 = 0"
    "hash_lookup_data e (client_pkts s1) (signature (request_id s) k) = Some (slot, m)"
    "known_haddrs s1 = known_haddrs s" "mbufs s1 m = mbufs s m"
    using request_forwarded [OF env(1-3) inv req idle mp new, of a] unfolding run sum.inject by blast
  have "waiting t m b crid csrc cmac"
    using client(1) reply(1) s1(5,6) by (subst waiting_other [of t m s]) (simp_all add: t)
  then have ch: "chain t m [(m, crid, csrc, cmac)]" using client(2) by auto
  have found: "hash_lookup_data e (client_pkts t) (signature (request_id s) k) = Some (slot, m)"
    and rest: "ukey_len t = 0" "trace t = trace s1" "\<not> pkt_counts t slot < 1"
    using s1 by (simp_all add: t)
  have rid: "unat (request_id s) < MAX_REQ_ID" using inv(2) by (simp add: group_inv_def group_base_def)
  have "\<forall>w \<in> set [(m, crid, csrc, cmac)]. fst w \<noteq> m'" "length [(m, crid, csrc, cmac)] \<le> chain_fuel e"
    using reply(1) env(4) by simp_all
  from first_reply_delivered [OF env(1,2) reply(2,3) req(2) reply(4) signature_fits [OF req(3)] found ch
      this s1(1) rid rest(1)]
  obtain s2 where s2: "app_server_in e m' 34 t = Inr s2"
    "calls (trace s2) = calls (trace s1) @
       reply_frames e m' (reply_body seq 1 rsv text) [(m, crid, csrc, cmac)] @ [Free m'] @ [Free m]"
    "client_pkts s2 = hash_del_key e (client_pkts t) (signature (request_id s) k)"
    unfolding if_not_P [OF rest(3)] rest(2) by blast
  show ?thesis
    by (rule exI [of _ s2]) (simp add: s2 reply_frames_def hash_del_same [OF env(3)])
qed

section \<open>A group that fills up\<close>

text \<open>C16: a group's request is built and sent, all keys or all but the last, exactly as the
  keys fit: one frame to memcached under the current id, the id advances, the counters of the
  request are set, and what is kept is the group again.\<close>

theorem construct_pkt_sends_group:
  assumes "unformat_ok e" "tx_live e" "server_ready s mac"
    and "group_base s" "ukeys s \<noteq> []" "unat (ukey_len s) \<le> 600"
    and "request_text_len (sent_keys full s) < MAX_PAYLOAD_LEN"
  shows "\<exists>s'. construct_pkt_and_send_to_server e full s = Inr s' \<and>
     calls (trace s') = calls (trace s) @ [Refcnt (memcached_pkt s) 1,
       Tx (memcached_pkt s) (request_frame e mac (request_id s) (sent_keys full s))] \<and>
     ukeys s' = kept_keys full s \<and> group_inv s' \<and>
     request_id s' = word_of_nat ((unat (request_id s) + 1) mod MAX_REQ_ID) \<and>
     outstanding_req s' = outstanding_req s + 1 \<and>
     keys_sent s' = (keys_sent s)(unat (request_id s) := word_of_nat (length (sent_keys full s))) \<and>
     keys_rcvd s' = (keys_rcvd s)(unat (request_id s) := 0)"
  using construct_sends [OF assms] by blast

text \<open>C25: a request of exactly \<open>MAX_PAYLOAD_LEN\<close> bytes, which the test for a full group
  lets through, does not fit the array it is built in: its NUL is written past the end.\<close>

theorem construct_pkt_overruns_payload:
  assumes "server_ready s mac" "group_base s" "ukeys s \<noteq> []" "unat (ukey_len s) \<le> 600"
    and "request_text_len (ukeys s) = MAX_PAYLOAD_LEN"
  shows "\<not> group_full s \<and> construct_pkt_and_send_to_server e False s = Inl Out_of_bounds"
proof
  show "\<not> group_full s"
    using group_full_iff [OF assms(2,4)] assms(5) by (simp add: request_text_len_def)
  have "ukey_len s \<noteq> 0" using assms(3) by (auto simp: ukeys_def)
  moreover have "construct_keys_packet (map (ukey s) [0..<unat (ukey_len s)]) = Inl Out_of_bounds"
    using assms(5) by (simp add: construct_keys_packet_eq length_spaced request_text_len_def GETS_LEN_def
        ukeys_def [symmetric])
  ultimately show "construct_pkt_and_send_to_server e False s = Inl Out_of_bounds"
    using assms(4) server_ready_headers [OF assms(1)]
    by (simp add: construct_pkt_and_send_to_server_def fill_request_def MAP_ENTRIES_def)
qed

text \<open>C23: the key that fills a group up is registered under the id of the request that leaves
  without it; it is kept for the next request, under whose id nobody is registered for it, so
  the reply to it finds no client.\<close>

theorem carried_key_unregistered:
  assumes env: "unformat_ok e" "tx_live e" "hash_ok e" and inv: "lru_inv e s" "group_inv s"
    and k: "key_ok k" "k \<notin> set (ukeys s)" "length (signature (request_id s) k) < MAX_KEY_LENGTH"
    and full: "request_text_len (ukeys s) < MAX_PAYLOAD_LEN" "MAX_PAYLOAD_LEN < request_text_len (ukeys s @ [k])"
    and ready: "server_ready s mac" and nid: "nid = word_of_nat ((unat (request_id s) + 1) mod MAX_REQ_ID)"
    and new: "hash_lookup_data e (client_pkts s) (signature (request_id s) k) = None"
      "hash_lookup_data e (client_pkts s) (signature nid k) = None"
  shows "\<exists>s' slot. client_key e m 0 k s = Inr s' \<and>
     calls (trace s') = calls (trace s) @ evicted e s @ [Refcnt (memcached_pkt s) 1,
       Tx (memcached_pkt s) (request_frame e mac (request_id s) (ukeys s))] \<and>
     ukeys s' = [k] \<and> request_id s' = nid \<and>
     hash_lookup_data e (client_pkts s') (signature (request_id s) k) = Some (slot, m) \<and>
     hash_lookup_data e (client_pkts s') (signature nid k) = None"
proof -
  obtain t slot where key: "client_key e m 0 k s =
       (if group_full t then construct_pkt_and_send_to_server e True t else Inr t)"
    and t: "group_pending t" "ukeys t = ukeys s @ [k]" "request_id t = request_id s"
      "calls (trace t) = calls (trace s) @ evicted e s"
      "hash_lookup_data e (client_pkts t) (signature (request_id s) k) = Some (slot, m)"
      "mbufs t = mbufs s" "known_haddrs t = known_haddrs s" "memcached_pkt t = memcached_pkt s"
      "\<forall>k'. k' \<noteq> signature (request_id s) k \<longrightarrow> hash_lookup_data e (client_pkts t) k' =
        (if k' = LRU_queue s (LRU_ptr s) then None else hash_lookup_data e (client_pkts s) k')"
    using client_key_registers [OF env(3) inv k new(1), of m] by auto
  have base: "group_base t" and len: "unat (ukey_len t) \<le> 600"
    using t(1) group_pending_len [OF t(1)] by (simp_all add: group_pending_def)
  have "group_full t"
    using group_full_iff [OF base len] full(2) by (simp add: t(2) request_text_len_def del: length_ukeys)
  moreover have ready': "server_ready t mac" using ready t by (subst server_ready_other [of t s]) simp_all
  have keys: "sent_keys True t = ukeys s" "kept_keys True t = [k]" by (simp_all add: sent_keys_def kept_keys_def t(2))
  then have fits: "request_text_len (sent_keys True t) < MAX_PAYLOAD_LEN" using full(1) by simp
  obtain s' where s': "construct_pkt_and_send_to_server e True t = Inr s'"
    "calls (trace s') = calls (trace t) @ [Refcnt (memcached_pkt t) 1,
       Tx (memcached_pkt t) (request_frame e mac (request_id t) (sent_keys True t))]"
    "ukeys s' = kept_keys True t" "client_pkts s' = client_pkts t"
    "request_id s' = word_of_nat ((unat (request_id t) + 1) mod MAX_REQ_ID)"
    using construct_sends [OF env(1,2) ready' base _ len fits] t(2) by auto
  have "unat (request_id s) < MAX_REQ_ID" using inv(2) by (simp add: group_inv_def group_base_def)
  then have "nid \<noteq> request_id s" unfolding nid by (rule next_request_id)
  then have "signature nid k \<noteq> signature (request_id s) k" using signature_inj by blast
  then have "hash_lookup_data e (client_pkts t) (signature nid k) = None" using t(9) new(2) by simp
  then show ?thesis
    using key \<open>group_full t\<close> s' t(3,4,5,8) keys by (intro exI [of _ s'] exI [of _ slot]) (simp add: nid)
qed

section \<open>Dispatch of a frame\<close>

text \<open>The fields of an IPv4 frame the dispatch looks at; the destination as stored.\<close>

definition ipv4_frame ::
  "'z net_state_scheme \<Rightarrow> u64 \<Rightarrow> byte \<Rightarrow> byte \<Rightarrow> u32 \<Rightarrow> u32 \<Rightarrow> u16 \<Rightarrow> bool" where
  "ipv4_frame s m ihl proto src raw_dst port \<longleftrightarrow>
     (\<exists>b. mbufs s m = Some b \<and> rd_be16 12 (mb_data b) = Inr ETHER_TYPE_IPV4 \<and>
        rd_le32 30 (mb_data b) = Inr raw_dst \<and> rd 14 1 (mb_data b) = Inr [ihl] \<and>
        rd 23 1 (mb_data b) = Inr [proto] \<and> rd_be32 26 (mb_data b) = Inr src \<and>
        rd_be16 (14 + unat (ihl AND 0x0f) * 4 + 2) (mb_data b) = Inr port)"

lemma eth_in_ipv4:
  assumes "ipv4_frame s m ihl proto src raw_dst port"
  shows "eth_in e m s =
     (if (raw_dst = of_le (to_be32 get_local_ip) \<or> ip_is_multicast raw_dst) \<and> proto = IPPROTO_UDP \<and>
         arp_lookup_mac s src \<noteq> None \<and> port = LOCAL_PORT
      then if src = ip_str_to_int TARGET_IP
           then app_server_in e m (14 + unat (ihl AND 0x0f) * 4) s
           else app_client_in e m (14 + unat (ihl AND 0x0f) * 4) src s
      else Inr (log_event (Free m) s))"
proof -
  have "ETHER_TYPE_IPV4 \<noteq> ETHER_TYPE_ARP" by (simp add: ETHER_TYPE_IPV4_def ETHER_TYPE_ARP_def)
  then show ?thesis
    using assms udp_not_tcp
    by (auto simp: ipv4_frame_def eth_in_def ip_in_def udp_in_def get_data_frame)
qed

text \<open>C17: an IPv4 frame reaches the server handler or the client handler exactly when it is UDP
  to the middlebox (or a multicast group) and port 8080 from an address in the ARP table; the
  sender's address alone decides which; every other frame is released and nothing else happens.\<close>

theorem eth_in_dispatch:
  assumes "ipv4_frame s m ihl proto src raw_dst port"
  shows "eth_in e m s =
     (if (raw_dst = of_le (to_be32 get_local_ip) \<or> ip_is_multicast raw_dst) \<and> proto = IPPROTO_UDP \<and>
         arp_lookup_mac s src \<noteq> None \<and> port = LOCAL_PORT
      then if src = ip_str_to_int TARGET_IP
           then app_server_in e m (14 + unat (ihl AND 0x0f) * 4) s
           else app_client_in e m (14 + unat (ihl AND 0x0f) * 4) src s
      else Inr (log_event (Free m) s))"
  by (rule eth_in_ipv4 [OF assms])

text \<open>A frame that is neither ARP nor IPv4 changes nothing: it is not even released.\<close>

theorem eth_in_leaks_unknown:
  assumes "mbufs s m = Some b" "rd_be16 12 (mb_data b) = Inr ty"
    and "ty \<noteq> ETHER_TYPE_ARP" "ty \<noteq> ETHER_TYPE_IPV4"
  shows "eth_in e m s = Inr s"
  using assms by (simp add: eth_in_def get_data_frame)

section \<open>Timeouts\<close>

text \<open>With no keys waiting, or before 100 ms have passed since the last request, a refresh
  reads the clock at most: no call is made and the group and the counters stay.\<close>

theorem refresh_backlog_waits:
  assumes "ukey_len s = 0 \<or>
     \<not> elapsed TIMEOUT (clock_now e (trace (start_clock e s)) - last_send_clock (start_clock e s))"
  shows "\<exists>s'. refresh_backlog e s = Inr s' \<and> calls (trace s') = calls (trace s) \<and>
     ukeys s' = ukeys s \<and> keys_rcvd s' = keys_rcvd s \<and> outstanding_req s' = outstanding_req s \<and>
     request_id s' = request_id s \<and> client_pkts s' = client_pkts s"
  using assms by (auto simp: refresh_backlog_eq Let_def start_clock_def log_event_def ukeys_def)

lemma backlog_flushed:
  assumes "unformat_ok e" "tx_live e" "server_ready s mac" "group_inv s" "ukeys s \<noteq> []"
    and "request_text_len (ukeys s) < MAX_PAYLOAD_LEN"
    and "elapsed TIMEOUT (clock_now e (trace (start_clock e s)) - last_send_clock (start_clock e s))"
  shows "\<exists>s'. refresh_backlog e s = Inr s' \<and>
     calls (trace s') = calls (trace s) @ [Refcnt (memcached_pkt s) 1,
       Tx (memcached_pkt s) (request_frame e mac (request_id s) (ukeys s))] \<and>
     ukeys s' = [] \<and> outstanding_req s' = 1 \<and> keys_rcvd s' (unat (request_id s)) = 0 \<and>
     (\<forall>i < MAX_REQ_ID. i \<noteq> unat (request_id s) \<longrightarrow> keys_rcvd s' i = - 1) \<and>
     client_pkts s' = client_pkts s \<and> pkt_counts s' = pkt_counts s \<and> known_haddrs s' = known_haddrs s \<and>
     (\<forall>a. a \<noteq> memcached_pkt s \<longrightarrow> mbufs s' a = mbufs s a)"
proof -
  let ?t = "reset_counts (log_event Clock (start_clock e s))"
  have same: "same_group s ?t" by (rule same_group_clocks(3))
  note ks = same_group_ukeys [OF same]
  have t: "mbufs ?t = mbufs s" "known_haddrs ?t = known_haddrs s" "memcached_pkt ?t = memcached_pkt s"
    "request_id ?t = request_id s" "ukey_len ?t = ukey_len s" "calls (trace ?t) = calls (trace s)"
    "outstanding_req ?t = 0" "\<forall>i < MAX_REQ_ID. keys_rcvd ?t i = - 1" "client_pkts ?t = client_pkts s" "pkt_counts ?t = pkt_counts s"
    by (simp_all add: reset_counts_def start_clock_def log_event_def)
  have "server_ready ?t mac" using assms(3) t by (subst server_ready_other [of ?t s]) simp_all
  moreover have "group_base ?t" "unat (ukey_len ?t) \<le> 600"
    using assms(4) group_inv_len [OF assms(4)] same_group_transfer(1) [OF same] t(5)
    by (simp_all add: group_inv_def)
  moreover have "request_text_len (sent_keys False ?t) < MAX_PAYLOAD_LEN"
    using assms(6) by (simp add: sent_keys_def ks)
  ultimately obtain s' where s': "construct_pkt_and_send_to_server e False ?t = Inr s'"
    "calls (trace s') = calls (trace ?t) @ [Refcnt (memcached_pkt ?t) 1,
       Tx (memcached_pkt ?t) (request_frame e mac (request_id ?t) (sent_keys False ?t))]"
    "ukeys s' = kept_keys False ?t" "outstanding_req s' = outstanding_req ?t + 1"
    "keys_rcvd s' = (keys_rcvd ?t)(unat (request_id ?t) := 0)" "client_pkts s' = client_pkts ?t" "pkt_counts s' = pkt_counts ?t"
    "known_haddrs s' = known_haddrs ?t" "\<forall>a. a \<noteq> memcached_pkt ?t \<longrightarrow> mbufs s' a = mbufs ?t a"
    using construct_sends [OF assms(1,2), of ?t mac False] assms(5) ks by auto
  have ne: "ukey_len s \<noteq> 0" using assms(5) by (auto simp: ukeys_def)
  have "refresh_backlog e s = Inr s'"
    using assms(7) ne s'(1) by (simp add: refresh_backlog_eq Let_def)
  then show ?thesis
    using s' t ks by (intro exI [of _ s']) (simp add: sent_keys_def kept_keys_def)
qed

text \<open>Once 100 ms have passed, the waiting keys are sent as they are; that request is then
  the only one counted as outstanding and replies to all earlier ones no longer count.\<close>

theorem refresh_backlog_flushes:
  assumes "unformat_ok e" "tx_live e" "server_ready s mac" "group_inv s" "ukeys s \<noteq> []"
    and "request_text_len (ukeys s) < MAX_PAYLOAD_LEN"
    and "elapsed TIMEOUT (clock_now e (trace (start_clock e s)) - last_send_clock (start_clock e s))"
  shows "\<exists>s'. refresh_backlog e s = Inr s' \<and>
     calls (trace s') = calls (trace s) @ [Refcnt (memcached_pkt s) 1,
       Tx (memcached_pkt s) (request_frame e mac (request_id s) (ukeys s))] \<and>
     ukeys s' = [] \<and> outstanding_req s' = 1 \<and> keys_rcvd s' (unat (request_id s)) = 0 \<and>
     (\<forall>i < MAX_REQ_ID. i \<noteq> unat (request_id s) \<longrightarrow> keys_rcvd s' i = - 1)"
  using backlog_flushed [OF assms] by blast

section \<open>The whole run\<close>

text \<open>C10: in every state the main loop reaches from start-up, whatever packets arrive: the
  waiting keys are distinct, their number is at most 571 (the array has 600 places), the running
  total is their length, and the request made of them is at most 1462 bytes long.\<close>

theorem lcore_main_group:
  assumes "main_init e d lines M = Inr s0" "lcore_main e s0 s"
  shows "distinct (ukeys s) \<and> unat (ukey_len s) \<le> 571 \<and>
     unat (total_ukey_size s) = sum_list (map length (ukeys s)) \<and>
     request_text_len (ukeys s) \<le> MAX_PAYLOAD_LEN \<and> unat (request_id s) < MAX_REQ_ID"
proof -
  have inv: "group_inv s" using lcore_main_inv [OF assms(2) main_init_group [OF assms(1)]] .
  then show ?thesis
    using group_inv_len [OF inv]
    by (simp add: group_inv_def group_base_def request_text_len_def)
qed

text \<open>C11: with a hash table as documented, in every state the main loop reaches from start-up
  the table of clients holds at most 600 signatures and each has a place in the queue that
  evicts the oldest.\<close>

theorem lcore_main_clients:
  assumes "hash_ok e" "main_init e d lines M = Inr s0" "lcore_main e s0 s"
  shows "card (hash_keys e (client_pkts s)) \<le> MAP_ENTRIES \<and>
     hash_keys e (client_pkts s) \<subseteq> LRU_queue s ` {..<MAP_ENTRIES} \<and> LRU_ptr s < MAP_ENTRIES"
proof -
  have inv: "lru_inv e s" by (rule lcore_main_lru [OF assms(3,1) main_init_lru [OF assms(2,1)]])
  then show ?thesis using lru_card [OF inv] by (simp add: lru_inv_def)
qed

text \<open>Registering a packet under a signature nobody waits for always succeeds: the packet
  is found under it, its reply counter starts at one, and the only other change to the table is
  that the client whose place in the queue was taken is gone and released.\<close>

theorem register_client_new:
  assumes "hash_ok e" "lru_inv e s" "hash_lookup_data e (client_pkts s) (key_hold s) = None"
  shows "\<exists>s' slot. register_client e c s = Inr s' \<and> lru_inv e s' \<and>
     slot < MAP_ENTRIES \<and> pkt_counts s' slot = 1 \<and> trace s' = trace s @ evicted e s \<and>
     hash_lookup_data e (client_pkts s') (key_hold s) = Some (slot, c) \<and>
     (\<forall>k. k \<noteq> key_hold s \<longrightarrow> hash_lookup_data e (client_pkts s') k =
        (if k = LRU_queue s (LRU_ptr s) then None else hash_lookup_data e (client_pkts s) k))"
proof -
  obtain t h slot where reg: "register_client e c s = Inr (s\<lparr>trace := t, client_pkts := h,
       LRU_queue := (LRU_queue s)(LRU_ptr s := key_hold s), LRU_ptr := (LRU_ptr s + 1) mod MAP_ENTRIES,
       pkt_counts := (pkt_counts s)(slot := 1)\<rparr>)" (is "_ = Inr ?s")
    and slot: "slot < MAP_ENTRIES" "hash_lookup_data e h (key_hold s) = Some (slot, c)"
     "\<forall>k. k \<noteq> key_hold s \<longrightarrow> hash_lookup_data e h k =
        (if k = LRU_queue s (LRU_ptr s) then None else hash_lookup_data e (client_pkts s) k)"
     "t = trace s @ evicted e s"
    using register_new [OF assms, of c] by (auto simp: evicted_def)
  have "lru_inv e ?s" by (rule register_client_lru [OF assms(1,2) reg])
  with reg slot show ?thesis by (intro exI [of _ ?s] exI [of _ slot]) simp
qed

text \<open>Registering a packet under a signature clients already wait for puts it at the head
  of their chain and leaves every other signature and the queue alone.\<close>

theorem register_client_chains:
  assumes "hash_ok e" "hash_lookup_data e (client_pkts s) (key_hold s) = Some (pos, head)"
    and "mbufs s c = Some b" "c \<noteq> 0" "chain s head ws" "\<forall>w \<in> set ws. fst w \<noteq> c"
    and "waiting s c b rid src mac"
  shows "\<exists>s' slot. register_client e c s = Inr s' \<and>
     hash_lookup_data e (client_pkts s') (key_hold s) = Some (slot, c) \<and>
     chain s' c ((c, rid, src, mac) # ws) \<and> trace s' = trace s \<and> LRU_queue s' = LRU_queue s \<and>
     (\<forall>k. k \<noteq> key_hold s \<longrightarrow> hash_lookup_data e (client_pkts s') k = hash_lookup_data e (client_pkts s) k)"
proof -
  obtain h slot where reg: "register_client e c s = Inr (s\<lparr>client_pkts := h,
       mbufs := (mbufs s)(c := Some (b\<lparr>mb_next := head\<rparr>)), pkt_counts := (pkt_counts s)(slot := 1)\<rparr>)"
      (is "_ = Inr ?s")
    and slot: "hash_lookup_data e h (key_hold s) = Some (slot, c)"
      "\<forall>k. k \<noteq> key_hold s \<longrightarrow> hash_lookup_data e h k = hash_lookup_data e (client_pkts s) k"
    using register_known [OF assms(1-3)] by auto
  have "waiting ?s c (b\<lparr>mb_next := head\<rparr>) rid src mac"
    using assms(7,3) by (simp add: waiting_def arp_lookup_mac_def)
  moreover have "chain ?s head ws" using assms(5,6) by (subst chain_other [of ws ?s s]) simp_all
  ultimately have "chain ?s c ((c, rid, src, mac) # ws)" by auto
  with reg slot show ?thesis by (intro exI [of _ ?s] exI [of _ slot]) simp
qed

text \<open>Inserting a key into a group in order adds it at the end if it is new and changes
  nothing if it is not; the running total follows.\<close>

theorem insert_ukey_group_set:
  assumes "group_inv s" "key_ok k"
  shows "\<exists>s'. insert_ukey_group k s = Inr s' \<and>
     ukeys s' = (if k \<in> set (ukeys s) then ukeys s else ukeys s @ [k]) \<and>
     unat (total_ukey_size s') = sum_list (map length (ukeys s'))"
  using insert_ukey_group_ok [OF assms]
  by (auto simp: group_inv_def group_pending_def group_base_def split: if_splits)

text \<open>C37: the test for a full group, made in unsigned machine arithmetic, is exact: it holds
  if and only if the text of the request would be longer than \<open>MAX_PAYLOAD_LEN\<close>.\<close>

theorem group_full_exact:
  assumes "group_base s" "unat (ukey_len s) \<le> 600"
  shows "group_full s \<longleftrightarrow> MAX_PAYLOAD_LEN < request_text_len (ukeys s)"
  using group_full_iff [OF assms] by (simp add: request_text_len_def)

text \<open>Signatures of different request ids or different keys never collide.\<close>

theorem signature_unique: "signature r k = signature r' k' \<longleftrightarrow> r = r' \<and> k = k'"
  using signature_inj by blast

text \<open>A packet of memcached that contains the text \<open>VALUE\<close> anywhere is taken as the
  first packet of a reply, and what follows its sixth byte as the key: a continuation packet of a
  value with that text in it is looked up under a word of the value.\<close>

theorem strip_key_value_anywhere:
  assumes "occurs (str ''VALUE'') (cstr mem)" "drop 6 mem = word @ 32 # r" "key_text word"
    and "6 + length word \<le> unat n"
  shows "strip_key_value mem n = Inr (True, Some word)"
  using assms strip_key_value_at by (auto simp: key_text_def)

section \<open>Start-up\<close>

text \<open>start-up succeeds exactly when every device call of every port and both pools
  succeed, the address file is there and has a space in every line.\<close>

theorem main_init_succeeds:
  "(\<exists>s. main_init e d lines M = Inr s) \<longleftrightarrow>
     0 \<le> eal_init d \<and> mbuf_pool_ok d \<and> small_mbuf_pool_ok d \<and>
     list_all (\<lambda>p. port_init d p = 0) (dev_ports d) \<and> (\<exists>ls. lines = Some ls \<and> list_all (\<lambda>l. 32 \<in> set l) ls)"
proof -
  have split: "(\<exists>r. split_arp_line l = Inr r) \<longleftrightarrow> 32 \<in> set l" for l
  proof -
    have "length (takeWhile (\<lambda>c. c \<noteq> 32) l) = length l \<longleftrightarrow> 32 \<notin> set l"
      by (induction l) auto
    then show ?thesis by (auto simp: split_arp_line_def Let_def)
  qed
  have load: "(\<exists>s'. load_arp_lines e ls s = Inr s') \<longleftrightarrow> (\<forall>l \<in> set ls. 32 \<in> set l)" for ls and s :: "'a app_state"
  proof (induction ls arbitrary: s)
    case (Cons l ls)
    have "(\<exists>s'. load_arp_lines e (l # ls) s = Inr s') \<longleftrightarrow>
        (\<exists>r. split_arp_line l = Inr r) \<and> (\<forall>l \<in> set ls. 32 \<in> set l)"
      using Cons.IH by (cases "split_arp_line l") (auto split: prod.splits)
    then show ?case unfolding split by simp
  qed simp
  show "(\<exists>s. main_init e d lines M = Inr s) \<longleftrightarrow>
     0 \<le> eal_init d \<and> mbuf_pool_ok d \<and> small_mbuf_pool_ok d \<and>
     list_all (\<lambda>p. port_init d p = 0) (dev_ports d) \<and> (\<exists>ls. lines = Some ls \<and> list_all (\<lambda>l. 32 \<in> set l) ls)"
    using load by (auto simp: main_init_def bindr_eq_Inr init_arp_table_def list_all_iff split: option.splits)
qed

text \<open>A port is initialised exactly when it is valid and each of its seven device calls
  returns success; otherwise the result is not zero.\<close>

theorem port_init_succeeds:
  "port_init d port = 0 \<longleftrightarrow>
     is_valid_port d port \<and> fst (dev_info_get d port) = 0 \<and>
     dev_configure d port 1 1 (snd (dev_info_get d port)) = 0 \<and>
     fst (adjust_nb_rx_tx_desc d port 1024 1024) = 0 \<and>
     0 \<le> rx_queue_setup d port 0 (fst (snd (adjust_nb_rx_tx_desc d port 1024 1024))) \<and>
     0 \<le> tx_queue_setup d port 0 (snd (snd (adjust_nb_rx_tx_desc d port 1024 1024))) (snd (dev_info_get d port)) \<and>
     0 \<le> dev_start d port \<and> macaddr_get d port = 0"
  by (auto simp: port_init_def RX_RING_SIZE_def TX_RING_SIZE_def Let_def split: prod.splits)

end
