(* ===== verification/Reference_Env.thy ===== *)
theory Reference_Env
  imports Middlebox
begin

text \<open>
  A concrete instance of everything the model takes from DPDK, with proofs that it meets the
  documented behaviour the properties assume: the hypotheses can hold, and the properties are
  applied to it at concrete inputs.
\<close>

section \<open>Hardware addresses and checksums\<close>

definition nibble :: "byte \<Rightarrow> nat" where
  "nibble c = (if unat c < 58 then unat c - 48 else unat c - 55)"

fun parse_mac :: "byte list \<Rightarrow> byte list" where
  "parse_mac (a # b # c # r) = word_of_nat (16 * nibble a + nibble b) # parse_mac r"
| "parse_mac [a, b] = [word_of_nat (16 * nibble a + nibble b)]"
| "parse_mac _ = []"

lemma nibble_hex: "d < 16 \<Longrightarrow> nibble (hex_digit d) = d"
  by (simp add: nibble_def hex_digit_def unat_of_nat unat_word_ariths)

lemma parse_hex_byte:
  "(word_of_nat (16 * nibble (hex_digit (unat b div 16)) + nibble (hex_digit (unat b mod 16))) :: byte) = b"
proof -
  have "unat b div 16 < 16" using unat_byte_less [of b] by (simp add: less_mult_imp_div_less)
  then show ?thesis by (simp add: nibble_hex)
qed

lemma parse_mac_text: "parse_mac (mac_text bs) = bs"
proof (induction bs rule: mac_text.induct)
  case (3 b v va)
  then show ?case using parse_hex_byte [of b] by (simp add: hex_byte_def)
next
  case (2 b)
  then show ?case using parse_hex_byte [of b] by (simp add: hex_byte_def)
qed simp

section \<open>The table of waiting clients\<close>

type_synonym ref_table = "(byte list \<times> nat \<times> u64) list"

definition table_ok :: "ref_table \<Rightarrow> bool" where
  "table_ok h \<longleftrightarrow> distinct (map fst h) \<and> distinct (map (\<lambda>x. fst (snd x)) h) \<and>
     list_all (\<lambda>x. fst (snd x) < MAP_ENTRIES) h"

definition entries :: "ref_table \<Rightarrow> ref_table" where
  "entries h = (if table_ok h then h else [])"

fun fresh :: "nat \<Rightarrow> nat \<Rightarrow> nat list \<Rightarrow> nat" where
  "fresh 0 i ps = i"
| "fresh (Suc k) i ps = (if i \<in> set ps then fresh k (Suc i) ps else i)"

definition ref_lookup :: "ref_table \<Rightarrow> byte list \<Rightarrow> (nat \<times> u64) option" where
  "ref_lookup h k = map_of (entries h) k"

fun set_data :: "byte list \<Rightarrow> u64 \<Rightarrow> ref_table \<Rightarrow> ref_table" where
  "set_data k d [] = []"
| "set_data k d ((k', p, d') # h) = (k', p, if k' = k then d else d') # set_data k d h"

definition ref_add :: "ref_table \<Rightarrow> byte list \<Rightarrow> u64 \<Rightarrow> ref_table" where
  "ref_add h k d =
     (let t = entries h in
      if map_of t k \<noteq> None then set_data k d t
      else if length t < MAP_ENTRIES
           then (k, fresh (length t) 0 (map (\<lambda>x. fst (snd x)) t), d) # t
           else t)"

definition ref_del :: "ref_table \<Rightarrow> byte list \<Rightarrow> ref_table" where
  "ref_del h k = filter (\<lambda>x. fst x \<noteq> k) (entries h)"

lemma table_ok_entries: "table_ok (entries h)"
  by (simp add: entries_def table_ok_def)

lemma entries_ok: "table_ok h \<Longrightarrow> entries h = h"
  by (simp add: entries_def)

lemma fresh_le: "fresh k i ps \<le> i + k"
  by (induction k i ps rule: fresh.induct) simp_all

lemma fresh_new:
  assumes "distinct ps" "length (filter (\<lambda>p. i \<le> p) ps) \<le> k"
  shows "fresh k i ps \<notin> set ps"
  using assms
proof (induction k arbitrary: i)
  case 0
  then have "filter (\<lambda>p. i \<le> p) ps = []" by simp
  then show ?case by (auto simp: filter_empty_conv)
next
  case (Suc k)
  show ?case
  proof (cases "i \<in> set ps")
    case True
    have "set (filter (\<lambda>p. Suc i \<le> p) ps) = set (filter (\<lambda>p. i \<le> p) ps) - {i}" by auto
    then have "length (filter (\<lambda>p. Suc i \<le> p) ps) = length (filter (\<lambda>p. i \<le> p) ps) - 1"
      using Suc.prems(1) True distinct_card [of "filter (\<lambda>p. Suc i \<le> p) ps"]
        distinct_card [of "filter (\<lambda>p. i \<le> p) ps"]
      by (simp add: card_Diff_singleton)
    then show ?thesis using Suc True by simp
  qed simp
qed

lemma set_data_simps [simp]:
  "map fst (set_data k d h) = map fst h"
  "map (\<lambda>x. fst (snd x)) (set_data k d h) = map (\<lambda>x. fst (snd x)) h"
  "list_all (\<lambda>x. fst (snd x) < n) (set_data k d h) = list_all (\<lambda>x. fst (snd x) < n) h"
  by (induction k d h rule: set_data.induct) simp_all

lemma map_of_set_data:
  "map_of (set_data k d h) k' =
     (case map_of h k' of None \<Rightarrow> None | Some (p, d') \<Rightarrow> Some (p, if k' = k then d else d'))"
  by (induction k d h rule: set_data.induct) auto

lemma ref_add_ok: "table_ok (ref_add h k d)"
proof -
  let ?t = "entries h"
  let ?ps = "map (\<lambda>x. fst (snd x)) ?t"
  have t: "table_ok ?t" by (rule table_ok_entries)
  then have "fresh (length ?t) 0 ?ps \<notin> set ?ps"
    by (intro fresh_new) (simp_all add: table_ok_def)
  then show ?thesis
    using t fresh_le [of "length ?t" 0 ?ps]
    by (auto simp: ref_add_def Let_def table_ok_def map_of_eq_None_iff)
qed

lemma ref_del_ok: "table_ok (ref_del h k)"
  using table_ok_entries [of h]
  by (auto simp: ref_del_def table_ok_def list_all_iff distinct_map intro: inj_on_subset)

lemma ref_position_unique:
  assumes "ref_lookup h k = Some (p, d)" "ref_lookup h k' = Some (p, d')"
  shows "k = k'"
proof -
  have "(k, p, d) \<in> set (entries h)" "(k', p, d') \<in> set (entries h)"
    using assms by (simp_all add: ref_lookup_def map_of_SomeD)
  moreover have "inj_on (\<lambda>x. fst (snd x)) (set (entries h))"
    using table_ok_entries [of h] by (simp add: table_ok_def distinct_map)
  ultimately have "(k, p, d) = (k', p, d')" by (metis (no_types, lifting) inj_onD fst_conv snd_conv)
  then show ?thesis by simp
qed

lemma ref_keys_card: "card {k. ref_lookup h k \<noteq> None} = length (entries h)"
proof -
  have "{k. ref_lookup h k \<noteq> None} = set (map fst (entries h))"
    by (auto simp: ref_lookup_def map_of_eq_None_iff)
  then show ?thesis
    using table_ok_entries [of h] distinct_card [of "map fst (entries h)"] by (simp add: table_ok_def)
qed

section \<open>The environment\<close>

definition ref_copy :: "mempool \<Rightarrow> u64 \<Rightarrow> (u64 \<Rightarrow> mbuf option) \<Rightarrow> u64 \<times> (u64 \<Rightarrow> mbuf option)" where
  "ref_copy pool m M =
     (case M m of
        None \<Rightarrow> (0, M)
      | Some b \<Rightarrow>
          let a = m + (case pool of Mbuf_pool \<Rightarrow> 0x100000 | Small_mbuf_pool \<Rightarrow> 0x200000)
          in (a, M(a := Some (b\<lparr>mb_next := 0\<rparr>))))"

definition ref_env :: "ref_table app_env" where
  "ref_env =
     \<lparr>unformat_addr = (\<lambda>t old. parse_mac t),
      raw_cksum = (\<lambda>bs. word_of_nat (ones_fold (le16_sum bs))),
      tx_burst = (\<lambda>t. 1), tx_fuel = 1,
      pktmbuf_copy = ref_copy, hash_create = [], hash_lookup_data = ref_lookup,
      hash_add_key_data = ref_add, hash_del_key = ref_del,
      clock_now = (\<lambda>t. 1 + 1000 * int (length t)), chain_fuel = 8\<rparr>"

lemma ref_env_fields [simp]:
  "unformat_addr ref_env t old = parse_mac t"
  "raw_cksum ref_env bs = word_of_nat (ones_fold (le16_sum bs))"
  "tx_burst ref_env h = 1" "tx_fuel ref_env = 1"
  "pktmbuf_copy ref_env = ref_copy" "hash_create ref_env = []"
  "hash_lookup_data ref_env = ref_lookup" "hash_add_key_data ref_env = ref_add"
  "hash_del_key ref_env = ref_del" "clock_now ref_env h = 1 + 1000 * int (length h)"
  "chain_fuel ref_env = 8"
  by (simp_all add: ref_env_def)

lemma ref_unformat_ok: "unformat_ok ref_env"
  by (simp add: unformat_ok_def parse_mac_text)

lemma ref_tx_live: "tx_live ref_env"
  by (simp add: tx_live_def)

lemma ref_cksum_ok: "cksum_ok ref_env"
  by (simp add: cksum_ok_def)

lemma ref_hash_ok: "hash_ok ref_env"
proof -
  have add_same: "\<exists>p. ref_lookup (ref_add h k d) k = Some (p, d)"
    if "k \<in> hash_keys ref_env h \<or> card (hash_keys ref_env h) < MAP_ENTRIES" for h k d
  proof (cases "map_of (entries h) k")
    case None
    then have "length (entries h) < MAP_ENTRIES"
      using that ref_keys_card [of h] by (auto simp: hash_keys_def ref_lookup_def)
    with None show ?thesis by (simp add: ref_lookup_def entries_ok ref_add_ok) (simp add: ref_add_def Let_def)
  next
    case (Some x)
    then show ?thesis
      by (cases x) (simp add: ref_lookup_def entries_ok ref_add_ok, simp add: ref_add_def Let_def map_of_set_data)
  qed
  have add_other: "ref_lookup (ref_add h k d) k' = ref_lookup h k'" if "k' \<noteq> k" for h k k' d
    using that by (simp add: ref_lookup_def entries_ok ref_add_ok)
      (auto simp: ref_add_def Let_def map_of_set_data split: option.splits)
  have del_same: "ref_lookup (ref_del h k) k = None" for h k
    by (simp add: ref_lookup_def entries_ok ref_del_ok) (auto simp: ref_del_def map_of_eq_None_iff)
  have del_other: "ref_lookup (ref_del h k) k' = ref_lookup h k'" if "k' \<noteq> k" for h k k'
  proof -
    have "map_of (filter (\<lambda>x. fst x \<noteq> k) t) k' = map_of t k'" for t :: ref_table
      using that by (induction t) auto
    then show ?thesis by (simp add: ref_lookup_def entries_ok ref_del_ok) (simp add: ref_del_def)
  qed
  have pos: "p < MAP_ENTRIES" if "ref_lookup h k = Some (p, d)" for h k p d
    using that table_ok_entries [of h] map_of_SomeD [of "entries h" k "(p, d)"]
    by (auto simp: ref_lookup_def table_ok_def list_all_iff)
  have create: "ref_lookup [] k = None" for k by (simp add: ref_lookup_def entries_def)
  show ?thesis
    unfolding hash_ok_def ref_env_fields
    by (intro conjI allI impI; (rule create pos ref_position_unique add_same add_other del_same del_other)?)
      assumption+
qed

lemmas ref_oks = ref_unformat_ok ref_tx_live ref_cksum_ok ref_hash_ok

end
