(* ===== verification/Examples.thy ===== *)
theory Examples
  imports Behaviour Reference_Env
begin

text \<open>
  The properties applied to concrete packets and states over the reference environment: a
  network of memcached at 10.1.0.3 and one client at 10.1.0.4.
\<close>

section \<open>Packets\<close>

definition client_ip :: u32 where "client_ip = 0x0A010004"
definition server_mac :: "byte list" where "server_mac = [0xDE, 0xAD, 0xBE, 0xEF, 0x8B, 0x16]"
definition client_mac :: "byte list" where "client_mac = [2, 0, 0, 0, 0, 4]"

text \<open>The headers of a UDP packet to the middlebox: 42 bytes.\<close>

definition ex_headers :: "u32 \<Rightarrow> u16 \<Rightarrow> byte list" where
  "ex_headers src dl =
     replicate 12 0 @ to_be16 ETHER_TYPE_IPV4 @ [0x45, 0, 0, 0, 0, 0, 0, 0, 64, 17, 0, 0] @
     to_be32 src @ to_be32 get_local_ip @ to_be16 LOCAL_PORT @ to_be16 LOCAL_PORT @ to_be16 dl @ [0, 0]"

definition ex_mbuf :: "byte list \<Rightarrow> mbuf" where
  "ex_mbuf d = \<lparr>mb_addr = 0x10000, mb_data = d, mb_next = 0, mb_pkt_len = 0, mb_data_len = 0\<rparr>"

definition ex_request :: "u16 \<Rightarrow> byte list \<Rightarrow> mbuf" where
  "ex_request crid t = ex_mbuf (ex_headers client_ip (word_of_nat (length t + 18)) @ to_be16 crid @
     [0, 0, 0, 1, 0, 0] @ t @ [13, 10])"

definition ex_reply :: "u16 \<Rightarrow> u16 \<Rightarrow> u16 \<Rightarrow> byte list \<Rightarrow> mbuf" where
  "ex_reply rid seq n t = ex_mbuf (ex_headers (ip_str_to_int TARGET_IP) (word_of_nat (length t + 16)) @
     to_be16 rid @ to_be16 seq @ to_be16 n @ [0, 0] @ t @ [0])"

definition ex_blank :: mbuf where
  "ex_blank = ex_mbuf (ex_headers 0 8 @ replicate 1472 0)"

lemma length_ex_headers [simp]: "length (ex_headers src dl) = 42"
  by (simp add: ex_headers_def)

lemma ex_headers_reads [simp]:
  "rd_be16 12 (ex_headers src dl @ r) = Inr ETHER_TYPE_IPV4"
  "rd 14 (Suc 0) (ex_headers src dl @ r) = Inr [0x45]"
  "rd 14 (Suc 0) (ex_headers src dl) = Inr [0x45]"
  "rd 23 (Suc 0) (ex_headers src dl @ r) = Inr [17]"
  "rd_be32 26 (ex_headers src dl @ r) = Inr src"
  "rd_le32 30 (ex_headers src dl @ r) = Inr (of_le (to_be32 get_local_ip))"
  "rd_be16 36 (ex_headers src dl @ r) = Inr LOCAL_PORT"
  "rd_be16 38 (ex_headers src dl @ r) = Inr dl"
  "rd_be16 38 (ex_headers src dl) = Inr dl"
  by (simp_all add: ex_headers_def rd_be16_def rd_be32_def rd_le32_def rd_def)

lemma ex_mbuf_fields [simp]: "mb_data (ex_mbuf d) = d" "mb_next (ex_mbuf d) = 0"
  by (simp_all add: ex_mbuf_def)

section \<open>States\<close>

definition ex_table :: "nat \<Rightarrow> arp_entry" where
  "ex_table = (\<lambda>_. empty_entry)
     (0 := \<lparr>ae_addr = ip_str_to_int TARGET_IP, ae_mac = server_mac\<rparr>,
      1 := \<lparr>ae_addr = client_ip, ae_mac = client_mac\<rparr>)"

text \<open>The client's packet at 0x1000, the one reserved for requests at 0x2000, a reply at 0x3000.\<close>

definition ex_heap :: "u64 \<Rightarrow> mbuf option" where
  "ex_heap = [0x1000 \<mapsto> ex_request 7 (str ''gets ab''), 0x2000 \<mapsto> ex_blank,
     0x3000 \<mapsto> ex_reply 0 0 1 (str ''VALUE ab 0 1'')]"

definition ex_idle :: "ref_table app_state" where
  "ex_idle = (init_state ref_env ex_heap)
     \<lparr>known_haddrs := ex_table, arp_count := 2, memcached_pkt := 0x2000\<rparr>"

lemma ex_idle_fields [simp]:
  "mbufs ex_idle = ex_heap" "trace ex_idle = []" "known_haddrs ex_idle = ex_table"
  "arp_count ex_idle = 2" "ukey_len ex_idle = 0" "total_ukey_size ex_idle = 0" "request_id ex_idle = 0"
  "outstanding_req ex_idle = 0" "client_pkts ex_idle = []" "LRU_ptr ex_idle = 0"
  "LRU_queue ex_idle = (\<lambda>_. [])" "memcached_pkt ex_idle = 0x2000" "pkt_counts ex_idle = (\<lambda>_. 0)"
  "key_hold ex_idle = []" "last_key ex_idle = []" "ukey ex_idle = (\<lambda>_. [])"
  "last_send_clock ex_idle = 0"
  by (simp_all add: ex_idle_def init_state_def)

lemma ex_heap_at [simp]:
  "ex_heap 0x1000 = Some (ex_request 7 (str ''gets ab''))" "ex_heap 0x2000 = Some ex_blank"
  "ex_heap 0x3000 = Some (ex_reply 0 0 1 (str ''VALUE ab 0 1''))"
  by (simp_all add: ex_heap_def)

lemma ref_empty_lookup [simp]: "ref_lookup [] k = None"
  by (simp add: ref_lookup_def entries_def)

lemma ex_macs [simp]: "length server_mac = 6" "length client_mac = 6"
  by (simp_all add: server_mac_def client_mac_def)

lemma target_ip_value: "ip_str_to_int TARGET_IP = 0x0A010003"
  by (simp add: target_ip_eq RTE_IPV4_def of_be_def)

lemma arp_count_Suc: "ARP_ENTRIES_COUNT = Suc (Suc 62)"
  by (simp add: ARP_ENTRIES_COUNT_def)

lemma ex_lookup:
  "known_haddrs s = ex_table \<Longrightarrow> arp_lookup_mac s (ip_str_to_int TARGET_IP) = Some server_mac"
  "known_haddrs s = ex_table \<Longrightarrow> arp_lookup_mac s client_ip = Some client_mac"
  unfolding arp_lookup_mac_def arp_count_Suc arp_scan.simps
  by (simp_all add: ex_table_def target_ip_value client_ip_def)

lemma ex_idle_ready: "server_ready ex_idle server_mac"
proof -
  have "rd 14 1 (ex_headers 0 8) = Inr [0x45] \<and> (0x45 :: byte) AND 0x0f = 5" by simp
  then show ?thesis
    unfolding server_ready_def by (intro conjI exI [of _ ex_blank] exI [of _ "ex_headers 0 8"]
        exI [of _ "replicate 1472 0"] exI [of _ "0x45"]) (simp_all add: ex_lookup ex_blank_def)
qed

lemma ex_idle_lru: "lru_inv ref_env ex_idle"
  by (simp add: lru_inv_def hash_keys_def MAP_ENTRIES_def)

lemma ex_idle_group: "group_inv ex_idle"
  by (simp add: group_inv_def group_base_def ukeys_def GETS_LEN_def MAX_REQ_ID_def)

lemma ex_request_at:
  "mbufs s a = Some (ex_request crid t) \<Longrightarrow> length t \<le> 1462 \<Longrightarrow> request_at s a crid t []"
  unfolding request_at_def
  by (intro conjI, rule exI [of _ "ex_request crid t"], rule exI [of _ "ex_headers client_ip (word_of_nat (length t + 18))"],
      rule exI [of _ "[0, 0, 0, 1, 0, 0]"], intro conjI) (simp_all add: ex_request_def)

lemma ex_reply_at:
  "mbufs s a = Some (ex_reply rid seq n t) \<Longrightarrow> 2 \<le> length t \<Longrightarrow> length t \<le> 1464 \<Longrightarrow>
     reply_at s a rid seq n [0, 0] t [0]"
  unfolding reply_at_def
  by (intro conjI, rule exI [of _ "ex_reply rid seq n t"], rule exI [of _ "ex_headers (ip_str_to_int TARGET_IP) (word_of_nat (length t + 16))"],
      intro conjI) (simp_all add: ex_reply_def)

lemma ex_key [simp]: "key_text (str ''ab'')"
  by (simp add: key_text_def MAX_KEY_LENGTH_def)

section \<open>Requests and replies\<close>

theorem app_client_in_forwards_witness:
  "\<exists>s'. app_client_in ref_env 0x1000 34 client_ip ex_idle = Inr s' \<and>
     calls (trace s') = [Refcnt 0x2000 1, Tx 0x2000 (request_frame ref_env server_mac 0 [str ''ab''])]"
proof -
  have "request_at ex_idle 0x1000 7 (str ''gets'' @ 32 # str ''ab'') []"
    by (rule ex_request_at) simp_all
  from app_client_in_forwards [OF ref_unformat_ok ref_tx_live ref_hash_ok ex_idle_lru ex_idle_group this
      ex_key _ _ _ _ _ ex_idle_ready, of client_ip]
  show ?thesis by (auto simp: MIN_OUTSTANDING_REQ_def evicted_def)
qed

definition ex_waiting :: "ref_table app_state" where
  "ex_waiting = ex_idle\<lparr>client_pkts := [(signature 0 (str ''ab''), 5, 0x1000)], pkt_counts := (\<lambda>_. 1),
     LRU_queue := (\<lambda>_. signature 0 (str ''ab'')), last_key := signature 0 (str ''ab''),
     key_hold := signature 1 (str ''c'')\<rparr>"

lemma ex_waiting_fields [simp]:
  "mbufs ex_waiting = ex_heap" "trace ex_waiting = []" "known_haddrs ex_waiting = ex_table"
  "ukey_len ex_waiting = 0" "pkt_counts ex_waiting = (\<lambda>_. 1)"
  "client_pkts ex_waiting = [(signature 0 (str ''ab''), 5, 0x1000)]"
  "last_key ex_waiting = signature 0 (str ''ab'')" "key_hold ex_waiting = signature 1 (str ''c'')"
  by (simp_all add: ex_waiting_def)

lemma ref_single_lookup [simp]: "ref_lookup [(x, 5, d)] k = (if k = x then Some (5, d) else None)"
  by (simp add: ref_lookup_def entries_def table_ok_def MAP_ENTRIES_def)

lemma ex_client_waiting:
  assumes "mbufs s 0x1000 = Some (ex_request 7 (str ''gets ab''))" "known_haddrs s = ex_table"
  shows "waiting s 0x1000 (ex_request 7 (str ''gets ab'')) 7 client_ip client_mac"
  using assms ex_lookup(2) [OF assms(2)]
  by (simp add: waiting_def ex_request_def rd_be16_def [of 42] rd_append_right rd_def [of 0])

lemma ex_request_next [simp]: "mb_next (ex_request crid t) = 0"
  by (simp add: ex_request_def)

lemma ex_waiting_chain: "chain ex_waiting 0x1000 [(0x1000, 7, client_ip, client_mac)]"
  using ex_client_waiting [of ex_waiting] by auto

theorem app_server_in_delivers_witness:
  "\<exists>s'. app_server_in ref_env 0x3000 34 ex_waiting = Inr s' \<and>
     calls (trace s') = [Refcnt 0x3000 1,
       Tx 0x3000 (udp_frame ref_env client_mac client_ip
         (to_be16 7 @ to_be16 0 @ to_be16 1 @ [0, 0] @ str ''VALUE ab 0 1'')),
       Free 0x3000, Free 0x1000]"
proof -
  have "reply_at ex_waiting 0x3000 0 0 1 [0, 0] (str ''VALUE ab 0 1'') [0]"
    by (rule ex_reply_at) simp_all
  from app_server_in_delivers [OF ref_unformat_ok ref_tx_live this _ ex_key _ _ _ ex_waiting_chain,
      of "str ''0 1''" 5]
  show ?thesis
    by (auto simp: MAP_ENTRIES_def MAX_REQ_ID_def MAX_KEY_LENGTH_def signature_def dec.simps
        reply_frames_def reply_body_def)
qed

theorem app_server_in_unknown_witness:
  "\<exists>s'. app_server_in ref_env 0x3000 34 ex_idle = Inr s' \<and> trace s' = [Free 0x3000]"
proof -
  have "reply_at ex_idle 0x3000 0 0 1 [0, 0] (str ''VALUE ab 0 1'') [0]"
    by (rule ex_reply_at) simp_all
  from app_server_in_unknown [OF this _ ex_key, of "str ''0 1''" ref_env]
  show ?thesis by (auto simp: MAX_KEY_LENGTH_def signature_def dec.simps)
qed

text \<open>A continuation packet after another client's request.\<close>

definition ex_continued :: "ref_table app_state" where
  "ex_continued = ex_waiting\<lparr>mbufs := ex_heap(0x3000 := Some (ex_reply 0 1 1 (str ''data'')))\<rparr>"

theorem app_server_in_dangling_chain_witness:
  "\<exists>s'. app_server_in ref_env 0x3000 34 ex_continued = Inr s' \<and>
     calls (trace s') = [Refcnt 0x3000 1,
       Tx 0x3000 (udp_frame ref_env client_mac client_ip
         (to_be16 7 @ to_be16 1 @ to_be16 1 @ [0, 0] @ str ''data'')),
       Free 0x3000, Free 0x1000] \<and>
     ref_lookup (client_pkts s') (signature 0 (str ''ab'')) = Some (5, 0x1000)"
proof -
  have r: "reply_at ex_continued 0x3000 0 1 1 [0, 0] (str ''data'') [0]"
    by (rule ex_reply_at) (simp_all add: ex_continued_def)
  have c: "chain ex_continued 0x1000 [(0x1000, 7, client_ip, client_mac)]"
    using ex_client_waiting [of ex_continued] by (auto simp: ex_continued_def)
  have k: "key_hold ex_continued \<noteq> last_key ex_continued"
    using signature_inj [of 1 "str ''c''" 0 "str ''ab''"] by (auto simp: ex_continued_def)
  have l: "hash_lookup_data ref_env (client_pkts ex_continued) (last_key ex_continued) = Some (5, 0x1000)"
    by (simp add: ex_continued_def)
  from app_server_in_dangling_chain [OF ref_unformat_ok ref_tx_live ref_hash_ok r _ _ l c _ _ _ _ _ k]
  show ?thesis
    by (auto simp: ex_continued_def MAX_REQ_ID_def reply_frames_def reply_body_def)
qed

theorem request_reply_roundtrip_witness:
  "\<exists>s1 s2. app_client_in ref_env 0x1000 34 client_ip ex_idle = Inr s1 \<and>
     app_server_in ref_env 0x4000 34
       (s1\<lparr>mbufs := (mbufs s1)(0x4000 := Some (ex_reply 0 0 1 (str ''VALUE ab 0 1'')))\<rparr>) = Inr s2 \<and>
     calls (trace s2) = calls (trace s1) @ [Refcnt 0x4000 1,
       Tx 0x4000 (udp_frame ref_env client_mac client_ip
         (to_be16 7 @ to_be16 0 @ to_be16 1 @ [0, 0] @ str ''VALUE ab 0 1'')),
       Free 0x4000, Free 0x1000]"
proof -
  have q: "request_at ex_idle 0x1000 7 (str ''gets'' @ 32 # str ''ab'') []"
    by (rule ex_request_at) simp_all
  obtain s1 where s1: "app_client_in ref_env 0x1000 34 client_ip ex_idle = Inr s1"
    using request_forwarded [OF ref_unformat_ok ref_tx_live ref_hash_ok ex_idle_lru ex_idle_group q
        ex_key _ _ _ _ _ ex_idle_ready, of client_ip] by (auto simp: MIN_OUTSTANDING_REQ_def)
  let ?r = "ex_reply 0 0 1 (str ''VALUE ab 0 1'')"
  let ?t = "s1\<lparr>mbufs := (mbufs s1)(0x4000 := Some ?r)\<rparr>"
  have r: "reply_at ?t 0x4000 (request_id ex_idle) 0 1 [0, 0] (str ''VALUE ab 0 1'') [0]"
    unfolding ex_idle_fields by (rule ex_reply_at) simp_all
  have w: "waiting ex_idle 0x1000 (ex_request 7 (str ''gets ab'')) 7 client_ip client_mac"
    by (rule ex_client_waiting) simp_all
  have "str ''VALUE ab 0 1'' = str ''VALUE '' @ str ''ab'' @ 32 # str ''0 1''" by simp
  note rt = request_reply_roundtrip [OF ref_unformat_ok ref_tx_live ref_hash_ok _ ex_idle_lru ex_idle_group q
      ex_key _ w _ _ _ _ _ ex_idle_ready _ s1 refl _ r this]
  have "\<exists>s2. app_server_in ref_env 0x4000 34 ?t = Inr s2 \<and>
     calls (trace s2) = calls (trace s1) @ [Refcnt 0x4000 1,
       Tx 0x4000 (udp_frame ref_env client_mac client_ip
         (to_be16 7 @ reply_body 0 1 [0, 0] (str ''VALUE ab 0 1''))), Free 0x4000, Free 0x1000] \<and>
     hash_lookup_data ref_env (client_pkts s2) (signature (request_id ex_idle) (str ''ab'')) = None"
    by (rule rt) (simp_all add: MIN_OUTSTANDING_REQ_def)
  with s1 show ?thesis unfolding reply_body_def by blast
qed

section \<open>Groups\<close>

definition ex_group :: "byte list list \<Rightarrow> ref_table app_state" where
  "ex_group ks = ex_idle\<lparr>ukey := (\<lambda>i. if i < length ks then ks ! i else []),
     ukey_len := word_of_nat (length ks), total_ukey_size := word_of_nat (sum_list (map length ks)),
     last_send_clock := 1, trace := replicate 100 Clock\<rparr>"

lemma ex_group_fields [simp]:
  "mbufs (ex_group ks) = ex_heap" "known_haddrs (ex_group ks) = ex_table" "request_id (ex_group ks) = 0"
  "trace (ex_group ks) = replicate 100 Clock" "ukey_len (ex_group ks) = word_of_nat (length ks)"
  "total_ukey_size (ex_group ks) = word_of_nat (sum_list (map length ks))"
  "memcached_pkt (ex_group ks) = 0x2000" "client_pkts (ex_group ks) = []" "last_send_clock (ex_group ks) = 1"
  "LRU_queue (ex_group ks) = (\<lambda>_. [])" "LRU_ptr (ex_group ks) = 0"
  by (simp_all add: ex_group_def)

lemma ex_group_ukeys: "length ks \<le> 600 \<Longrightarrow> ukeys (ex_group ks) = ks"
  by (rule nth_equalityI) (simp_all add: ukeys_def ex_group_def unat_of_nat)

lemma ex_group_base:
  assumes "length ks \<le> 600" "distinct ks" "\<forall>k \<in> set ks. key_ok k" "sum_list (map length ks) \<le> 2000"
  shows "group_base (ex_group ks)"
  using assms unat_small_u16 [OF assms(4)]
  by (simp add: group_base_def ex_group_ukeys MAX_REQ_ID_def)

lemma ex_group_ready: "server_ready (ex_group ks) server_mac"
  using ex_idle_ready by (subst server_ready_other [of _ ex_idle]) simp_all

lemma ex_group_lru: "lru_inv ref_env (ex_group ks)"
  by (simp add: lru_inv_def hash_keys_def MAP_ENTRIES_def)

lemma ex_ab_base: "group_base (ex_group [str ''ab''])" "group_inv (ex_group [str ''ab''])"
  by (rule ex_group_base) (simp_all add: group_inv_def ex_group_base key_ok_def MAX_KEY_LENGTH_def
      ex_group_ukeys GETS_LEN_def del: length_ukeys)

lemma calls_clocks [simp]: "calls (replicate n Clock) = []"
  by (simp add: calls_def)

theorem construct_pkt_sends_group_witness:
  "\<exists>s'. construct_pkt_and_send_to_server ref_env False (ex_group [str ''ab'']) = Inr s' \<and>
     calls (trace s') = [Refcnt 0x2000 1, Tx 0x2000 (request_frame ref_env server_mac 0 [str ''ab''])]"
proof -
  have "request_text_len (sent_keys False (ex_group [str ''ab''])) < MAX_PAYLOAD_LEN"
    by (simp add: request_text_len_def sent_keys_def ex_group_ukeys GETS_LEN_def)
  from construct_pkt_sends_group [OF ref_unformat_ok ref_tx_live ex_group_ready ex_ab_base(1) _ _ this]
  show ?thesis by (auto simp: ex_group_ukeys sent_keys_def)
qed

definition long_key :: "nat \<Rightarrow> byte \<Rightarrow> byte list" where "long_key n c = replicate n c"

lemma long_key_ok: "c \<noteq> 0 \<Longrightarrow> n < 1443 \<Longrightarrow> key_ok (long_key n c)"
  by (simp add: long_key_def key_ok_def MAX_KEY_LENGTH_def)

lemma length_long_key [simp]: "length (long_key n c) = n"
  by (simp add: long_key_def)

lemma long_key_neq [simp]: "n \<noteq> n' \<Longrightarrow> long_key n c \<noteq> long_key n' c'"
  by (metis length_long_key)

text \<open>Two keys of 1442 and 14 bytes: with the request word and two spaces, 1462 bytes.\<close>

theorem construct_pkt_overruns_payload_witness:
  "\<not> group_full (ex_group [long_key 1442 97, long_key 14 98]) \<and>
   construct_pkt_and_send_to_server ref_env False (ex_group [long_key 1442 97, long_key 14 98]) =
     Inl Out_of_bounds"
proof -
  let ?ks = "[long_key 1442 97, long_key 14 98]"
  have "long_key 1442 97 \<noteq> long_key 14 98"
    by simp
  then have "group_base (ex_group ?ks)"
    by (intro ex_group_base) (simp_all add: long_key_ok)
  moreover have "request_text_len (ukeys (ex_group ?ks)) = MAX_PAYLOAD_LEN"
    by (simp add: ex_group_ukeys request_text_len_def GETS_LEN_def)
  ultimately show ?thesis
    by (intro construct_pkt_overruns_payload [OF ex_group_ready]) (simp_all add: ex_group_ukeys)
qed

theorem carried_key_unregistered_witness:
  "\<exists>s' slot. client_key ref_env 0x1000 0 (long_key 70 98) (ex_group [long_key 1400 97]) = Inr s' \<and>
     ukeys s' = [long_key 70 98] \<and> request_id s' = 1 \<and>
     ref_lookup (client_pkts s') (signature 0 (long_key 70 98)) = Some (slot, 0x1000) \<and>
     ref_lookup (client_pkts s') (signature 1 (long_key 70 98)) = None"
proof -
  let ?s = "ex_group [long_key 1400 97]"
  have us: "ukeys ?s = [long_key 1400 97]" by (simp add: ex_group_ukeys)
  have inv: "group_inv ?s"
    unfolding group_inv_def by (rule conjI, rule ex_group_base) (simp_all add: long_key_ok us GETS_LEN_def del: length_ukeys)
  have ne: "long_key 70 98 \<noteq> long_key 1400 97"
    by simp
  have fits: "length (signature (request_id ?s) (long_key 70 98)) < MAX_KEY_LENGTH"
    by (rule signature_fits) simp
  have nid: "(1 :: u16) = word_of_nat ((unat (request_id ?s) + 1) mod MAX_REQ_ID)"
    by (simp add: MAX_REQ_ID_def)
  have ok: "key_ok (long_key 70 98)" by (rule long_key_ok) simp_all
  from carried_key_unregistered [OF ref_unformat_ok ref_tx_live ref_hash_ok ex_group_lru inv
      ok _ fits _ _ ex_group_ready nid, where m = "0x1000"]
  show ?thesis using ne by (auto simp: us request_text_len_def GETS_LEN_def)
qed

theorem insert_ukey_group_set_witness:
  "\<exists>s'. insert_ukey_group (str ''c'') (ex_group [str ''ab'']) = Inr s' \<and>
     ukeys s' = [str ''ab'', str ''c''] \<and> unat (total_ukey_size s') = 3"
  using insert_ukey_group_set [OF ex_ab_base(2), of "str ''c''"]
  by (auto simp: ex_group_ukeys key_ok_def MAX_KEY_LENGTH_def)

theorem group_full_exact_witness: "\<not> group_full (ex_group [str ''ab''])"
  using group_full_exact [OF ex_ab_base(1)] by (simp add: ex_group_ukeys request_text_len_def GETS_LEN_def)

theorem refresh_backlog_waits_witness:
  "\<exists>s'. refresh_backlog ref_env ex_idle = Inr s' \<and> calls (trace s') = [] \<and> ukeys s' = []"
  using refresh_backlog_waits [of ex_idle ref_env] by (auto simp: ukeys_def)

theorem refresh_backlog_flushes_witness:
  "\<exists>s'. refresh_backlog ref_env (ex_group [str ''ab'']) = Inr s' \<and>
     calls (trace s') = [Refcnt 0x2000 1, Tx 0x2000 (request_frame ref_env server_mac 0 [str ''ab''])] \<and>
     outstanding_req s' = 1 \<and> keys_rcvd s' 5 = - 1"
  using refresh_backlog_flushes [OF ref_unformat_ok ref_tx_live ex_group_ready ex_ab_base(2)]
  by (auto simp: ex_group_ukeys request_text_len_def GETS_LEN_def start_clock_def elapsed_def
      TIMEOUT_def CLOCKS_PER_SEC_def MAX_REQ_ID_def)

section \<open>Dispatch and the main loop\<close>

theorem eth_in_dispatch_witness:
  "eth_in ref_env 0x1000 ex_idle = app_client_in ref_env 0x1000 34 client_ip ex_idle"
proof -
  have "ipv4_frame ex_idle 0x1000 0x45 17 client_ip (of_le (to_be32 get_local_ip)) LOCAL_PORT"
    unfolding ipv4_frame_def
    by (intro exI [of _ "ex_request 7 (str ''gets ab'')"]) (simp add: ex_request_def)
  moreover have "client_ip \<noteq> ip_str_to_int TARGET_IP" by (simp add: client_ip_def target_ip_value)
  moreover have "(14 :: nat) + unat (0x45 AND 0x0f :: byte) * 4 = 34" by simp
  moreover have "arp_lookup_mac ex_idle client_ip \<noteq> None" using ex_lookup(2) [of ex_idle] by simp
  moreover have "(17 :: byte) = IPPROTO_UDP" by (simp add: IPPROTO_UDP_def)
  ultimately show ?thesis
    using eth_in_dispatch [of ex_idle "0x1000" "0x45" 17 client_ip _ _ ref_env] by metis
qed

theorem eth_in_leaks_unknown_witness:
  "eth_in ref_env 0x5000 (ex_idle\<lparr>mbufs := ex_heap(0x5000 := Some (ex_mbuf (replicate 12 0 @ [0x86, 0xDD])))\<rparr>) =
     Inr (ex_idle\<lparr>mbufs := ex_heap(0x5000 := Some (ex_mbuf (replicate 12 0 @ [0x86, 0xDD])))\<rparr>)"
  by (rule eth_in_leaks_unknown [where b = "ex_mbuf (replicate 12 0 @ [0x86, 0xDD])" and ty = "0x86DD"])
    (simp_all add: rd_be16_def rd_def of_be_def ETHER_TYPE_ARP_def ETHER_TYPE_IPV4_def)

definition ex_device :: device_env where
  "ex_device = \<lparr>eal_init = 0, mbuf_pool_ok = True, small_mbuf_pool_ok = True, dev_ports = [0],
     is_valid_port = (\<lambda>p. p = 0), dev_info_get = (\<lambda>p. (0, True)), dev_configure = (\<lambda>p r t f. 0),
     adjust_nb_rx_tx_desc = (\<lambda>p r t. (0, r, t)), rx_queue_setup = (\<lambda>p q n. 0),
     tx_queue_setup = (\<lambda>p q n f. 0), dev_start = (\<lambda>p. 0), macaddr_get = (\<lambda>p. 0)\<rparr>"

lemma ex_device_init: "port_init ex_device 0 = 0"
  by (simp add: port_init_def ex_device_def)

lemma ex_main: "main_init ref_env ex_device (Some []) ex_heap = Inr (init_state ref_env ex_heap)"
  using ex_device_init
  by (simp add: main_init_def init_arp_table_def init_hashmap_def) (simp add: ex_device_def init_state_def)

theorem lcore_main_group_witness: "unat (ukey_len (init_state ref_env ex_heap)) \<le> 571"
  using lcore_main_group [OF ex_main lcore_start] by blast

theorem lcore_main_clients_witness: "card (hash_keys ref_env (client_pkts (init_state ref_env ex_heap))) \<le> 600"
  using lcore_main_clients [OF ref_hash_ok ex_main lcore_start] by (simp add: MAP_ENTRIES_def)

theorem register_client_new_witness:
  "\<exists>s' slot. register_client ref_env 0x1000 ex_idle = Inr s' \<and> pkt_counts s' slot = 1 \<and>
     ref_lookup (client_pkts s') [] = Some (slot, 0x1000)"
  using register_client_new [OF ref_hash_ok ex_idle_lru, of "0x1000"] by auto

text \<open>A second client for the same key.\<close>

definition ex_second :: "ref_table app_state" where
  "ex_second = ex_waiting\<lparr>key_hold := signature 0 (str ''ab''),
     mbufs := ex_heap(0x6000 := Some (ex_request 9 (str ''gets ab'')))\<rparr>"

theorem register_client_chains_witness:
  "\<exists>s'. register_client ref_env 0x6000 ex_second = Inr s' \<and>
     chain s' 0x6000 [(0x6000, 9, client_ip, client_mac), (0x1000, 7, client_ip, client_mac)]"
proof -
  have w: "waiting ex_second 0x6000 (ex_request 9 (str ''gets ab'')) 9 client_ip client_mac"
    using ex_lookup(2) [of ex_second]
    by (simp add: ex_second_def waiting_def ex_request_def rd_be16_def [of 42] rd_append_right rd_def [of 0])
  have c: "chain ex_second 0x1000 [(0x1000, 7, client_ip, client_mac)]"
    using ex_client_waiting [of ex_second] by (auto simp: ex_second_def)
  have l: "hash_lookup_data ref_env (client_pkts ex_second) (key_hold ex_second) = Some (5, 0x1000)"
    by (simp add: ex_second_def)
  have m: "mbufs ex_second 0x6000 = Some (ex_request 9 (str ''gets ab''))" by (simp add: ex_second_def)
  from register_client_chains [OF ref_hash_ok l m _ c _ w] show ?thesis by auto
qed

theorem strip_key_value_anywhere_witness:
  "strip_key_value (str ''data: xy VALUE'' @ [13, 10, 0]) 14 = Inr (True, Some (str ''xy''))"
proof -
  have "occurs (str ''VALUE'') (cstr (str ''data: xy VALUE'' @ [13, 10, 0]))" by simp
  moreover have "key_text (str ''xy'')" by (simp add: key_text_def MAX_KEY_LENGTH_def)
  ultimately show ?thesis
    using strip_key_value_anywhere [of "str ''data: xy VALUE'' @ [13, 10, 0]" "str ''xy''" "str ''VALUE'' @ [13, 10, 0]" 14]
    by simp
qed

section \<open>Key text\<close>

theorem strip_construct_keys_witness:
  "strip_keys ((str ''gets ab cd'') @ [13, 10]) 10 = Inr [str ''ab'', str ''cd'']"
proof -
  have "construct_keys_packet [str ''ab'', str ''cd''] = Inr (str ''gets ab cd'')"
    by (simp add: construct_keys_packet_eq)
  from strip_construct_keys [OF this, of "[13, 10]"] show ?thesis
    by (simp add: MAX_KEY_LENGTH_def MAX_KEY_PER_PACKET_def)
qed

text \<open>723 keys of one byte: 1450 bytes.\<close>

theorem strip_keys_overrun_witness:
  "strip_keys (str ''gets'' @ spaced (replicate 723 [97]) @ [13, 10]) 1450 = Inl Out_of_bounds"
  by (rule strip_keys_overrun)
    (simp_all add: MAX_KEY_LENGTH_def MAX_KEY_PER_PACKET_def length_spaced sum_list_replicate)

theorem strip_keys_long_key_witness:
  "strip_keys (str ''gets'' @ 32 # long_key 1443 97 @ [13, 10]) 1448 = Inl Out_of_bounds"
  by (rule strip_keys_long_key) (simp_all add: MAX_KEY_LENGTH_def long_key_def)

theorem strip_keys_uninit_witness: "strip_keys (str ''gets'' @ [13, 10]) 4 = Inl Uninit_read"
  using strip_keys_uninit [of "str ''gets''" 4 "[13, 10]"] by simp

section \<open>The lower layers\<close>

theorem add_arp_entry_lookup_witness:
  "arp_lookup_mac (snd (add_arp_entry ref_env (ip_addr_to_str client_ip) (mac_text client_mac)
     (init_state ref_env ex_heap))) client_ip = Some client_mac"
proof -
  have s: "arp_count (init_state ref_env ex_heap) = 0" "known_haddrs (init_state ref_env ex_heap) = (\<lambda>_. empty_entry)"
    by (simp_all add: init_state_def)
  then have wf: "arp_wf (init_state ref_env ex_heap)" by (simp add: arp_wf_def)
  then have "arp_lookup_mac (init_state ref_env ex_heap) client_ip = None"
    using s by (simp add: arp_lookup_used client_ip_def)
  then show ?thesis
    using add_arp_entry_lookup [OF wf _ ref_unformat_ok, of client_mac client_ip client_ip] s
    by (simp add: ARP_ENTRIES_COUNT_def client_ip_def)
qed

theorem add_arp_entry_rejects_witness:
  "add_arp_entry ref_env ip mac (ex_idle\<lparr>arp_count := 64\<rparr>) = (-1, ex_idle\<lparr>arp_count := 64\<rparr>)"
  by (rule add_arp_entry_rejects) (simp add: ARP_ENTRIES_COUNT_def)

theorem init_arp_table_lookup_witness:
  "\<exists>s'. init_arp_table ref_env (Some [arp_line (client_ip, client_mac)]) (init_state ref_env ex_heap) = Inr s' \<and>
     arp_lookup_mac s' client_ip = Some client_mac"
proof -
  have s: "arp_count (init_state ref_env ex_heap) = 0" "known_haddrs (init_state ref_env ex_heap) = (\<lambda>_. empty_entry)"
    by (simp_all add: init_state_def)
  show ?thesis
    using init_arp_table_lookup [OF ref_unformat_ok _ _ s, of "[(client_ip, client_mac)]"]
    by (auto simp: client_ip_def)
qed

theorem arp_lookup_zero_known_witness: "arp_lookup_mac ex_idle 0 = Some (replicate 6 0)"
proof (rule arp_lookup_zero_known)
  show "arp_wf ex_idle" by (auto simp: arp_wf_def ARP_ENTRIES_COUNT_def ex_table_def)
  show "\<forall>i < unat (arp_count ex_idle). ae_addr (known_haddrs ex_idle i) \<noteq> 0"
    by (auto simp: ex_table_def client_ip_def target_ip_value less_2_cases_iff)
qed (simp add: ARP_ENTRIES_COUNT_def)

definition ex_arp :: "u16 \<Rightarrow> byte list" where
  "ex_arp op = replicate 14 0 @ replicate 6 1 @ to_be16 op @ client_mac @ to_be32 client_ip @
     replicate 6 0 @ to_be32 get_local_ip @ replicate 18 0"

definition ex_arp_state :: "u16 \<Rightarrow> ref_table app_state" where
  "ex_arp_state op = ex_idle\<lparr>mbufs := [0x1000 \<mapsto> ex_mbuf (ex_arp op)]\<rparr>"

theorem arp_in_answers_request_witness:
  "\<exists>s'. arp_in ref_env 0x1000 14 (ex_arp_state ARP_OP_REQUEST) = Inr s' \<and>
     calls (trace s') = [Tx 0x1000 (client_mac @ local_mac @ to_be16 ETHER_TYPE_ARP @ replicate 6 1 @
       to_be16 ARP_OP_REPLY @ local_mac @ to_be32 get_local_ip @ client_mac @ to_be32 client_ip)]"
  using arp_in_answers_request [OF ref_unformat_ok ref_tx_live, of "ex_arp_state ARP_OP_REQUEST" "0x1000"
      "ex_mbuf (ex_arp ARP_OP_REQUEST)" "replicate 14 0" "replicate 6 1" client_mac "to_be32 client_ip"
      "replicate 6 0" "replicate 18 0"]
  by (simp add: ex_arp_state_def ex_arp_def)

theorem arp_in_ignores_others_witness:
  "arp_in ref_env 0x1000 14 (ex_arp_state ARP_OP_REPLY) = Inr (ex_arp_state ARP_OP_REPLY)"
  by (rule arp_in_ignores_others [where b = "ex_mbuf (ex_arp ARP_OP_REPLY)" and tip = get_local_ip and op = ARP_OP_REPLY])
    (simp_all add: ex_arp_state_def ex_arp_def rd_be32_def rd_be16_def rd_def ARP_OP_REPLY_def ARP_OP_REQUEST_def)


theorem ip_out_aborts_unknown_witness:
  "ip_out ref_env 0x1000 14 get_local_ip client_ip 64 0 IPPROTO_UDP 20
     ((init_state ref_env ex_heap)) = Inl Assert_failed"
proof (rule ip_out_aborts_unknown)
  have s: "arp_count (init_state ref_env ex_heap) = 0" "known_haddrs (init_state ref_env ex_heap) = (\<lambda>_. empty_entry)"
    by (simp_all add: init_state_def)
  then have wf: "arp_wf (init_state ref_env ex_heap)" by (simp add: arp_wf_def)
  then show "arp_lookup_mac (init_state ref_env ex_heap) client_ip = None"
    using s by (simp add: arp_lookup_used client_ip_def)
  show "mbufs (init_state ref_env ex_heap) 0x1000 = Some (ex_request 7 (str ''gets ab''))"
    by (simp add: init_state_def)
qed (simp add: ex_request_def)

text \<open>A packet with the overlay in place: handle 0x1000 and length 2.\<close>

definition ex_sge :: "u32 \<Rightarrow> mbuf" where
  "ex_sge len = ex_mbuf (replicate 20 0 @ to_le32 len @ replicate 4 0 @ to_le64 0x1000 @ replicate 6 0 @ [1, 2, 3])"

definition ex_sge_state :: "u32 \<Rightarrow> ref_table app_state" where
  "ex_sge_state len = ex_idle\<lparr>mbufs := [0x1000 \<mapsto> ex_sge len]\<rparr>"

lemma ex_sge_reads:
  "rd_le64 28 (mb_data (ex_sge len)) = Inr 0x1000" "rd_le32 20 (mb_data (ex_sge len)) = Inr len"
  by (simp_all add: ex_sge_def rd_le64_def rd_le32_def rd_append_right rd_append_left rd_def)

theorem udp_send_transmits_witness:
  "\<exists>s'. udp_send ref_env 0x1000 12 client_ip (ex_sge_state 2) = Inr (0, s') \<and>
     calls (trace s') = [Tx 0x1000 (udp_frame ref_env client_mac client_ip [1, 2])]"
proof -
  have d: "mb_data (ex_sge 2) = take 34 (mb_data (ex_sge 2)) @ take 8 (drop 34 (mb_data (ex_sge 2))) @ [1, 2, 3]"
    by (simp add: ex_sge_def)
  have l: "arp_lookup_mac (ex_sge_state 2) client_ip = Some client_mac"
    by (rule ex_lookup) (simp add: ex_sge_state_def)
  have m: "mbufs (ex_sge_state 2) 0x1000 = Some (ex_sge 2)" by (simp add: ex_sge_state_def)
  from udp_send_transmits [OF ref_unformat_ok ref_tx_live l _ m d _ _ ex_sge_reads(1), of 2] ex_sge_reads(2) [of 2]
  show ?thesis by (simp add: ex_sge_state_def ex_sge_def)
qed

theorem udp_send_too_long_witness:
  "fst (projr (udp_send ref_env 0x1000 12 client_ip (ex_sge_state 1473))) = -1"
proof -
  have d: "mb_data (ex_sge 1473) = take 12 (mb_data (ex_sge 1473)) @ drop 12 (mb_data (ex_sge 1473))" by simp
  have m: "mbufs (ex_sge_state 1473) 0x1000 = Some (ex_sge 1473)" by (simp add: ex_sge_state_def)
  from udp_send_too_long [OF m ex_sge_reads _ d, of ref_env client_ip]
  show ?thesis by (simp add: UDP_MAX_LEN_def ex_sge_def)
qed

theorem dpdk_eth_send_transmits_witness:
  "\<exists>s'. dpdk_eth_send ref_env 0x2000 2 ex_idle = Inr (1, s') \<and> calls (trace s') = [Tx 0x2000 (replicate 2 0)]"
  using dpdk_eth_send_transmits [OF ref_tx_live, of ex_idle "0x2000" ex_blank 2]
  by (auto simp: ex_blank_def ex_headers_def)

theorem tx_loop_hangs_witness: "tx_loop (ref_env\<lparr>tx_burst := \<lambda>_. 0\<rparr>) 1000 0x1000 ex_idle = Inl Hang"
  by (rule tx_loop_hangs) simp_all

end
