(* ===== verification/Hash_Map.thy ===== *)
theory Hash_Map
  imports Codec "HOL-Library.Log_Nat"
begin

text \<open>
  The hash map of \<open>deprecated/map.c\<close>, with \<open>__HASHMAP_REMOVABLE\<close> as \<open>map.h\<close>
  defines it: open addressing with linear probing, tombstones, and a linked list through the
  buckets in the order of insertion.

  A pointer to a bucket is the bucket's index; \<open>NULL\<close> is \<open>None\<close>. Keys stay where the
  caller keeps them: a bucket holds the address, and \<open>key_heap\<close> is the caller's memory.
  \<open>calloc\<close> is a parameter that says whether an array of so many elements is granted; a
  refused array is the empty one, so that every access to it faults.
\<close>

section \<open>Keys\<close>

type_synonym key_heap = "u64 \<Rightarrow> byte list option"

definition key_bytes :: "key_heap \<Rightarrow> u64 \<Rightarrow> nat \<Rightarrow> byte list res" where
  "key_bytes H p n =
     (if n = 0 then Inr []
      else case H p of None \<Rightarrow> Inl Null_deref
           | Some bs \<Rightarrow> if n \<le> length bs then Inr (take n bs) else Inl Out_of_bounds)"

text \<open>\<open>memcmp(p, q, n) == 0\<close>.\<close>

definition key_eq :: "key_heap \<Rightarrow> u64 \<Rightarrow> u64 \<Rightarrow> nat \<Rightarrow> bool res" where
  "key_eq H p q n = bindr (key_bytes H p n) (\<lambda>a. bindr (key_bytes H q n) (\<lambda>b. Inr (a = b)))"

section \<open>The hash function\<close>

definition HASHMAP_HASH_INIT :: u64 where "HASHMAP_HASH_INIT = 2166136261"

text \<open>The loop over whole blocks of eight bytes, little end first.\<close>

fun hash_blocks :: "nat \<Rightarrow> byte list \<Rightarrow> u64 \<Rightarrow> u64 \<times> byte list" where
  "hash_blocks 0 data hash = (hash, data)"
| "hash_blocks (Suc n) data hash =
     hash_blocks n (drop 8 data)
       ((hash XOR
         (push_bit 0 (ucast (data ! 0)) OR push_bit 8 (ucast (data ! 1)) OR
          push_bit 16 (ucast (data ! 2)) OR push_bit 24 (ucast (data ! 3)) OR
          push_bit 32 (ucast (data ! 4)) OR push_bit 40 (ucast (data ! 5)) OR
          push_bit 48 (ucast (data ! 6)) OR push_bit 56 (ucast (data ! 7))))
        * 0xbf58476d1ce4e5b9)"

text \<open>The cases of the switch that falls through from \<open>size % 8\<close> down to 1.\<close>

fun hash_tail :: "nat \<Rightarrow> byte list \<Rightarrow> u64 \<Rightarrow> u64" where
  "hash_tail 0 data acc = acc"
| "hash_tail (Suc k) data acc =
     hash_tail k data (acc OR push_bit (8 * Suc k) (ucast (data ! k)))"

lemma hash_tail_numeral [simp]:
  "hash_tail (numeral n) data acc =
     hash_tail (pred_numeral n) data (acc OR push_bit (8 * numeral n) (ucast (data ! pred_numeral n)))"
  by (simp add: numeral_eq_Suc)

definition hash_data :: "byte list \<Rightarrow> u32" where
  "hash_data bs =
     (let size = length bs;
          (hash, data) = hash_blocks (size div 8) bs HASHMAP_HASH_INIT;
          tail = word_of_nat size AND 0xff;
          hash = (if size mod 8 = 0 then hash
                  else (hash XOR hash_tail (size mod 8) data tail) * 0xd6e8feb86659fd93)
      in ucast (hash XOR drop_bit 32 hash))"

section \<open>Buckets and maps\<close>

record bucket =
  bk_next :: "nat option"
  bk_key :: u64
  bk_ksize :: nat
  bk_hash :: u32
  bk_value :: u64

definition empty_bucket :: bucket where
  "empty_bucket = \<lparr>bk_next = None, bk_key = 0, bk_ksize = 0, bk_hash = 0, bk_value = 0\<rparr>"

text \<open>\<open>hm_last = None\<close> is the pointer to \<open>m->first\<close>, seen as an imaginary bucket.\<close>

record hashmap =
  hm_buckets :: "bucket list"
  hm_capacity :: nat
  hm_count :: nat
  hm_tombstone_count :: nat
  hm_first :: "nat option"
  hm_last :: "nat option"

definition HASHMAP_DEFAULT_CAPACITY :: nat where "HASHMAP_DEFAULT_CAPACITY = 20"
definition HASHMAP_RESIZE_FACTOR :: nat where "HASHMAP_RESIZE_FACTOR = 2"

definition calloc_buckets :: "(nat \<Rightarrow> bool) \<Rightarrow> nat \<Rightarrow> bucket list" where
  "calloc_buckets calloc n = (if calloc n then replicate n empty_bucket else [])"

definition hashmap_create :: "(nat \<Rightarrow> bool) \<Rightarrow> hashmap" where
  "hashmap_create calloc =
     \<lparr>hm_buckets = calloc_buckets calloc HASHMAP_DEFAULT_CAPACITY,
      hm_capacity = HASHMAP_DEFAULT_CAPACITY, hm_count = 0, hm_tombstone_count = 0,
      hm_first = None, hm_last = None\<rparr>"

text \<open>\<open>m->last->next\<close>, read and written.\<close>

definition last_next :: "hashmap \<Rightarrow> nat option res" where
  "last_next m = (case hm_last m of
       None \<Rightarrow> Inr (hm_first m)
     | Some l \<Rightarrow> if l < length (hm_buckets m) then Inr (bk_next (hm_buckets m ! l)) else Inl Out_of_bounds)"

definition set_last_next :: "nat option \<Rightarrow> hashmap \<Rightarrow> hashmap" where
  "set_last_next p m = (case hm_last m of
       None \<Rightarrow> m\<lparr>hm_first := p\<rparr>
     | Some l \<Rightarrow> m\<lparr>hm_buckets := (hm_buckets m)[l := (hm_buckets m ! l)\<lparr>bk_next := p\<rparr>]\<rparr>)"

section \<open>Growing\<close>

text \<open>
  A probing loop visits each index once in \<open>capacity\<close> steps and then repeats itself on
  unchanged buckets, so running out of \<open>capacity\<close> steps means that it never ends.
\<close>

fun resize_probe :: "bucket list \<Rightarrow> nat \<Rightarrow> nat \<Rightarrow> nat \<Rightarrow> nat res" where
  "resize_probe bs cap 0 index = Inl Hang"
| "resize_probe bs cap (Suc n) index =
     (if \<not> index < length bs then Inl Out_of_bounds
      else if bk_key (bs ! index) = 0 then Inr index
      else resize_probe bs cap n ((index + 1) mod cap))"

definition resize_entry :: "hashmap \<Rightarrow> bucket \<Rightarrow> (nat \<times> hashmap) res" where
  "resize_entry m old_entry =
     bindr (resize_probe (hm_buckets m) (hm_capacity m) (hm_capacity m)
              (unat (bk_hash old_entry) mod hm_capacity m)) (\<lambda>i.
     Inr (i, m\<lparr>hm_buckets := (hm_buckets m)[i := old_entry]\<rparr>))"

text \<open>
  The loop of \<open>hashmap_resize\<close>: the pointer \<open>m->last->next\<close> still leads into the old
  array. The fuel is the number of old buckets: a longer list visits a bucket twice.
\<close>

fun resize_loop :: "nat \<Rightarrow> bucket list \<Rightarrow> hashmap \<Rightarrow> hashmap res" where
  "resize_loop 0 old m = Inl Hang"
| "resize_loop (Suc n) old m =
     bindr (last_next m) (\<lambda>current.
     case current of
       None \<Rightarrow> Inl Null_deref
     | Some c \<Rightarrow>
         if \<not> c < length old then Inl Out_of_bounds
         else
           bindr (if bk_key (old ! c) = 0 then Inr (set_last_next (bk_next (old ! c)) m)
                  else bindr (resize_entry m (old ! c)) (\<lambda>(i, m).
                       Inr ((set_last_next (Some i) m)\<lparr>hm_last := Some i\<rparr>))) (\<lambda>m.
           bindr (last_next m) (\<lambda>p. if p = None then Inr m else resize_loop n old m)))"

definition hashmap_resize :: "(nat \<Rightarrow> bool) \<Rightarrow> hashmap \<Rightarrow> hashmap res" where
  "hashmap_resize calloc m =
     (let cap = hm_capacity m * HASHMAP_RESIZE_FACTOR
      in bindr (check Int_overflow (cap < 2 ^ 31)) (\<lambda>_.
         resize_loop (length (hm_buckets m)) (hm_buckets m)
           (m\<lparr>hm_capacity := cap, hm_buckets := calloc_buckets calloc cap, hm_last := None,
              hm_count := hm_count m - hm_tombstone_count m, hm_tombstone_count := 0\<rparr>)))"

text \<open>
  The load test compares in \<open>float\<close>. The capacity is 20 times a power of two, so its
  three quarters are exact; \<open>count + 1\<close> is rounded to 24 significant bits, ties to even.
\<close>

definition float_of_nat :: "nat \<Rightarrow> nat" where
  "float_of_nat n =
     (let u = 2 ^ (floorlog 2 n - 24); q = n div u; r = n mod u
      in if u < 2 * r \<or> (u = 2 * r \<and> odd q) then (q + 1) * u else q * u)"

definition over_load :: "hashmap \<Rightarrow> bool" where
  "over_load m \<longleftrightarrow> 4 * float_of_nat (hm_count m + 1) > 3 * hm_capacity m"

definition make_room :: "(nat \<Rightarrow> bool) \<Rightarrow> hashmap \<Rightarrow> hashmap res" where
  "make_room calloc m = (if over_load m then hashmap_resize calloc m else Inr m)"

section \<open>Finding a bucket\<close>

fun find_probe ::
  "key_heap \<Rightarrow> bucket list \<Rightarrow> nat \<Rightarrow> u64 \<Rightarrow> nat \<Rightarrow> u32 \<Rightarrow> nat \<Rightarrow> nat \<Rightarrow> nat res" where
  "find_probe H bs cap key ksize hash 0 index = Inl Hang"
| "find_probe H bs cap key ksize hash (Suc n) index =
     (if \<not> index < length bs then Inl Out_of_bounds
      else
        let entry = bs ! index; null_key = (bk_key entry = 0); null_value = (bk_value entry = 0)
        in if null_key \<and> null_value then Inr index
           else
             bindr (if \<not> null_key \<and> bk_ksize entry = ksize \<and> bk_hash entry = hash
                    then key_eq H (bk_key entry) key ksize else Inr False) (\<lambda>eq.
             if eq then Inr index
             else find_probe H bs cap key ksize hash n ((index + 1) mod cap)))"

definition find_entry :: "key_heap \<Rightarrow> hashmap \<Rightarrow> u64 \<Rightarrow> nat \<Rightarrow> u32 \<Rightarrow> nat res" where
  "find_entry H m key ksize hash =
     find_probe H (hm_buckets m) (hm_capacity m) key ksize hash (hm_capacity m)
       (unat hash mod hm_capacity m)"

section \<open>Operations\<close>

definition upd_bucket :: "nat \<Rightarrow> (bucket \<Rightarrow> bucket) \<Rightarrow> hashmap \<Rightarrow> hashmap" where
  "upd_bucket i f m = m\<lparr>hm_buckets := (hm_buckets m)[i := f (hm_buckets m ! i)]\<rparr>"

text \<open>The block \<open>if (entry->key == NULL)\<close> up to the fields every variant fills alike.\<close>

definition add_entry :: "nat \<Rightarrow> u64 \<Rightarrow> nat \<Rightarrow> u32 \<Rightarrow> hashmap \<Rightarrow> hashmap" where
  "add_entry i key ksize hash m =
     (let m = set_last_next (Some i) m;
          m = m\<lparr>hm_last := Some i\<rparr>;
          m = upd_bucket i (\<lambda>b. b\<lparr>bk_next := None\<rparr>) m;
          m = m\<lparr>hm_count := hm_count m + 1\<rparr>
      in upd_bucket i (\<lambda>b. b\<lparr>bk_key := key, bk_ksize := ksize, bk_hash := hash\<rparr>) m)"

definition hashmap_set ::
  "(nat \<Rightarrow> bool) \<Rightarrow> key_heap \<Rightarrow> hashmap \<Rightarrow> u64 \<Rightarrow> nat \<Rightarrow> u64 \<Rightarrow> hashmap res" where
  "hashmap_set calloc H m key ksize val =
     bindr (make_room calloc m) (\<lambda>m.
     bindr (key_bytes H key ksize) (\<lambda>bs.
     bindr (find_entry H m key ksize (hash_data bs)) (\<lambda>i.
     let m = (if bk_key (hm_buckets m ! i) = 0 then add_entry i key ksize (hash_data bs) m else m)
     in Inr (upd_bucket i (\<lambda>b. b\<lparr>bk_value := val\<rparr>) m))))"

text \<open>The result is the map, the returned flag and the value left in \<open>*out_in\<close>.\<close>

definition hashmap_get_set ::
  "(nat \<Rightarrow> bool) \<Rightarrow> key_heap \<Rightarrow> hashmap \<Rightarrow> u64 \<Rightarrow> nat \<Rightarrow> u64 \<Rightarrow> (hashmap \<times> bool \<times> u64) res" where
  "hashmap_get_set calloc H m key ksize out_in =
     bindr (make_room calloc m) (\<lambda>m.
     bindr (key_bytes H key ksize) (\<lambda>bs.
     bindr (find_entry H m key ksize (hash_data bs)) (\<lambda>i.
     if bk_key (hm_buckets m ! i) = 0
     then Inr (upd_bucket i (\<lambda>b. b\<lparr>bk_value := out_in\<rparr>) (add_entry i key ksize (hash_data bs) m),
               False, out_in)
     else Inr (m, True, bk_value (hm_buckets m ! i)))))"

text \<open>A callback turns the caller's state \<open>usr\<close> into the next one.\<close>

type_synonym 's callback = "u64 \<Rightarrow> nat \<Rightarrow> u64 \<Rightarrow> 's \<Rightarrow> 's"

definition hashmap_set_free ::
  "(nat \<Rightarrow> bool) \<Rightarrow> key_heap \<Rightarrow> hashmap \<Rightarrow> u64 \<Rightarrow> nat \<Rightarrow> u64 \<Rightarrow> 's callback \<Rightarrow> 's
     \<Rightarrow> (hashmap \<times> 's) res" where
  "hashmap_set_free calloc H m key ksize val c usr =
     bindr (make_room calloc m) (\<lambda>m.
     bindr (key_bytes H key ksize) (\<lambda>bs.
     bindr (find_entry H m key ksize (hash_data bs)) (\<lambda>i.
     let entry = hm_buckets m ! i
     in if bk_key entry = 0
        then Inr (upd_bucket i (\<lambda>b. b\<lparr>bk_value := val\<rparr>) (add_entry i key ksize (hash_data bs) m), usr)
        else Inr (upd_bucket i (\<lambda>b. b\<lparr>bk_key := key, bk_value := val\<rparr>) m,
                  c (bk_key entry) ksize (bk_value entry) usr))))"

definition hashmap_get :: "key_heap \<Rightarrow> hashmap \<Rightarrow> u64 \<Rightarrow> nat \<Rightarrow> (bool \<times> u64) res" where
  "hashmap_get H m key ksize =
     bindr (key_bytes H key ksize) (\<lambda>bs.
     bindr (find_entry H m key ksize (hash_data bs)) (\<lambda>i.
     Inr (bk_key (hm_buckets m ! i) \<noteq> 0, bk_value (hm_buckets m ! i))))"

definition bury :: "nat \<Rightarrow> hashmap \<Rightarrow> hashmap" where
  "bury i m =
     (upd_bucket i (\<lambda>b. b\<lparr>bk_key := 0, bk_value := 0xDEAD\<rparr>) m)
       \<lparr>hm_tombstone_count := hm_tombstone_count m + 1\<rparr>"

definition hashmap_remove :: "key_heap \<Rightarrow> hashmap \<Rightarrow> u64 \<Rightarrow> nat \<Rightarrow> hashmap res" where
  "hashmap_remove H m key ksize =
     bindr (key_bytes H key ksize) (\<lambda>bs.
     bindr (find_entry H m key ksize (hash_data bs)) (\<lambda>i.
     Inr (if bk_key (hm_buckets m ! i) \<noteq> 0 then bury i m else m)))"

definition hashmap_remove_free ::
  "key_heap \<Rightarrow> hashmap \<Rightarrow> u64 \<Rightarrow> nat \<Rightarrow> 's callback \<Rightarrow> 's \<Rightarrow> (hashmap \<times> 's) res" where
  "hashmap_remove_free H m key ksize c usr =
     bindr (key_bytes H key ksize) (\<lambda>bs.
     bindr (find_entry H m key ksize (hash_data bs)) (\<lambda>i.
     let entry = hm_buckets m ! i
     in if bk_key entry \<noteq> 0
        then Inr (bury i m, c (bk_key entry) (bk_ksize entry) (bk_value entry) usr)
        else Inr (m, usr)))"

definition hashmap_size :: "hashmap \<Rightarrow> nat" where
  "hashmap_size m = hm_count m - hm_tombstone_count m"

text \<open>The walk along the list, with its counter \<open>co\<close>.\<close>

function iterate_loop ::
  "bucket list \<Rightarrow> 's callback \<Rightarrow> nat \<Rightarrow> nat option \<Rightarrow> 's \<Rightarrow> 's res" where
  "iterate_loop bs c co current usr =
     (case current of
        None \<Rightarrow> Inr usr
      | Some i \<Rightarrow>
          if \<not> i < length bs then Inl Out_of_bounds
          else
            let b = bs ! i;
                usr = (if bk_key b \<noteq> 0 then c (bk_key b) (bk_ksize b) (bk_value b) usr else usr)
            in if co > 1000 then Inr usr
               else iterate_loop bs c (co + 1) (bk_next b) usr)"
  by pat_completeness auto
termination by (relation "measure (\<lambda>(bs, c, co, cur, usr). 1002 - co)") auto

declare iterate_loop.simps [simp del]

definition hashmap_iterate :: "hashmap \<Rightarrow> 's callback \<Rightarrow> 's \<Rightarrow> 's res" where
  "hashmap_iterate m c usr = iterate_loop (hm_buckets m) c 0 (hm_first m) usr"

end
