(* ===== verification/Hash_Table.thy ===== *)
theory Hash_Table
  imports Hash_Map
begin

text \<open>
  The bucket array of the hash map by itself: where a key may stand in it, that probing finds
  it there, and the list threaded through the buckets.
\<close>

section \<open>Buckets\<close>

definition live :: "bucket \<Rightarrow> bool" where "live b \<longleftrightarrow> bk_key b \<noteq> 0"
definition used :: "bucket \<Rightarrow> bool" where "used b \<longleftrightarrow> bk_key b \<noteq> 0 \<or> bk_value b \<noteq> 0"

text \<open>
  What a bucket's key is taken to be, \<open>ident\<close>: its bytes where the caller keeps them.
\<close>

definition bkey :: "key_heap \<Rightarrow> bucket \<Rightarrow> byte list res" where
  "bkey H b = key_bytes H (bk_key b) (bk_ksize b)"

lemma live_used: "live b \<Longrightarrow> used b"
  by (simp add: live_def used_def)

lemma empty_bucket_unused [simp]: "\<not> live empty_bucket" "\<not> used empty_bucket"
  by (simp_all add: live_def used_def empty_bucket_def)

lemma live_next [simp]: "live (b\<lparr>bk_next := p\<rparr>) = live b"
  and used_next [simp]: "used (b\<lparr>bk_next := p\<rparr>) = used b"
  by (simp_all add: live_def used_def)

lemma key_bytes_length: "key_bytes H p n = Inr k \<Longrightarrow> length k = n"
  by (auto simp: key_bytes_def split: if_splits option.splits)

section \<open>Probing\<close>

definition slot :: "nat \<Rightarrow> nat \<Rightarrow> nat \<Rightarrow> nat" where
  "slot h cap d = (h mod cap + d) mod cap"

lemma slot_0: "slot h cap 0 = h mod cap"
  by (simp add: slot_def)

lemma slot_Suc: "(slot h cap d + 1) mod cap = slot h cap (Suc d)"
  by (simp add: slot_def mod_Suc_eq)

lemma slot_less: "0 < cap \<Longrightarrow> slot h cap d < cap"
  by (simp add: slot_def)

lemma slot_surj:
  assumes "i < cap"
  shows "\<exists>d < cap. slot h cap d = i"
proof -
  let ?a = "h mod cap"
  have a: "?a < cap" using assms by simp
  show ?thesis
  proof (cases "?a \<le> i")
    case True
    then have "slot h cap (i - ?a) = i" using assms by (simp add: slot_def)
    moreover have "i - ?a < cap" using assms by simp
    ultimately show ?thesis by blast
  next
    case False
    then have "slot h cap (i + cap - ?a) = (i + cap) mod cap" using a by (simp add: slot_def)
    then have "slot h cap (i + cap - ?a) = i" using assms by simp
    moreover have "i + cap - ?a < cap" using False a by simp
    ultimately show ?thesis by blast
  qed
qed

text \<open>A loop that stops at the first index with \<open>P\<close> stops at the first one on its path.\<close>

lemma probe_first:
  assumes step: "\<And>n i. i < cap \<Longrightarrow> f (Suc n) i = (if P i then Inr i else f n ((i + 1) mod cap))"
    and "0 < cap" "P (slot h cap d)" "\<And>d'. d' < d \<Longrightarrow> \<not> P (slot h cap d')"
    and "e \<le> d" "d - e < n"
  shows "f n (slot h cap e) = Inr (slot h cap d)"
  using assms(5,6)
proof (induction n arbitrary: e)
  case (Suc n)
  show ?case
  proof (cases "e = d")
    case True
    with assms(3) show ?thesis by (simp add: step slot_less assms(2))
  next
    case False
    with Suc.prems have "Suc e \<le> d" "d - Suc e < n" by auto
    moreover from False Suc.prems assms(4) have "\<not> P (slot h cap e)" by auto
    ultimately show ?thesis
      using Suc.IH [of "Suc e"] slot_Suc [of h cap e] by (simp add: step slot_less assms(2))
  qed
qed simp

lemma probe_finds:
  assumes step: "\<And>n i. i < cap \<Longrightarrow> f (Suc n) i = (if P i then Inr i else f n ((i + 1) mod cap))"
    and i: "i < cap" "P i"
  obtains d where "d < cap" "f cap (h mod cap) = Inr (slot h cap d)" "P (slot h cap d)"
    "\<And>d'. d' < d \<Longrightarrow> \<not> P (slot h cap d')"
proof -
  have pos: "0 < cap" using i by simp
  let ?d = "LEAST d. P (slot h cap d)"
  obtain e where e: "e < cap" "P (slot h cap e)" using slot_surj [OF i(1), of h] i(2) by blast
  have d: "P (slot h cap ?d)" "\<And>d'. d' < ?d \<Longrightarrow> \<not> P (slot h cap d')"
    by (rule LeastI [of _ e], rule e(2)) (use not_less_Least in blast)
  have "?d \<le> e" by (rule Least_le) (rule e(2))
  with e(1) have lt: "?d < cap" by simp
  have "f cap (slot h cap 0) = Inr (slot h cap ?d)"
    by (rule probe_first [of cap f P, OF step pos d]) (use lt in auto)
  with that lt d show thesis by (simp add: slot_0)
qed

definition on_path :: "bucket list \<Rightarrow> nat \<Rightarrow> nat \<Rightarrow> nat \<Rightarrow> bool" where
  "on_path bs cap h i \<longleftrightarrow> (\<exists>d < cap. i = slot h cap d \<and> (\<forall>d' < d. used (bs ! slot h cap d')))"

lemma on_path_mono:
  assumes "on_path bs cap h i" "\<And>j. j < cap \<Longrightarrow> used (bs ! j) \<Longrightarrow> used (bs' ! j)"
  shows "on_path bs' cap h i"
  using assms slot_less [of cap h] unfolding on_path_def by (metis not_less_zero gr0I)

section \<open>The array\<close>

text \<open>
  Every live bucket holds a readable key and its hash, stands where probing for it leads, and
  no other live bucket holds the same key.
\<close>

definition bucket_ok ::
  "(bucket \<Rightarrow> 'k res) \<Rightarrow> ('k \<Rightarrow> u32) \<Rightarrow> bucket list \<Rightarrow> nat \<Rightarrow> nat \<Rightarrow> bool" where
  "bucket_ok ident hk bs cap i \<longleftrightarrow> (\<exists>k. ident (bs ! i) = Inr k \<and> bk_hash (bs ! i) = hk k \<and>
     on_path bs cap (unat (hk k)) i)"

definition table_ok ::
  "(bucket \<Rightarrow> 'k res) \<Rightarrow> ('k \<Rightarrow> u32) \<Rightarrow> bucket list \<Rightarrow> nat \<Rightarrow> bool" where
  "table_ok ident hk bs cap \<longleftrightarrow> length bs = cap \<and> (\<forall>i < cap. live (bs ! i) \<longrightarrow> bucket_ok ident hk bs cap i) \<and>
     (\<forall>i < cap. \<forall>j < cap. live (bs ! i) \<longrightarrow> live (bs ! j) \<longrightarrow> ident (bs ! i) = ident (bs ! j) \<longrightarrow> i = j)"

lemma table_ok_length: "table_ok ident hk bs cap \<Longrightarrow> length bs = cap"
  by (simp add: table_ok_def)

lemma table_okD:
  assumes "table_ok ident hk bs cap" "i < cap" "live (bs ! i)"
  obtains k where "ident (bs ! i) = Inr k" "bk_hash (bs ! i) = hk k"
    "on_path bs cap (unat (hk k)) i"
  using assms by (auto simp: table_ok_def bucket_ok_def)

lemma table_ok_unique:
  "table_ok ident hk bs cap \<Longrightarrow> i < cap \<Longrightarrow> j < cap \<Longrightarrow> live (bs ! i) \<Longrightarrow> live (bs ! j) \<Longrightarrow>
     ident (bs ! i) = ident (bs ! j) \<Longrightarrow> i = j"
  by (simp add: table_ok_def)

lemma table_ok_empty: "table_ok ident hk (replicate cap empty_bucket) cap"
  by (simp add: table_ok_def)

text \<open>Links do not matter.\<close>

definition same_data :: "bucket list \<Rightarrow> bucket list \<Rightarrow> bool" where
  "same_data bs bs' \<longleftrightarrow> map (\<lambda>b. b\<lparr>bk_next := None\<rparr>) bs = map (\<lambda>b. b\<lparr>bk_next := None\<rparr>) bs'"

lemma same_data_length: "same_data bs bs' \<Longrightarrow> length bs = length bs'"
  unfolding same_data_def by (metis length_map)

lemma same_data_nth:
  assumes "same_data bs bs'" "i < length bs"
  shows "bk_key (bs' ! i) = bk_key (bs ! i)" "bk_ksize (bs' ! i) = bk_ksize (bs ! i)"
    "bk_hash (bs' ! i) = bk_hash (bs ! i)" "bk_value (bs' ! i) = bk_value (bs ! i)"
proof -
  have "i < length bs'" using assms same_data_length by metis
  then have "(bs ! i)\<lparr>bk_next := None\<rparr> = (bs' ! i)\<lparr>bk_next := None\<rparr>"
    using assms unfolding same_data_def by (metis nth_map)
  then show "bk_key (bs' ! i) = bk_key (bs ! i)" "bk_ksize (bs' ! i) = bk_ksize (bs ! i)"
    "bk_hash (bs' ! i) = bk_hash (bs ! i)" "bk_value (bs' ! i) = bk_value (bs ! i)"
    by (cases "bs ! i"; cases "bs' ! i"; simp)+
qed

lemma same_data_pred:
  assumes "same_data bs bs'" "i < length bs"
  shows "live (bs' ! i) = live (bs ! i)" "used (bs' ! i) = used (bs ! i)"
  using same_data_nth [OF assms] by (simp_all add: live_def used_def)

lemma same_data_next: "same_data bs (bs[i := (bs ! i)\<lparr>bk_next := p\<rparr>])"
proof -
  have "(map (\<lambda>b. b\<lparr>bk_next := None\<rparr>) bs)[i := ((bs ! i)\<lparr>bk_next := None\<rparr>)] = map (\<lambda>b. b\<lparr>bk_next := None\<rparr>) bs"
    by (cases "i < length bs") (simp_all flip: nth_map add: list_update_beyond)
  then show ?thesis by (simp add: same_data_def map_update)
qed

lemma same_data_refl [simp]: "same_data bs bs"
  by (simp add: same_data_def)

lemma same_data_trans [trans]: "same_data a b \<Longrightarrow> same_data b c \<Longrightarrow> same_data a c"
  by (simp add: same_data_def)

lemma same_data_update: "same_data a b \<Longrightarrow> same_data (a[i := x]) (b[i := x])"
  by (simp add: same_data_def map_update)

section \<open>Keys behind buckets\<close>

text \<open>
  What the table needs of the keys in it: \<open>ident\<close> says which key a bucket stands for,
  \<open>hk\<close> is that key's hash, and \<open>given key ksize k\<close> that the caller's pointer and
  size denote the key \<open>k\<close>. The comparison \<open>find_entry\<close> makes has to agree with it.
\<close>

locale key_table =
  fixes H :: key_heap
    and ident :: "bucket \<Rightarrow> 'k res"
    and hk :: "'k \<Rightarrow> u32"
    and given :: "u64 \<Rightarrow> nat \<Rightarrow> 'k \<Rightarrow> bool"
  assumes ident_data: "bk_key b' = bk_key b \<Longrightarrow> bk_ksize b' = bk_ksize b \<Longrightarrow> bk_hash b' = bk_hash b \<Longrightarrow>
      ident b' = ident b"
    and ident_given: "given key ksize k \<Longrightarrow> key \<noteq> 0 \<Longrightarrow> bk_key b = key \<Longrightarrow> bk_ksize b = ksize \<Longrightarrow>
      bk_hash b = hk k \<Longrightarrow> ident b = Inr k"
    and given_size: "given key ksize k \<Longrightarrow> ident b = Inr k \<Longrightarrow> bk_ksize b = ksize"
    and given_bytes: "given key ksize k \<Longrightarrow> \<exists>bs. key_bytes H key ksize = Inr bs \<and> hash_data bs = hk k"
    and key_eq_ident: "given key ksize k \<Longrightarrow> ident b = Inr k' \<Longrightarrow> bk_hash b = hk k' \<Longrightarrow> hk k' = hk k \<Longrightarrow>
      bk_ksize b = ksize \<Longrightarrow> key_eq H (bk_key b) key ksize = Inr (k' = k)"
begin

lemma ident_next [simp]: "ident (b\<lparr>bk_next := p\<rparr>) = ident b"
  by (rule ident_data) simp_all

lemma same_data_ident: "same_data bs bs' \<Longrightarrow> i < length bs \<Longrightarrow> ident (bs' ! i) = ident (bs ! i)"
  by (rule ident_data) (simp_all add: same_data_nth)

lemma table_ok_same_data:
  assumes "table_ok ident hk bs cap" "same_data bs bs'"
  shows "table_ok ident hk bs' cap"
proof -
  note len = table_ok_length [OF assms(1)]
  have "bucket_ok ident hk bs' cap i" if i: "i < cap" "live (bs' ! i)" for i
  proof -
    from i have "live (bs ! i)" using same_data_pred [OF assms(2)] len by simp
    with assms(1) i(1) obtain k where k: "ident (bs ! i) = Inr k" "bk_hash (bs ! i) = hk k"
      "on_path bs cap (unat (hk k)) i" by (rule table_okD)
    from k(3) have "on_path bs' cap (unat (hk k)) i"
      by (rule on_path_mono) (use same_data_pred [OF assms(2)] len in simp)
    with k show ?thesis
      using same_data_nth [OF assms(2)] same_data_ident [OF assms(2)] i len by (auto simp: bucket_ok_def)
  qed
  moreover have "length bs' = cap" using len same_data_length [OF assms(2)] by simp
  ultimately show ?thesis
    using table_ok_unique [OF assms(1)] same_data_pred [OF assms(2)] same_data_ident [OF assms(2)] len
    by (auto simp: table_ok_def)
qed

text \<open>Changing one bucket: filling an unused one, rewriting a live one, burying a live one.\<close>

lemma table_ok_fill:
  assumes ok: "table_ok ident hk bs cap" and i: "i < cap" "\<not> used (bs ! i)"
    and b: "live b" "ident b = Inr k" "bk_hash b = hk k"
    and path: "on_path bs cap (unat (hk k)) i"
    and new: "\<And>j. j < cap \<Longrightarrow> live (bs ! j) \<Longrightarrow> ident (bs ! j) \<noteq> Inr k"
  shows "table_ok ident hk (bs[i := b]) cap"
proof -
  let ?bs = "bs[i := b]"
  note len = table_ok_length [OF ok]
  have nth: "?bs ! j = (if j = i then b else bs ! j)" if "j < cap" for j
    using that len by (simp add: nth_list_update)
  have mono: "on_path bs cap h j \<Longrightarrow> on_path ?bs cap h j" for h j
    by (rule on_path_mono) (use i nth live_used [OF b(1)] in \<open>auto split: if_splits\<close>)
  have "bucket_ok ident hk ?bs cap j" if j: "j < cap" "live (?bs ! j)" for j
  proof (cases "j = i")
    case True
    with b mono [OF path] len i show ?thesis by (auto simp: bucket_ok_def)
  next
    case False
    with j nth have "live (bs ! j)" by simp
    with ok j(1) obtain k' where "ident (bs ! j) = Inr k'" "bk_hash (bs ! j) = hk k'"
      "on_path bs cap (unat (hk k')) j" by (rule table_okD)
    with False nth [OF j(1)] mono show ?thesis by (auto simp: bucket_ok_def)
  qed
  moreover have "j = j'" if "j < cap" "j' < cap" "live (?bs ! j)" "live (?bs ! j')"
    "ident (?bs ! j) = ident (?bs ! j')" for j j'
  proof -
    have "ident (bs ! j') \<noteq> Inr k" if "j' \<noteq> i" using that new nth \<open>j' < cap\<close> \<open>live (?bs ! j')\<close> by simp
    moreover have "ident (bs ! j) \<noteq> Inr k" if "j \<noteq> i" using that new nth \<open>j < cap\<close> \<open>live (?bs ! j)\<close> by simp
    ultimately show ?thesis
      using that nth [of j] nth [of j'] b(2) table_ok_unique [OF ok, of j j'] by (cases "j = i"; cases "j' = i") auto
  qed
  ultimately show ?thesis using len by (simp add: table_ok_def)
qed

lemma table_ok_change:
  assumes ok: "table_ok ident hk bs cap" and i: "i < cap"
    and b: "used (bs ! i) \<Longrightarrow> used b"
      "live b \<Longrightarrow> live (bs ! i) \<and> ident b = ident (bs ! i) \<and> bk_hash b = bk_hash (bs ! i)"
  shows "table_ok ident hk (bs[i := b]) cap"
proof -
  let ?bs = "bs[i := b]"
  note len = table_ok_length [OF ok]
  have nth: "?bs ! j = (if j = i then b else bs ! j)" if "j < cap" for j
    using that len by (simp add: nth_list_update)
  have old: "live (bs ! j) \<and> ident (?bs ! j) = ident (bs ! j) \<and> bk_hash (?bs ! j) = bk_hash (bs ! j)"
    if "j < cap" "live (?bs ! j)" for j
    using that nth b(2) by (auto split: if_splits)
  have "bucket_ok ident hk ?bs cap j" if j: "j < cap" "live (?bs ! j)" for j
  proof -
    from ok j(1) old [OF j, THEN conjunct1] obtain k where k: "ident (bs ! j) = Inr k"
      "bk_hash (bs ! j) = hk k" "on_path bs cap (unat (hk k)) j" by (rule table_okD)
    from k(3) have "on_path ?bs cap (unat (hk k)) j"
      by (rule on_path_mono) (use nth b(1) in \<open>auto split: if_splits\<close>)
    with k old [OF j] show ?thesis by (auto simp: bucket_ok_def)
  qed
  moreover have "j = j'" if "j < cap" "j' < cap" "live (?bs ! j)" "live (?bs ! j')"
    "ident (?bs ! j) = ident (?bs ! j')" for j j'
    using that old table_ok_unique [OF ok, of j j'] by metis
  ultimately show ?thesis using len by (simp add: table_ok_def)
qed

section \<open>Looking up\<close>

text \<open>What one step of \<open>find_entry\<close> decides, for a readable key and its hash.\<close>

lemma find_probe_step:
  assumes ok: "table_ok ident hk bs cap" and k: "given key ksize k" and i: "i < cap"
  shows "find_probe H bs cap key ksize (hk k) (Suc n) i =
    (if \<not> used (bs ! i) \<or> (live (bs ! i) \<and> ident (bs ! i) = Inr k) then Inr i
     else find_probe H bs cap key ksize (hk k) n ((i + 1) mod cap))"
proof (cases "live (bs ! i)")
  case True
  with ok i obtain k' where k': "ident (bs ! i) = Inr k'" "bk_hash (bs ! i) = hk k'"
    by (rule table_okD)
  have eq: "key_eq H (bk_key (bs ! i)) key ksize = Inr (k' = k)"
    if "bk_ksize (bs ! i) = ksize" "hk k' = hk k"
    using key_eq_ident [OF k k' that(2,1)] .
  have size: "bk_ksize (bs ! i) = ksize" if "k' = k" using given_size [OF k] k'(1) that by simp
  from True live_used [OF True] i table_ok_length [OF ok] k' eq size show ?thesis
    by (auto simp: live_def Let_def)
next
  case False
  with i table_ok_length [OF ok] show ?thesis by (auto simp: live_def used_def Let_def)
qed

lemma find_probe_spec:
  assumes ok: "table_ok ident hk bs cap" and k: "given key ksize k"
    and room: "\<exists>j < cap. \<not> used (bs ! j)"
  obtains i where "find_probe H bs cap key ksize (hk k) cap (unat (hk k) mod cap) = Inr i"
    "i < cap" "live (bs ! i)" "ident (bs ! i) = Inr k"
  | i where "find_probe H bs cap key ksize (hk k) cap (unat (hk k) mod cap) = Inr i"
    "i < cap" "\<not> used (bs ! i)" "on_path bs cap (unat (hk k)) i"
    "\<And>j. j < cap \<Longrightarrow> live (bs ! j) \<Longrightarrow> ident (bs ! j) \<noteq> Inr k"
proof -
  let ?h = "unat (hk k)"
  let ?P = "\<lambda>i. \<not> used (bs ! i) \<or> (live (bs ! i) \<and> ident (bs ! i) = Inr k)"
  let ?f = "find_probe H bs cap key ksize (hk k)"
  from room obtain j0 where j0: "j0 < cap" "?P j0" by blast
  obtain d where d: "d < cap" "?f cap (?h mod cap) = Inr (slot ?h cap d)" "?P (slot ?h cap d)"
    and first: "\<And>d'. d' < d \<Longrightarrow> \<not> ?P (slot ?h cap d')"
    by (rule probe_finds [of cap ?f ?P, OF find_probe_step [OF ok k] j0]) blast+
  have lt: "slot ?h cap d < cap" using slot_less j0(1) by simp
  show thesis
  proof (cases "used (bs ! slot ?h cap d)")
    case True
    with d(3) lt d(2) that(1) show thesis by blast
  next
    case False
    have path: "on_path bs cap ?h (slot ?h cap d)" using d(1) first by (auto simp: on_path_def)
    have "ident (bs ! j) \<noteq> Inr k" if j: "j < cap" "live (bs ! j)" for j
    proof
      assume "ident (bs ! j) = Inr k"
      moreover from ok j obtain k' where "ident (bs ! j) = Inr k'" "on_path bs cap (unat (hk k')) j"
        by (rule table_okD)
      ultimately obtain e where e: "j = slot ?h cap e" "\<And>d'. d' < e \<Longrightarrow> used (bs ! slot ?h cap d')"
        and P: "?P j" using j(2) by (auto simp: on_path_def)
      from P first [of e] e(1) have "d \<le> e" by (meson leI)
      moreover from e(2) [of d] False have "\<not> d < e" by blast
      ultimately show False using False e(1) j(2) live_used by auto
    qed
    with that(2) d(2) lt False path show thesis by blast
  qed
qed

end

section \<open>The list through the buckets\<close>

text \<open>\<open>lseg bs p is q\<close>: from \<open>p\<close>, the links lead through the buckets \<open>is\<close> to \<open>q\<close>.\<close>

fun lseg :: "bucket list \<Rightarrow> nat option \<Rightarrow> nat list \<Rightarrow> nat option \<Rightarrow> bool" where
  "lseg bs p [] q = (p = q)"
| "lseg bs p (i # is) q = (p = Some i \<and> i < length bs \<and> lseg bs (bk_next (bs ! i)) is q)"

lemma lseg_append: "lseg bs p (is @ js) q \<longleftrightarrow> (\<exists>r. lseg bs p is r \<and> lseg bs r js q)"
  by (induction "is" arbitrary: p) auto

lemma lseg_bounds: "lseg bs p is q \<Longrightarrow> i \<in> set is \<Longrightarrow> i < length bs"
  by (induction "is" arbitrary: p) auto

lemma lseg_update_other: "i \<notin> set is \<Longrightarrow> lseg (bs[i := b]) p is q = lseg bs p is q"
  by (induction "is" arbitrary: p) auto

lemma lseg_update_same_next:
  assumes "bk_next b = bk_next (bs ! i)"
  shows "lseg (bs[i := b]) p is q = lseg bs p is q"
proof (induction "is" arbitrary: p)
  case (Cons j js)
  have "bk_next (bs[i := b] ! j) = bk_next (bs ! j)" if "j < length bs"
    by (cases "i = j") (use that in \<open>simp_all add: assms\<close>)
  with Cons.IH show ?case by (simp cong: conj_cong)
qed simp

lemma lseg_relink:
  assumes "lseg bs p (is @ [l]) q" "distinct (is @ [l])"
  shows "lseg (bs[l := (bs ! l)\<lparr>bk_next := r\<rparr>]) p (is @ [l]) r"
  using assms by (auto simp: lseg_append lseg_update_other)

lemma lseg_unique: "lseg bs p is None \<Longrightarrow> lseg bs p js None \<Longrightarrow> is = js"
proof (induction "is" arbitrary: p js)
  case (Cons i "is")
  then show ?case by (cases js) auto
next
  case Nil
  then show ?case by (cases js) auto
qed

text \<open>The list from \<open>p\<close>, computed.\<close>

fun follow :: "nat \<Rightarrow> bucket list \<Rightarrow> nat option \<Rightarrow> nat list" where
  "follow 0 bs p = []"
| "follow (Suc n) bs p = (case p of None \<Rightarrow> [] | Some i \<Rightarrow> i # follow n bs (bk_next (bs ! i)))"

lemma follow_lseg: "lseg bs p is None \<Longrightarrow> length is \<le> n \<Longrightarrow> follow n bs p = is"
proof (induction "is" arbitrary: n p)
  case (Cons i "is")
  then show ?case by (cases n) auto
next
  case Nil
  then show ?case by (cases n) auto
qed

lemma distinct_bounded_length: "distinct is \<Longrightarrow> (\<And>i. i \<in> set is \<Longrightarrow> i < n) \<Longrightarrow> length is \<le> n"
  using card_mono [of "{..<n}" "set is"] distinct_card [of "is"] by auto

end
