(* ===== verification/Hash_Invariant.thy ===== *)
theory Hash_Invariant
  imports Hash_Table "HOL-Library.AList"
begin

text \<open>
  The invariant of the hash map, the association list it stands for (the live entries in the
  order of insertion), and how filling, rewriting and burying one bucket act on both.
\<close>

section \<open>What a map stands for\<close>

definition entry :: "(bucket \<Rightarrow> 'k res) \<Rightarrow> bucket \<Rightarrow> 'k \<times> u64" where
  "entry ident b = (projr (ident b), bk_value b)"

definition seq_entries ::
  "(bucket \<Rightarrow> 'k res) \<Rightarrow> bucket list \<Rightarrow> nat list \<Rightarrow> ('k \<times> u64) list" where
  "seq_entries ident bs is = map (\<lambda>i. entry ident (bs ! i)) (filter (\<lambda>i. live (bs ! i)) is)"

definition hm_order :: "hashmap \<Rightarrow> nat list" where
  "hm_order m = follow (length (hm_buckets m)) (hm_buckets m) (hm_first m)"

definition hm_entries :: "(bucket \<Rightarrow> 'k res) \<Rightarrow> hashmap \<Rightarrow> ('k \<times> u64) list" where
  "hm_entries ident m = seq_entries ident (hm_buckets m) (hm_order m)"

text \<open>The list runs exactly through the buckets in use, and \<open>last\<close> is its end.\<close>

definition hm_chain :: "hashmap \<Rightarrow> nat list \<Rightarrow> bool" where
  "hm_chain m is \<longleftrightarrow> lseg (hm_buckets m) (hm_first m) is None \<and> distinct is \<and>
     hm_last m = (if is = [] then None else Some (last is)) \<and>
     set is = {i. i < length (hm_buckets m) \<and> used (hm_buckets m ! i)}"

definition tombs :: "bucket list \<Rightarrow> nat list \<Rightarrow> nat" where
  "tombs bs is = length (filter (\<lambda>i. \<not> live (bs ! i)) is)"

definition hm_inv :: "(bucket \<Rightarrow> 'k res) \<Rightarrow> ('k \<Rightarrow> u32) \<Rightarrow> hashmap \<Rightarrow> bool" where
  "hm_inv ident hk m \<longleftrightarrow> table_ok ident hk (hm_buckets m) (hm_capacity m) \<and> hm_chain m (hm_order m) \<and>
     hm_count m = length (hm_order m) \<and> hm_tombstone_count m = tombs (hm_buckets m) (hm_order m) \<and>
     hm_count m < hm_capacity m \<and> (\<exists>k. hm_capacity m = 20 * 2 ^ k)"

lemma hm_order_chain: "hm_chain m is \<Longrightarrow> hm_order m = is"
  unfolding hm_chain_def hm_order_def
  by (rule follow_lseg) (auto intro!: distinct_bounded_length)

lemma hm_invI:
  assumes "table_ok ident hk (hm_buckets m) (hm_capacity m)" "hm_chain m is" "hm_count m = length is"
    "hm_tombstone_count m = tombs (hm_buckets m) is" "hm_count m < hm_capacity m"
    "\<exists>k. hm_capacity m = 20 * 2 ^ k"
  shows "hm_inv ident hk m"
  using assms by (simp add: hm_inv_def hm_order_chain)

lemma seq_entries_append: "seq_entries ident bs (is @ js) = seq_entries ident bs is @ seq_entries ident bs js"
  by (simp add: seq_entries_def)

lemma tombs_append: "tombs bs (is @ js) = tombs bs is + tombs bs js"
  by (simp add: tombs_def)

lemma tombs_cong: "(\<And>i. i \<in> set is \<Longrightarrow> live (bs' ! i) = live (bs ! i)) \<Longrightarrow> tombs bs' is = tombs bs is"
  unfolding tombs_def by (metis (mono_tags, lifting) filter_cong)

text \<open>A map with room has an unused bucket, so that probing ends.\<close>

lemma hm_inv_unused:
  assumes "hm_inv ident hk m"
  shows "\<exists>j < hm_capacity m. \<not> used (hm_buckets m ! j)"
proof (rule ccontr)
  assume "\<not> ?thesis"
  moreover have "length (hm_buckets m) = hm_capacity m" using assms by (simp add: hm_inv_def table_ok_def)
  ultimately have "set (hm_order m) = {..<hm_capacity m}" and "distinct (hm_order m)"
    using assms by (auto simp: hm_inv_def hm_chain_def)
  with assms show False using distinct_card [of "hm_order m"] by (simp add: hm_inv_def)
qed

lemma hm_inv_fields:
  assumes "hm_inv ident hk m"
  shows "table_ok ident hk (hm_buckets m) (hm_capacity m)" "hm_chain m (hm_order m)"
    "length (hm_buckets m) = hm_capacity m" "hm_count m = length (hm_order m)"
    "hm_tombstone_count m = tombs (hm_buckets m) (hm_order m)" "hm_count m < hm_capacity m"
  using assms by (simp_all add: hm_inv_def table_ok_def)

lemma hm_order_bound: "hm_inv ident hk m \<Longrightarrow> i \<in> set (hm_order m) \<longleftrightarrow> i < hm_capacity m \<and> used (hm_buckets m ! i)"
  using hm_inv_fields(2,3) [of ident hk m] by (auto simp: hm_chain_def)

text \<open>Keys of the association list are those of the live buckets, each once.\<close>

lemma hm_entries_keys:
  assumes "hm_inv ident hk m"
  shows "k \<in> fst ` set (hm_entries ident m) \<longleftrightarrow>
    (\<exists>i < hm_capacity m. live (hm_buckets m ! i) \<and> ident (hm_buckets m ! i) = Inr k)"
proof -
  let ?bs = "hm_buckets m"
  note ok = hm_inv_fields(1) [OF assms]
  have fst: "fst (entry ident (?bs ! i)) = k \<longleftrightarrow> ident (?bs ! i) = Inr k"
    if i: "i < hm_capacity m" "live (?bs ! i)" for i
    using ok i by (rule table_okD) (simp add: entry_def)
  have "k \<in> fst ` set (hm_entries ident m) \<longleftrightarrow>
      (\<exists>i. i < hm_capacity m \<and> used (?bs ! i) \<and> live (?bs ! i) \<and> fst (entry ident (?bs ! i)) = k)"
    by (auto simp: hm_entries_def seq_entries_def image_iff hm_order_bound [OF assms])
  then show ?thesis using fst live_used by blast
qed

lemma hm_entries_distinct:
  assumes "hm_inv ident hk m"
  shows "distinct (map fst (hm_entries ident m))"
proof -
  let ?bs = "hm_buckets m" let ?is = "filter (\<lambda>i. live (?bs ! i)) (hm_order m)"
  note ok = hm_inv_fields(1) [OF assms]
  have "inj_on (\<lambda>i. fst (entry ident (?bs ! i))) (set ?is)"
  proof (rule inj_onI)
    fix i j assume ij: "i \<in> set ?is" "j \<in> set ?is" "fst (entry ident (?bs ! i)) = fst (entry ident (?bs ! j))"
    then have b: "i < hm_capacity m" "j < hm_capacity m" "live (?bs ! i)" "live (?bs ! j)"
      by (auto simp: hm_order_bound [OF assms])
    obtain k where "ident (?bs ! i) = Inr k" using ok b(1,3) by (rule table_okD)
    moreover obtain k' where "ident (?bs ! j) = Inr k'" using ok b(2,4) by (rule table_okD)
    ultimately have "ident (?bs ! i) = ident (?bs ! j)" using ij(3) by (simp add: entry_def)
    with table_ok_unique [OF ok b] show "i = j" by blast
  qed
  moreover have "distinct ?is" using hm_inv_fields(2) [OF assms] by (simp add: hm_chain_def)
  ultimately show ?thesis
    by (simp add: hm_entries_def seq_entries_def o_def distinct_map)
qed

lemma hm_entries_lookup:
  assumes inv: "hm_inv ident hk m" and i: "i < hm_capacity m" "live (hm_buckets m ! i)" "ident (hm_buckets m ! i) = Inr k"
  shows "map_of (hm_entries ident m) k = Some (bk_value (hm_buckets m ! i))"
proof -
  have "i \<in> set (hm_order m)" using i live_used by (simp add: hm_order_bound [OF inv])
  with i have "(k, bk_value (hm_buckets m ! i)) \<in> set (hm_entries ident m)"
    by (force simp: hm_entries_def seq_entries_def entry_def)
  with hm_entries_distinct [OF inv] show ?thesis by (simp add: map_of_is_SomeI)
qed

lemma hm_entries_lookup_None:
  assumes inv: "hm_inv ident hk m" and "\<And>j. j < hm_capacity m \<Longrightarrow> live (hm_buckets m ! j) \<Longrightarrow> ident (hm_buckets m ! j) \<noteq> Inr k"
  shows "map_of (hm_entries ident m) k = None"
  using hm_entries_keys [OF inv, of k] assms(2) by (auto simp: map_of_eq_None_iff)

lemma hm_size_entries: "hm_inv ident hk m \<Longrightarrow> hashmap_size m = length (hm_entries ident m)"
  using sum_length_filter_compl [of "\<lambda>i. live (hm_buckets m ! i)" "hm_order m"]
  by (simp add: hashmap_size_def hm_inv_def hm_entries_def seq_entries_def tombs_def)

section \<open>Updating an association list\<close>

lemma alist_update_new: "k \<notin> fst ` set xs \<Longrightarrow> AList.update k v xs = xs @ [(k, v)]"
  by (induction xs) auto

lemma alist_update_map:
  "k \<in> fst ` set xs \<Longrightarrow> distinct (map fst xs) \<Longrightarrow>
     AList.update k v xs = map (\<lambda>p. if fst p = k then (k, v) else p) xs"
proof (induction xs)
  case (Cons x xs)
  have "map (\<lambda>p. if fst p = k then (k, v) else p) ys = ys" if "k \<notin> fst ` set ys" for ys
    using that by (induction ys) auto
  with Cons show ?case by (cases x) auto
qed simp

lemma alist_delete_filter: "AList.delete k xs = filter (\<lambda>p. fst p \<noteq> k) xs"
  by (auto simp: AList.delete_eq case_prod_beta intro!: filter_cong)

section \<open>Changing one bucket\<close>

definition fill :: "nat \<Rightarrow> u64 \<Rightarrow> nat \<Rightarrow> u32 \<Rightarrow> u64 \<Rightarrow> hashmap \<Rightarrow> hashmap" where
  "fill i key ksize h v m = upd_bucket i (\<lambda>b. b\<lparr>bk_value := v\<rparr>) (add_entry i key ksize h m)"

definition new_bucket :: "u64 \<Rightarrow> nat \<Rightarrow> u32 \<Rightarrow> u64 \<Rightarrow> bucket" where
  "new_bucket key ksize h v = \<lparr>bk_next = None, bk_key = key, bk_ksize = ksize, bk_hash = h, bk_value = v\<rparr>"

definition linked :: "nat \<Rightarrow> hashmap \<Rightarrow> bucket list" where
  "linked i m = hm_buckets (set_last_next (Some i) m)"

lemma linked_cases: "linked i m = (case hm_last m of None \<Rightarrow> hm_buckets m
    | Some l \<Rightarrow> (hm_buckets m)[l := (hm_buckets m ! l)\<lparr>bk_next := Some i\<rparr>])"
  by (simp add: linked_def set_last_next_def split: option.splits)

lemma linked_same_data: "same_data (hm_buckets m) (linked i m)"
  by (simp add: linked_cases same_data_next split: option.splits)

lemma length_linked [simp]: "length (linked i m) = length (hm_buckets m)"
  by (simp add: linked_cases split: option.splits)

lemma bucket_overwrite:
  "b\<lparr>bk_next := p, bk_key := k, bk_ksize := n, bk_hash := h, bk_value := v\<rparr> =
     \<lparr>bk_next = p, bk_key = k, bk_ksize = n, bk_hash = h, bk_value = v\<rparr>"
  by (cases b) simp

lemma fill_fields:
  assumes "i < length (hm_buckets m)"
  shows "hm_buckets (fill i key ksize h v m) = (linked i m)[i := new_bucket key ksize h v]"
    "hm_count (fill i key ksize h v m) = hm_count m + 1"
    "hm_capacity (fill i key ksize h v m) = hm_capacity m"
    "hm_tombstone_count (fill i key ksize h v m) = hm_tombstone_count m"
    "hm_last (fill i key ksize h v m) = Some i"
    "hm_first (fill i key ksize h v m) = (if hm_last m = None then Some i else hm_first m)"
  using assms
  by (simp_all add: fill_def add_entry_def upd_bucket_def Let_def linked_def set_last_next_def new_bucket_def
        bucket_overwrite split: option.splits)

text \<open>The list is extended by the new bucket, and nothing else moves.\<close>

lemma fill_chain:
  assumes ch: "hm_chain m is" and i: "i < length (hm_buckets m)" "\<not> used (hm_buckets m ! i)" and key: "key \<noteq> 0"
  shows "hm_chain (fill i key ksize h v m) (is @ [i])"
proof -
  let ?b = "new_bucket key ksize h v" let ?m = "fill i key ksize h v m"
  have i_new: "i \<notin> set is" using ch i by (simp add: hm_chain_def)
  have b: "bk_next ?b = None" "used ?b" using key by (simp_all add: new_bucket_def used_def)
  have seg: "lseg (linked i m) (hm_first ?m) is (Some i)"
  proof (cases "is" rule: rev_cases)
    case Nil
    with ch i show ?thesis by (simp add: hm_chain_def fill_fields)
  next
    case (snoc xs l)
    with ch have "hm_last m = Some l" by (simp add: hm_chain_def)
    moreover from this snoc ch lseg_relink [of "hm_buckets m" "hm_first m" xs l None "Some i"]
    have "lseg ((hm_buckets m)[l := (hm_buckets m ! l)\<lparr>bk_next := Some i\<rparr>]) (hm_first m) is (Some i)"
      by (simp add: hm_chain_def)
    ultimately show ?thesis using i by (simp add: linked_cases fill_fields)
  qed
  have "lseg (hm_buckets ?m) (hm_first ?m) (is @ [i]) None"
    using seg i i_new b by (simp add: lseg_append lseg_update_other fill_fields)
  moreover have "set (is @ [i]) = {j. j < length (hm_buckets ?m) \<and> used (hm_buckets ?m ! j)}"
    using ch i b same_data_pred(2) [OF linked_same_data, of _ m i]
    by (auto simp: hm_chain_def fill_fields nth_list_update)
  ultimately show ?thesis using ch i i_new by (simp add: hm_chain_def fill_fields)
qed

lemma upd_bucket_fields [simp]:
  "hm_buckets (upd_bucket i f m) = (hm_buckets m)[i := f (hm_buckets m ! i)]"
  "hm_count (upd_bucket i f m) = hm_count m" "hm_capacity (upd_bucket i f m) = hm_capacity m"
  "hm_tombstone_count (upd_bucket i f m) = hm_tombstone_count m"
  "hm_first (upd_bucket i f m) = hm_first m" "hm_last (upd_bucket i f m) = hm_last m"
  by (simp_all add: upd_bucket_def)

lemma chain_change:
  assumes "hm_chain m is" and "bk_next b = bk_next (hm_buckets m ! i)" "used b = used (hm_buckets m ! i)"
    and "hm_buckets m' = (hm_buckets m)[i := b]" "hm_first m' = hm_first m" "hm_last m' = hm_last m"
  shows "hm_chain m' is"
proof -
  have "used (hm_buckets m' ! j) = used (hm_buckets m ! j)" for j
    using assms(3,4) by (cases "j = i \<and> i < length (hm_buckets m)") (auto simp: list_update_beyond)
  moreover have "lseg (hm_buckets m') (hm_first m') is None"
    unfolding assms(4,5) lseg_update_same_next [OF assms(2)] using assms(1) by (simp add: hm_chain_def)
  ultimately show ?thesis using assms(1,4,6) by (simp add: hm_chain_def)
qed

section \<open>What the changes mean\<close>

context key_table
begin

lemma seq_entries_cong:
  assumes "\<And>i. i \<in> set is \<Longrightarrow> bk_key (bs' ! i) = bk_key (bs ! i) \<and> bk_ksize (bs' ! i) = bk_ksize (bs ! i) \<and>
    bk_hash (bs' ! i) = bk_hash (bs ! i) \<and> bk_value (bs' ! i) = bk_value (bs ! i)"
  shows "seq_entries ident bs' is = seq_entries ident bs is"
proof -
  have "entry ident (bs' ! i) = entry ident (bs ! i)" "live (bs' ! i) = live (bs ! i)" if "i \<in> set is" for i
    using assms [OF that] ident_data [of "bs' ! i" "bs ! i"] by (simp_all add: entry_def live_def)
  then show ?thesis by (auto simp: seq_entries_def intro!: map_cong filter_cong)
qed

lemma fill_spec:
  assumes inv: "hm_inv ident hk m" and room: "hm_count m + 1 < hm_capacity m"
    and i: "i < hm_capacity m" "\<not> used (hm_buckets m ! i)"
    and key: "key \<noteq> 0" "given key ksize k"
    and path: "on_path (hm_buckets m) (hm_capacity m) (unat (hk k)) i"
    and new: "\<And>j. j < hm_capacity m \<Longrightarrow> live (hm_buckets m ! j) \<Longrightarrow> ident (hm_buckets m ! j) \<noteq> Inr k"
  shows "hm_inv ident hk (fill i key ksize (hk k) v m)"
    "hm_entries ident (fill i key ksize (hk k) v m) = AList.update k v (hm_entries ident m)"
proof -
  let ?b = "new_bucket key ksize (hk k) v" let ?m = "fill i key ksize (hk k) v m"
  let ?bs = "hm_buckets m" let ?is = "hm_order m"
  note f = hm_inv_fields [OF inv]
  note pred = same_data_pred(1,2) [OF linked_same_data, of _ m i] and nth = same_data_nth [OF linked_same_data, of _ m i]
  have i': "i < length ?bs" using i f by simp
  have b: "live ?b" "ident ?b = Inr k" "bk_hash ?b = hk k" "bk_value ?b = v"
    using key ident_given [OF key(2,1), of ?b] by (simp_all add: new_bucket_def live_def)
  have ch: "hm_chain ?m (?is @ [i])" by (rule fill_chain [OF f(2) i' i(2) key(1)])
  have old: "j \<in> set ?is \<Longrightarrow> j \<noteq> i \<and> j < length ?bs" for j using i f(3) hm_order_bound [OF inv] by auto
  have table: "table_ok ident hk (hm_buckets ?m) (hm_capacity ?m)"
    using table_ok_same_data [OF table_ok_fill [OF f(1) i b(1-3) path new] same_data_update [OF linked_same_data]]
    by (simp add: fill_fields i')
  have "tombs (hm_buckets ?m) ?is = tombs ?bs ?is"
    by (rule tombs_cong) (use old pred i' in \<open>auto simp: fill_fields nth_list_update\<close>)
  moreover have "tombs (hm_buckets ?m) [i] = 0" using b(1) i' by (simp add: tombs_def fill_fields)
  ultimately have tombs: "tombs (hm_buckets ?m) (?is @ [i]) = tombs ?bs ?is" by (simp add: tombs_append)
  show inv': "hm_inv ident hk ?m"
    by (rule hm_invI [OF table ch]) (use inv room tombs i' in \<open>simp_all add: fill_fields hm_inv_def\<close>)
  have "seq_entries ident (hm_buckets ?m) ?is = seq_entries ident ?bs ?is"
    by (rule seq_entries_cong) (use old nth i' in \<open>auto simp: fill_fields nth_list_update\<close>)
  moreover have "seq_entries ident (hm_buckets ?m) [i] = [(k, v)]"
    using b i' by (simp add: seq_entries_def fill_fields entry_def)
  ultimately have "hm_entries ident ?m = hm_entries ident m @ [(k, v)]"
    by (simp add: hm_entries_def hm_order_chain [OF ch] seq_entries_append)
  moreover have "k \<notin> fst ` set (hm_entries ident m)" using hm_entries_keys [OF inv, of k] new by blast
  ultimately show "hm_entries ident ?m = AList.update k v (hm_entries ident m)" by (simp add: alist_update_new)
qed

lemma rewrite_spec:
  assumes inv: "hm_inv ident hk m" and i: "i < hm_capacity m" "live (hm_buckets m ! i)"
    and k: "ident (hm_buckets m ! i) = Inr k"
    and b: "bk_next (f (hm_buckets m ! i)) = bk_next (hm_buckets m ! i)" "live (f (hm_buckets m ! i))"
      "ident (f (hm_buckets m ! i)) = Inr k" "bk_hash (f (hm_buckets m ! i)) = bk_hash (hm_buckets m ! i)"
      "bk_value (f (hm_buckets m ! i)) = v"
  shows "hm_inv ident hk (upd_bucket i f m)"
    "hm_entries ident (upd_bucket i f m) = AList.update k v (hm_entries ident m)"
proof -
  let ?bs = "hm_buckets m" let ?m = "upd_bucket i f m" let ?is = "hm_order m" let ?b = "f (?bs ! i)"
  note fs = hm_inv_fields [OF inv]
  have ch: "hm_chain ?m ?is"
    by (rule chain_change [OF fs(2)]) (use b i live_used in simp_all)
  have nth: "hm_buckets ?m ! j = (if j = i then ?b else ?bs ! j)" for j
    using i fs(3) by (simp add: nth_list_update)
  have table: "table_ok ident hk (hm_buckets ?m) (hm_capacity ?m)"
    using table_ok_change [OF fs(1) i(1), of ?b] live_used b i k by simp
  have "tombs (hm_buckets ?m) ?is = tombs ?bs ?is" by (rule tombs_cong) (use nth b i in auto)
  then show inv': "hm_inv ident hk ?m" using inv by (intro hm_invI [OF table ch]) (simp_all add: hm_inv_def)
  have live: "live (hm_buckets ?m ! j) = live (?bs ! j)" for j using nth b i by simp
  have e: "entry ident (hm_buckets ?m ! j) = (if fst (entry ident (?bs ! j)) = k then (k, v) else entry ident (?bs ! j))"
    if "j \<in> set ?is" "live (?bs ! j)" for j
  proof (cases "j = i")
    case True
    with k b i fs(3) show ?thesis by (simp add: entry_def)
  next
    case False
    from that have j: "j < hm_capacity m" by (simp add: hm_order_bound [OF inv])
    with fs(1) that(2) obtain k' where k': "ident (?bs ! j) = Inr k'" by (auto elim: table_okD)
    with False table_ok_unique [OF fs(1) j i(1) that(2) i(2)] k have "k' \<noteq> k" by auto
    with False nth k' show ?thesis by (simp add: entry_def)
  qed
  have "hm_entries ident ?m = map (\<lambda>p. if fst p = k then (k, v) else p) (hm_entries ident m)"
    using e by (simp add: hm_entries_def hm_order_chain [OF ch] seq_entries_def live del: upd_bucket_fields)
  moreover have "k \<in> fst ` set (hm_entries ident m)" using hm_entries_keys [OF inv, of k] i k by blast
  ultimately show "hm_entries ident ?m = AList.update k v (hm_entries ident m)"
    by (simp only: alist_update_map [OF _ hm_entries_distinct [OF inv]])
qed

lemma bury_spec:
  assumes inv: "hm_inv ident hk m" and i: "i < hm_capacity m" "live (hm_buckets m ! i)"
    and k: "ident (hm_buckets m ! i) = Inr k"
  shows "hm_inv ident hk (bury i m)" "hm_entries ident (bury i m) = AList.delete k (hm_entries ident m)"
proof -
  let ?bs = "hm_buckets m" let ?m = "bury i m" let ?is = "hm_order m"
  let ?b = "(?bs ! i)\<lparr>bk_key := 0, bk_value := 0xDEAD\<rparr>"
  note fs = hm_inv_fields [OF inv]
  have flds: "hm_buckets ?m = ?bs[i := ?b]" "hm_capacity ?m = hm_capacity m" "hm_count ?m = hm_count m"
    "hm_tombstone_count ?m = hm_tombstone_count m + 1" "hm_first ?m = hm_first m" "hm_last ?m = hm_last m"
    by (simp_all add: bury_def)
  have b: "used ?b" "\<not> live ?b" by (simp_all add: used_def live_def)
  have ch: "hm_chain ?m ?is"
    by (rule chain_change [OF fs(2) _ _ flds(1,5,6)]) (use b i live_used in simp_all)
  have nth: "hm_buckets ?m ! j = (if j = i then ?b else ?bs ! j)" for j
    using i fs(3) by (simp add: flds nth_list_update)
  have table: "table_ok ident hk (hm_buckets ?m) (hm_capacity ?m)"
    using table_ok_change [OF fs(1) i(1), of ?b] b by (simp add: flds)
  have mem: "i \<in> set ?is" "distinct ?is"
    using i live_used fs(2,3) by (simp_all add: hm_order_bound [OF inv] hm_chain_def)
  then have "{j. \<not> live (hm_buckets ?m ! j)} \<inter> set ?is = insert i ({j. \<not> live (?bs ! j)} \<inter> set ?is)"
    using nth b by (auto split: if_splits)
  then have "tombs (hm_buckets ?m) ?is = tombs ?bs ?is + 1"
    using mem i by (simp add: tombs_def distinct_length_filter)
  then show "hm_inv ident hk ?m" using inv by (intro hm_invI [OF table ch]) (simp_all add: hm_inv_def flds)
  have "i \<noteq> j \<longleftrightarrow> fst (entry ident (?bs ! j)) \<noteq> k" if "j \<in> set ?is" "live (?bs ! j)" for j
  proof -
    from that have j: "j < hm_capacity m" by (simp add: hm_order_bound [OF inv])
    with fs(1) that(2) obtain k' where "ident (?bs ! j) = Inr k'" by (auto elim: table_okD)
    with table_ok_unique [OF fs(1) j i(1) that(2) i(2)] k show ?thesis by (auto simp: entry_def)
  qed
  then have "filter (\<lambda>j. live (hm_buckets ?m ! j)) ?is =
      filter (\<lambda>j. fst (entry ident (?bs ! j)) \<noteq> k) (filter (\<lambda>j. live (?bs ! j)) ?is)"
    using nth b by (auto intro!: filter_cong)
  moreover have "map (\<lambda>j. entry ident (hm_buckets ?m ! j)) (filter (\<lambda>j. live (hm_buckets ?m ! j)) ?is) =
      map (\<lambda>j. entry ident (?bs ! j)) (filter (\<lambda>j. live (hm_buckets ?m ! j)) ?is)"
    by (rule map_cong) (use nth b in auto)
  ultimately show "hm_entries ident ?m = AList.delete k (hm_entries ident m)"
    by (simp only: hm_entries_def hm_order_chain [OF ch] seq_entries_def alist_delete_filter filter_map o_def)
qed

end

end
