(* ===== verification/Hash_Growth.thy ===== *)
theory Hash_Growth
  imports Hash_Invariant
begin

text \<open>
  Growing the hash map: the load test in \<open>float\<close>, and the rehashing of every live bucket
  into the new array in the order of the list.
\<close>

section \<open>The load test\<close>

lemma float_of_nat_exact: "n < 2 ^ 24 \<Longrightarrow> float_of_nat n = n"
proof -
  assume "n < 2 ^ 24"
  then have "floorlog 2 n \<le> 24"
    using floorlog_leI [of n 2 24] by simp
  then show ?thesis by (simp add: float_of_nat_def)
qed

lemma float_of_nat_bounds:
  assumes "0 < n"
  shows "7 * n < 8 * float_of_nat n" "8 * float_of_nat n \<le> 9 * n"
proof -
  have "7 * n < 8 * float_of_nat n \<and> 8 * float_of_nat n \<le> 9 * n"
  proof (cases "floorlog 2 n \<le> 24")
    case True
    with assms show ?thesis by (simp add: float_of_nat_def)
  next
    case False
    define u :: nat where "u = 2 ^ (floorlog 2 n - 24)"
    have "2 ^ (floorlog 2 n - 1) \<le> n" using floorlog_bounds [of n 2] assms by simp
    moreover have "floorlog 2 n - 1 = floorlog 2 n - 24 + 23" using False by simp
    ultimately have u: "u * 2 ^ 23 \<le> n" unfolding u_def by (metis power_add)
    have qr: "n = n div u * u + n mod u" "n mod u < u"
      by (simp only: div_mult_mod_eq) (simp add: u_def)
    have "float_of_nat n = n div u * u \<or> float_of_nat n = n div u * u + u"
      by (auto simp: float_of_nat_def u_def Let_def)
    moreover have "8 * u \<le> n" using u by simp
    ultimately show ?thesis using qr by (elim disjE; intro conjI; linarith)
  qed
  then show "7 * n < 8 * float_of_nat n" "8 * float_of_nat n \<le> 9 * n" by simp_all
qed

lemma not_over_load: "\<not> over_load m \<Longrightarrow> hm_count m + 1 < hm_capacity m"
  using float_of_nat_bounds(1) [of "hm_count m + 1"] by (simp add: over_load_def)

lemma over_load_capacity: "over_load m \<Longrightarrow> hm_capacity m \<le> 2 * (hm_count m + 1)"
  using float_of_nat_bounds(2) [of "hm_count m + 1"] by (simp add: over_load_def)

section \<open>Placing one bucket\<close>

lemma resize_probe_step:
  "i < length bs \<Longrightarrow> resize_probe bs cap (Suc n) i =
     (if \<not> live (bs ! i) then Inr i else resize_probe bs cap n ((i + 1) mod cap))"
  by (simp add: live_def)

lemma resize_probe_spec:
  assumes len: "length bs = cap" and room: "i0 < cap" "\<not> used (bs ! i0)"
    and clean: "\<And>j. j < cap \<Longrightarrow> used (bs ! j) \<Longrightarrow> live (bs ! j)"
  obtains i where "resize_probe bs cap cap (h mod cap) = Inr i" "i < cap" "\<not> used (bs ! i)" "on_path bs cap h i"
proof -
  have "\<not> live (bs ! i0)" using room(2) live_used by blast
  with len room(1) obtain d where d: "d < cap" "resize_probe bs cap cap (h mod cap) = Inr (slot h cap d)"
    "\<not> live (bs ! slot h cap d)" "\<And>d'. d' < d \<Longrightarrow> live (bs ! slot h cap d')"
    using probe_finds [of cap "resize_probe bs cap" "\<lambda>i. \<not> live (bs ! i)" i0 h thesis] resize_probe_step [of _ bs cap]
    by blast
  have "slot h cap d < cap" using slot_less room(1) by simp
  moreover from this d(3) clean have "\<not> used (bs ! slot h cap d)" by blast
  moreover have "on_path bs cap h (slot h cap d)" using d live_used by (auto simp: on_path_def)
  ultimately show thesis using that d(2) by blast
qed

section \<open>The loop\<close>

text \<open>
  Between two rounds: \<open>is\<close> are the new buckets filled so far, holding the entries
  \<open>E\<close>; the link of the last one still points to \<open>p\<close> in the old array.
\<close>

definition growing ::
  "(bucket \<Rightarrow> 'k res) \<Rightarrow> ('k \<Rightarrow> u32) \<Rightarrow> nat \<Rightarrow> nat option \<Rightarrow> nat list \<Rightarrow> ('k \<times> u64) list \<Rightarrow> hashmap
     \<Rightarrow> bool" where
  "growing ident hk cap p is E m \<longleftrightarrow> hm_capacity m = cap \<and> table_ok ident hk (hm_buckets m) cap \<and>
     lseg (hm_buckets m) (hm_first m) is p \<and> distinct is \<and>
     hm_last m = (if is = [] then None else Some (last is)) \<and>
     set is = {i. i < cap \<and> used (hm_buckets m ! i)} \<and>
     (\<forall>i < cap. used (hm_buckets m ! i) \<longrightarrow> live (hm_buckets m ! i)) \<and>
     seq_entries ident (hm_buckets m) is = E"

lemma growing_fields:
  assumes "growing ident hk cap p is E m"
  shows "hm_capacity m = cap" "table_ok ident hk (hm_buckets m) cap" "length (hm_buckets m) = cap"
    "lseg (hm_buckets m) (hm_first m) is p" "distinct is"
    "hm_last m = (if is = [] then None else Some (last is))"
    "i \<in> set is \<longleftrightarrow> i < cap \<and> used (hm_buckets m ! i)"
    "i < cap \<Longrightarrow> used (hm_buckets m ! i) \<Longrightarrow> live (hm_buckets m ! i)"
    "seq_entries ident (hm_buckets m) is = E"
  using assms by (simp_all add: growing_def table_ok_def)

lemma lseg_end:
  "lseg bs p is q \<Longrightarrow> is \<noteq> [] \<Longrightarrow> last is < length bs \<and> bk_next (bs ! last is) = q"
  by (cases "is" rule: rev_cases) (auto simp: lseg_append)

lemma growing_last_next: "growing ident hk cap p is E m \<Longrightarrow> last_next m = Inr p"
  using growing_fields(4,6) [of ident hk cap p "is" E m] lseg_end [of "hm_buckets m" "hm_first m" "is" p]
  by (cases "is = []") (auto simp: last_next_def)

lemma set_last_next_fields [simp]:
  "hm_count (set_last_next q m) = hm_count m" "hm_capacity (set_last_next q m) = hm_capacity m"
  "hm_tombstone_count (set_last_next q m) = hm_tombstone_count m"
  by (simp_all add: set_last_next_def split: option.splits)

text \<open>The entries still to come keep their keys apart from those moved.\<close>

definition pending ::
  "(bucket \<Rightarrow> 'k res) \<Rightarrow> ('k \<Rightarrow> u32) \<Rightarrow> bucket list \<Rightarrow> nat list \<Rightarrow> ('k \<times> u64) list \<Rightarrow> bool" where
  "pending ident hk old is E \<longleftrightarrow> distinct (map fst (E @ seq_entries ident old is)) \<and>
     (\<forall>i \<in> set is. live (old ! i) \<longrightarrow> (\<exists>k. ident (old ! i) = Inr k \<and> bk_hash (old ! i) = hk k))"

lemma pending_Cons:
  assumes "pending ident hk old (i # is) E"
  shows "\<not> live (old ! i) \<Longrightarrow> pending ident hk old is E"
    "live (old ! i) \<Longrightarrow> pending ident hk old is (E @ [entry ident (old ! i)])"
    "live (old ! i) \<Longrightarrow> \<exists>k. ident (old ! i) = Inr k \<and> bk_hash (old ! i) = hk k \<and> k \<notin> fst ` set E"
  using assms by (force simp: pending_def seq_entries_def entry_def)+

context key_table
begin

text \<open>Skipping a tombstone.\<close>

lemma growing_skip:
  assumes g: "growing ident hk cap p is E m"
  shows "growing ident hk cap q is E (set_last_next q m)"
proof (cases "is" rule: rev_cases)
  case Nil
  with g show ?thesis by (auto simp: growing_def set_last_next_def)
next
  case (snoc xs l)
  let ?bs = "(hm_buckets m)[l := (hm_buckets m ! l)\<lparr>bk_next := q\<rparr>]"
  note f = growing_fields [OF g]
  have m: "set_last_next q m = m\<lparr>hm_buckets := ?bs\<rparr>" using snoc f(6) by (simp add: set_last_next_def)
  have sd: "same_data (hm_buckets m) ?bs" by (rule same_data_next)
  note pred = same_data_pred(1,2) [OF sd] and nth = same_data_nth [OF sd]
  have "lseg ?bs (hm_first m) is q" using lseg_relink [of "hm_buckets m" "hm_first m" xs l p q] f(4,5) snoc by simp
  moreover have "seq_entries ident ?bs is = E"
    using f(9) seq_entries_cong [of "is" ?bs "hm_buckets m"] nth f(3,7) by metis
  moreover have "set is = {i. i < cap \<and> used (?bs ! i)}" using f(3,7) pred by auto
  moreover have "\<forall>i < cap. used (?bs ! i) \<longrightarrow> live (?bs ! i)" using f(3,8) pred by simp
  ultimately show ?thesis
    using f(1,5,6) table_ok_same_data [OF f(2) sd] by (simp add: growing_def m)
qed

text \<open>Moving a live bucket.\<close>

lemma growing_move:
  assumes g: "growing ident hk cap p is E m" and room: "length is < cap"
    and b: "live b" "ident b = Inr k" "bk_hash b = hk k" and new: "k \<notin> fst ` set E"
  obtains i m' where "resize_entry m b = Inr (i, m')"
    "growing ident hk cap (bk_next b) (is @ [i]) (E @ [entry ident b]) ((set_last_next (Some i) m')\<lparr>hm_last := Some i\<rparr>)"
    "hm_count m' = hm_count m" "hm_tombstone_count m' = hm_tombstone_count m"
proof -
  let ?bs = "hm_buckets m"
  note f = growing_fields [OF g]
  obtain i0 where i0: "i0 < cap" "\<not> used (?bs ! i0)"
  proof -
    have "\<not> {..<cap} \<subseteq> set is"
      using card_mono [of "set is" "{..<cap}"] distinct_card [OF f(5)] room by auto
    then obtain x where "x < cap" "x \<notin> set is" by blast
    with that f(7) [of x] show thesis by blast
  qed
  obtain i where i: "resize_probe ?bs cap cap (unat (hk k) mod cap) = Inr i" "i < cap" "\<not> used (?bs ! i)"
    "on_path ?bs cap (unat (hk k)) i"
    by (rule resize_probe_spec [OF f(3) i0 f(8)])
  let ?m' = "m\<lparr>hm_buckets := ?bs[i := b]\<rparr>" let ?m = "(set_last_next (Some i) ?m')\<lparr>hm_last := Some i\<rparr>"
  have e: "resize_entry m b = Inr (i, ?m')" using i(1) f(1) b(3) by (simp add: resize_entry_def)
  have absent: "ident (?bs ! j) \<noteq> Inr k" if "j < cap" "live (?bs ! j)" for j
  proof
    assume "ident (?bs ! j) = Inr k"
    moreover from that live_used have "j \<in> set is" by (simp add: f(7))
    ultimately have "k \<in> fst ` set (seq_entries ident ?bs is)"
      using that(2) by (force simp: seq_entries_def entry_def)
    with new f(9) show False by simp
  qed
  have i_new: "i \<notin> set is" using i(2,3) by (simp add: f(7))
  have same: "same_data (?bs[i := b]) (hm_buckets ?m)"
    using same_data_next by (simp add: set_last_next_def split: option.splits)
  note pred = same_data_pred(1,2) [OF same] and nth = same_data_nth [OF same]
  have len: "length (hm_buckets ?m) = cap" using same_data_length [OF same] f(3) by simp
  have upd: "?bs[i := b] ! j = (if j = i then b else ?bs ! j)" for j using i(2) f(3) by (simp add: nth_list_update)
  have "lseg (hm_buckets ?m) (hm_first ?m) (is @ [i]) (bk_next b)"
  proof (cases "is" rule: rev_cases)
    case Nil
    with f(4,6) i(2) f(3) show ?thesis by (simp add: set_last_next_def)
  next
    case (snoc xs l)
    then have l: "hm_last m = Some l" "l \<noteq> i" using f(6) i_new by auto
    have "lseg (?bs[i := b]) (hm_first m) is p" using f(4) i_new by (simp add: lseg_update_other)
    then have "lseg (hm_buckets ?m) (hm_first m) is (Some i)"
      using lseg_relink [of "?bs[i := b]" "hm_first m" xs l p "Some i"] f(5) snoc l by (simp add: set_last_next_def)
    with l i(2) f(3) len show ?thesis by (simp add: lseg_append set_last_next_def)
  qed
  moreover have "table_ok ident hk (hm_buckets ?m) cap"
    using table_ok_same_data [OF table_ok_fill [OF f(2) i(2,3) b i(4) absent] same] by simp
  moreover have "set (is @ [i]) = {j. j < cap \<and> used (hm_buckets ?m ! j)}"
    using pred(2) f(3,7) upd live_used [OF b(1)] i(2) by (auto split: if_splits)
  moreover have "\<forall>j < cap. used (hm_buckets ?m ! j) \<longrightarrow> live (hm_buckets ?m ! j)"
    using pred f(3,8) upd b(1) by auto
  moreover have "seq_entries ident (hm_buckets ?m) is = E"
    using seq_entries_cong [of "is" "hm_buckets ?m" ?bs] nth f(3,7,9) upd i_new by (metis length_list_update)
  moreover have "seq_entries ident (hm_buckets ?m) [i] = [entry ident b]"
  proof -
    have "live (hm_buckets ?m ! i)" "entry ident (hm_buckets ?m ! i) = entry ident b"
      using nth [of i] same_data_ident [OF same, of i] f(3) i(2) b(1) upd by (simp_all add: live_def entry_def)
    then show ?thesis by (simp add: seq_entries_def)
  qed
  moreover have "hm_capacity ?m = cap" using f(1) by (simp add: set_last_next_def split: option.splits)
  ultimately have "growing ident hk cap (bk_next b) (is @ [i]) (E @ [entry ident b]) ?m"
    using f(5) i_new by (simp add: growing_def seq_entries_append)
  with e that show thesis by simp
qed

lemma resize_loop_spec:
  assumes "growing ident hk cap p is E m" "lseg old p rest None" "rest \<noteq> []" "length rest \<le> n"
    "length is + length rest \<le> cap" "pending ident hk old rest E"
  shows "\<exists>m' is'. resize_loop n old m = Inr m' \<and> growing ident hk cap None is' (E @ seq_entries ident old rest) m' \<and>
    hm_count m' = hm_count m \<and> hm_tombstone_count m' = hm_tombstone_count m \<and>
    length is' = length (is @ filter (\<lambda>i. live (old ! i)) rest)"
  using assms
proof (induction rest arbitrary: p "is" E m n)
  case (Cons i rest)
  let ?b = "old ! i"
  from Cons.prems obtain n' where n: "n = Suc n'" "length rest \<le> n'" by (cases n) auto
  from Cons.prems have i: "p = Some i" "i < length old" "lseg old (bk_next ?b) rest None" by auto
  note pend = pending_Cons [OF Cons.prems(6)]
  define round where "round = (if bk_key ?b = 0 then Inr (set_last_next (bk_next ?b) m)
     else bindr (resize_entry m ?b) (\<lambda>(i, m). Inr ((set_last_next (Some i) m)\<lparr>hm_last := Some i\<rparr>)))"
  obtain m1 js E1 where r: "round = Inr m1" "growing ident hk cap (bk_next ?b) js E1 m1"
    "E1 @ seq_entries ident old rest = E @ seq_entries ident old (i # rest)" "pending ident hk old rest E1"
    "hm_count m1 = hm_count m" "hm_tombstone_count m1 = hm_tombstone_count m"
    "length js = length (is @ filter (\<lambda>i. live (old ! i)) [i])"
  proof (cases "live ?b")
    case False
    then show thesis
      using that [OF _ growing_skip [OF Cons.prems(1)]] pend(1)
      by (simp add: round_def live_def seq_entries_def)
  next
    case True
    from pend(3) [OF True] obtain k where k: "ident ?b = Inr k" "bk_hash ?b = hk k" "k \<notin> fst ` set E"
      by blast
    have "length is < cap" using Cons.prems(5) by simp
    from growing_move [OF Cons.prems(1) this True k] obtain j m' where
      "resize_entry m ?b = Inr (j, m')"
      "growing ident hk cap (bk_next ?b) (is @ [j]) (E @ [entry ident ?b]) ((set_last_next (Some j) m')\<lparr>hm_last := Some j\<rparr>)"
      "hm_count m' = hm_count m" "hm_tombstone_count m' = hm_tombstone_count m" by blast
    with that [of "(set_last_next (Some j) m')\<lparr>hm_last := Some j\<rparr>"] pend(2) [OF True] True show thesis
      by (simp add: round_def live_def seq_entries_def)
  qed
  have step: "resize_loop n old m = (if bk_next ?b = None then Inr m1 else resize_loop n' old m1)"
    using growing_last_next [OF Cons.prems(1)] growing_last_next [OF r(2)] r(1) i
    by (simp add: n round_def)
  show ?case
  proof (cases "rest = []")
    case True
    with i(3) have "bk_next ?b = None" by simp
    with step r True show ?thesis by (intro exI [of _ m1] exI [of _ js]) (simp add: seq_entries_def)
  next
    case False
    with i(3) have "bk_next ?b \<noteq> None" by (cases rest) auto
    moreover have "length js + length rest \<le> cap" using r(7) Cons.prems(5) by auto
    ultimately show ?thesis
      using Cons.IH [OF r(2) i(3) False n(2) _ r(4)] step r(3,5,6,7) by auto
  qed
qed simp

lemma resize_keeps:
  assumes inv: "hm_inv ident hk m" and "hm_order m \<noteq> []" "2 * hm_capacity m < 2 ^ 31" "calloc (2 * hm_capacity m)"
  shows "\<exists>m'. hashmap_resize calloc m = Inr m' \<and> hm_inv ident hk m' \<and> hm_entries ident m' = hm_entries ident m \<and>
    hm_capacity m' = 2 * hm_capacity m \<and> hm_tombstone_count m' = 0 \<and> hm_count m' = hashmap_size m"
proof -
  let ?cap = "2 * hm_capacity m" let ?old = "hm_buckets m" let ?is = "hm_order m"
  let ?m0 = "m\<lparr>hm_capacity := ?cap, hm_buckets := replicate ?cap empty_bucket, hm_last := None,
    hm_count := hm_count m - hm_tombstone_count m, hm_tombstone_count := 0\<rparr>"
  note f = hm_inv_fields [OF inv]
  have r: "hashmap_resize calloc m = resize_loop (length ?old) ?old ?m0"
    using assms by (simp add: hashmap_resize_def HASHMAP_RESIZE_FACTOR_def calloc_buckets_def Let_def mult.commute)
  have "growing ident hk ?cap (hm_first m) [] [] ?m0"
    by (simp add: growing_def table_ok_empty seq_entries_def)
  moreover have "lseg ?old (hm_first m) ?is None" using f(2) by (simp add: hm_chain_def)
  moreover have "pending ident hk ?old ?is []"
    using hm_entries_distinct [OF inv] hm_order_bound [OF inv] f(1)
    by (auto simp: pending_def hm_entries_def elim: table_okD)
  moreover have "length ?is \<le> length ?old" "length ([] :: nat list) + length ?is \<le> ?cap" using f by auto
  ultimately obtain m' js where m': "resize_loop (length ?old) ?old ?m0 = Inr m'"
    "growing ident hk ?cap None js (seq_entries ident ?old ?is) m'" "hm_count m' = hm_count ?m0"
    "hm_tombstone_count m' = hm_tombstone_count ?m0" "length js = length (filter (\<lambda>i. live (?old ! i)) ?is)"
    using resize_loop_spec [of ?cap "hm_first m" "[]" "[]" ?m0 ?old ?is "length ?old"] assms(2) by auto
  note g = growing_fields [OF m'(2)]
  have ch: "hm_chain m' js" using g by (auto simp: hm_chain_def)
  have size: "hashmap_size m = length js"
    using m'(5) hm_size_entries [OF inv] by (simp add: hm_entries_def seq_entries_def)
  have "tombs (hm_buckets m') js = 0" using g(7,8) by (simp add: tombs_def)
  moreover have "length js < ?cap" using size f by (simp add: hashmap_size_def)
  moreover have "\<exists>k. ?cap = 20 * 2 ^ k" using inv by (auto simp: hm_inv_def intro: exI [of _ "Suc _"])
  ultimately have "hm_inv ident hk m'"
    using g(1,2) m'(3,4) size by (intro hm_invI [OF _ ch]) (simp_all add: hashmap_size_def)
  moreover have "hm_entries ident m' = hm_entries ident m"
    using g(9) by (simp add: hm_entries_def hm_order_chain [OF ch])
  ultimately show ?thesis using r m'(1,3,4) g(1) by (simp add: hashmap_size_def)
qed

end

end
