(* ===== verification/Ordered_Map.thy ===== *)
theory Ordered_Map
  imports Prelude "HOL-Library.AList"
begin

text \<open>
  What the hash map promises its callers, as an interface: a finite map that remembers the order
  in which its keys were added. Its meaning is an association list; keys are handed over by
  reference, \<open>content\<close> being what a reference stands for. \<open>invar n\<close> holds of a map
  after at most \<open>n\<close> insertions: an implementation may give up after \<open>limit\<close> of them.
\<close>

section \<open>Sequences of operations\<close>

text \<open>
  Set, look up, remove and count; the value of a key, or the given one where it has none; set and
  remove with the old value handed back.
\<close>

datatype ('p, 'v) map_op = Put 'p 'v | Look 'p | Del 'p | Count | Fetch 'p 'v | Swap 'p 'v | Take 'p

datatype 'v map_answer = Nothing | Value "'v option" | Number nat

type_synonym ('p, 'v, 'm) map_ops =
  "('p \<Rightarrow> 'v \<Rightarrow> 'm \<Rightarrow> 'm res) \<times> ('p \<Rightarrow> 'm \<Rightarrow> 'v option res) \<times> ('p \<Rightarrow> 'm \<Rightarrow> 'm res) \<times> ('m \<Rightarrow> nat) \<times>
   ('p \<Rightarrow> 'v \<Rightarrow> 'm \<Rightarrow> ('m \<times> 'v option) res) \<times> ('p \<Rightarrow> 'v \<Rightarrow> 'm \<Rightarrow> ('m \<times> 'v option) res) \<times>
   ('p \<Rightarrow> 'm \<Rightarrow> ('m \<times> 'v option) res)"

definition answer :: "('m \<times> 'v option) res \<Rightarrow> ('m \<times> 'v map_answer) res" where
  "answer r = bindr r (\<lambda>(m, v). Inr (m, Value v))"

fun map_step :: "('p, 'v, 'm) map_ops \<Rightarrow> ('p, 'v) map_op \<Rightarrow> 'm \<Rightarrow> ('m \<times> 'v map_answer) res" where
  "map_step (put, get, del, num, fetch, swp, tak) (Put p v) m = bindr (put p v m) (\<lambda>m. Inr (m, Nothing))"
| "map_step (put, get, del, num, fetch, swp, tak) (Look p) m = bindr (get p m) (\<lambda>r. Inr (m, Value r))"
| "map_step (put, get, del, num, fetch, swp, tak) (Del p) m = bindr (del p m) (\<lambda>m. Inr (m, Nothing))"
| "map_step (put, get, del, num, fetch, swp, tak) Count m = Inr (m, Number (num m))"
| "map_step (put, get, del, num, fetch, swp, tak) (Fetch p v) m = answer (fetch p v m)"
| "map_step (put, get, del, num, fetch, swp, tak) (Swap p v) m = answer (swp p v m)"
| "map_step (put, get, del, num, fetch, swp, tak) (Take p) m = answer (tak p m)"

fun map_run :: "('p, 'v, 'm) map_ops \<Rightarrow> ('p, 'v) map_op list \<Rightarrow> 'm \<Rightarrow> ('m \<times> 'v map_answer list) res" where
  "map_run ops [] m = Inr (m, [])"
| "map_run ops (c # cs) m =
     bindr (map_step ops c m) (\<lambda>(m, a). bindr (map_run ops cs m) (\<lambda>(m, as). Inr (m, a # as)))"

text \<open>The specification: the operations on an association list.\<close>

definition alist_fetch :: "'k \<Rightarrow> 'v \<Rightarrow> ('k \<times> 'v) list \<Rightarrow> ('k \<times> 'v) list" where
  "alist_fetch k v xs = (if map_of xs k = None then xs @ [(k, v)] else xs)"

definition alist_ops :: "('p \<Rightarrow> 'k) \<Rightarrow> ('p, 'v, ('k \<times> 'v) list) map_ops" where
  "alist_ops content =
     (\<lambda>p v xs. Inr (AList.update (content p) v xs), \<lambda>p xs. Inr (map_of xs (content p)),
      \<lambda>p xs. Inr (AList.delete (content p) xs), length,
      \<lambda>p v xs. Inr (alist_fetch (content p) v xs, map_of xs (content p)),
      \<lambda>p v xs. Inr (AList.update (content p) v xs, map_of xs (content p)),
      \<lambda>p xs. Inr (AList.delete (content p) xs, map_of xs (content p)))"

fun op_ref :: "('p, 'v) map_op \<Rightarrow> 'p option" where
  "op_ref (Put p v) = Some p"
| "op_ref (Look p) = Some p"
| "op_ref (Del p) = Some p"
| "op_ref Count = None"
| "op_ref (Fetch p v) = Some p"
| "op_ref (Swap p v) = Some p"
| "op_ref (Take p) = Some p"

text \<open>The operations that may add a key.\<close>

fun is_put :: "('p, 'v) map_op \<Rightarrow> bool" where
  "is_put (Put p v) = True"
| "is_put (Fetch p v) = True"
| "is_put (Swap p v) = True"
| "is_put _ = False"

definition refs_valid :: "('p \<Rightarrow> bool) \<Rightarrow> ('p, 'v) map_op list \<Rightarrow> bool" where
  "refs_valid valid cs \<longleftrightarrow> list_all (\<lambda>c. pred_option valid (op_ref c)) cs"

definition puts :: "('p, 'v) map_op list \<Rightarrow> nat" where
  "puts cs = length (filter is_put cs)"

lemma refs_valid_simps [simp]:
  "refs_valid valid []" "refs_valid valid (c # cs) \<longleftrightarrow> pred_option valid (op_ref c) \<and> refs_valid valid cs"
  by (simp_all add: refs_valid_def)

lemma puts_simps [simp]: "puts [] = 0" "puts (c # cs) = (if is_put c then Suc (puts cs) else puts cs)"
  by (simp_all add: puts_def)

section \<open>The interface\<close>

locale ordered_map =
  fixes put :: "'p \<Rightarrow> 'v \<Rightarrow> 'm \<Rightarrow> 'm res"
    and get :: "'p \<Rightarrow> 'm \<Rightarrow> 'v option res"
    and del :: "'p \<Rightarrow> 'm \<Rightarrow> 'm res"
    and num :: "'m \<Rightarrow> nat"
    and fetch :: "'p \<Rightarrow> 'v \<Rightarrow> 'm \<Rightarrow> ('m \<times> 'v option) res"
    and swp :: "'p \<Rightarrow> 'v \<Rightarrow> 'm \<Rightarrow> ('m \<times> 'v option) res"
    and tak :: "'p \<Rightarrow> 'm \<Rightarrow> ('m \<times> 'v option) res"
    and content :: "'p \<Rightarrow> 'k"
    and valid :: "'p \<Rightarrow> bool"
    and entries :: "'m \<Rightarrow> ('k \<times> 'v) list"
    and invar :: "nat \<Rightarrow> 'm \<Rightarrow> bool"
    and limit :: nat
  assumes put: "invar n m \<Longrightarrow> valid p \<Longrightarrow> n < limit \<Longrightarrow>
      \<exists>m'. put p v m = Inr m' \<and> invar (Suc n) m' \<and> entries m' = AList.update (content p) v (entries m)"
    and get: "invar n m \<Longrightarrow> valid p \<Longrightarrow> get p m = Inr (map_of (entries m) (content p))"
    and del: "invar n m \<Longrightarrow> valid p \<Longrightarrow>
      \<exists>m'. del p m = Inr m' \<and> invar n m' \<and> entries m' = AList.delete (content p) (entries m)"
    and num: "invar n m \<Longrightarrow> num m = length (entries m)"
    and fetch: "invar n m \<Longrightarrow> valid p \<Longrightarrow> n < limit \<Longrightarrow>
      \<exists>m'. fetch p v m = Inr (m', map_of (entries m) (content p)) \<and> invar (Suc n) m' \<and>
        entries m' = alist_fetch (content p) v (entries m)"
    and swp: "invar n m \<Longrightarrow> valid p \<Longrightarrow> n < limit \<Longrightarrow>
      \<exists>m'. swp p v m = Inr (m', map_of (entries m) (content p)) \<and> invar (Suc n) m' \<and>
        entries m' = AList.update (content p) v (entries m)"
    and tak: "invar n m \<Longrightarrow> valid p \<Longrightarrow>
      \<exists>m'. tak p m = Inr (m', map_of (entries m) (content p)) \<and> invar n m' \<and>
        entries m' = AList.delete (content p) (entries m)"
begin

abbreviation ops where "ops \<equiv> (put, get, del, num, fetch, swp, tak)"

lemma get_after_put:
  assumes "invar n m" "valid p" "valid q" "n < limit"
  shows "bindr (put p v m) (get q) =
    Inr (if content q = content p then Some v else map_of (entries m) (content q))"
  using put [OF assms(1,2,4), of v] get [OF _ assms(3)] by (auto simp: update_conv')

lemma get_after_del:
  assumes "invar n m" "valid p" "valid q"
  shows "bindr (del p m) (get q) =
    Inr (if content q = content p then None else map_of (entries m) (content q))"
  using del [OF assms(1,2)] get [OF _ assms(3)] by (auto simp: delete_conv')

lemma step_refines:
  assumes "invar n m" "pred_option valid (op_ref c)" "is_put c \<Longrightarrow> n < limit"
  shows "\<exists>m' a. map_step ops c m = Inr (m', a) \<and> invar (if is_put c then Suc n else n) m' \<and>
    map_step (alist_ops content) c (entries m) = Inr (entries m', a)"
proof (cases c)
  case (Put p v)
  with assms put [OF assms(1), of p v] show ?thesis by (auto simp: alist_ops_def)
next
  case (Del p)
  with assms del [OF assms(1), of p] show ?thesis by (auto simp: alist_ops_def)
next
  case (Fetch p v)
  with assms fetch [OF assms(1), of p v] show ?thesis by (auto simp: alist_ops_def answer_def)
next
  case (Swap p v)
  with assms swp [OF assms(1), of p v] show ?thesis by (auto simp: alist_ops_def answer_def)
next
  case (Take p)
  with assms tak [OF assms(1), of p] show ?thesis by (auto simp: alist_ops_def answer_def)
qed (use assms get num in \<open>simp_all add: alist_ops_def\<close>)

text \<open>Every sequence of operations answers as the association list does.\<close>

lemma run_refines:
  assumes "invar n m" "refs_valid valid cs" "n + puts cs \<le> limit"
  shows "\<exists>m' as. map_run ops cs m = Inr (m', as) \<and> invar (n + puts cs) m' \<and>
    map_run (alist_ops content) cs (entries m) = Inr (entries m', as)"
  using assms
proof (induction cs arbitrary: n m)
  case (Cons c cs)
  from Cons.prems obtain m1 a where c: "map_step ops c m = Inr (m1, a)"
    "invar (if is_put c then Suc n else n) m1" "map_step (alist_ops content) c (entries m) = Inr (entries m1, a)"
    using step_refines [of n m c] by (auto split: if_splits)
  moreover obtain m' as where "map_run ops cs m1 = Inr (m', as)" "invar (n + puts (c # cs)) m'"
    "map_run (alist_ops content) cs (entries m1) = Inr (entries m', as)"
    using Cons.IH [OF c(2)] Cons.prems by (auto split: if_splits)
  ultimately show ?case by simp
qed simp

end

end
