(* ===== verification/Hash_Ops.thy ===== *)
theory Hash_Ops
  imports Hash_Growth Ordered_Map
begin

text \<open>
  The operations of the hash map refine those of an insertion-ordered association list: one
  lemma per operation and branch, and the interpretation of the interface.
\<close>

section \<open>Creation, room, lookup\<close>

definition can_grow :: "(nat \<Rightarrow> bool) \<Rightarrow> hashmap \<Rightarrow> bool" where
  "can_grow calloc m \<longleftrightarrow> (over_load m \<longrightarrow> calloc (2 * hm_capacity m) \<and> 2 * hm_capacity m < 2 ^ 31)"

lemma capacity_ge_20: "hm_inv ident hk m \<Longrightarrow> 20 \<le> hm_capacity m"
  by (auto simp: hm_inv_def)

context key_table
begin

lemma create_spec:
  assumes "calloc 20"
  shows "hm_inv ident hk (hashmap_create calloc)" "hm_entries ident (hashmap_create calloc) = []"
    "hm_capacity (hashmap_create calloc) = 20" "hm_count (hashmap_create calloc) = 0"
proof -
  let ?m = "hashmap_create calloc"
  have b: "hm_buckets ?m = replicate 20 empty_bucket" "hm_capacity ?m = 20" "hm_first ?m = None"
    "hm_last ?m = None" "hm_count ?m = 0" "hm_tombstone_count ?m = 0"
    using assms by (simp_all add: hashmap_create_def calloc_buckets_def HASHMAP_DEFAULT_CAPACITY_def)
  have ch: "hm_chain ?m []" using b by (auto simp: hm_chain_def)
  show "hm_inv ident hk ?m"
    by (rule hm_invI [OF _ ch]) (use b table_ok_empty [of ident hk 20] in \<open>auto simp: tombs_def intro: exI [of _ 0]\<close>)
  show "hm_entries ident ?m = []" "hm_capacity ?m = 20" "hm_count ?m = 0"
    using b by (simp_all add: hm_entries_def hm_order_chain [OF ch] seq_entries_def)
qed

lemma make_room_spec:
  assumes inv: "hm_inv ident hk m" and grow: "can_grow calloc m"
  obtains m' where "make_room calloc m = Inr m'" "hm_inv ident hk m'" "hm_entries ident m' = hm_entries ident m"
    "hm_count m' + 1 < hm_capacity m'" "hm_count m' \<le> hm_count m"
    "hm_capacity m' = (if over_load m then 2 * hm_capacity m else hm_capacity m)"
proof (cases "over_load m")
  case True
  have "hm_count m \<noteq> 0" using over_load_capacity [OF True] capacity_ge_20 [OF inv] by auto
  then have "hm_order m \<noteq> []" using inv by (auto simp: hm_inv_def)
  from resize_keeps [OF inv this] True grow obtain m' where m': "hashmap_resize calloc m = Inr m'"
    "hm_inv ident hk m'" "hm_entries ident m' = hm_entries ident m" "hm_capacity m' = 2 * hm_capacity m" "hm_count m' = hashmap_size m"
    by (auto simp: can_grow_def)
  moreover have "hashmap_size m \<le> hm_count m" by (simp add: hashmap_size_def)
  moreover have "hm_count m < hm_capacity m" using inv by (simp add: hm_inv_def)
  ultimately show thesis using that True by (simp add: make_room_def)
next
  case False
  with that inv not_over_load show thesis by (simp add: make_room_def)
qed

text \<open>The two outcomes of \<open>find_entry\<close>, as facts about the association list.\<close>

lemma find_entry_spec:
  assumes inv: "hm_inv ident hk m" and k: "given key ksize k"
  obtains i where "find_entry H m key ksize (hk k) = Inr i" "i < hm_capacity m"
    "live (hm_buckets m ! i)" "ident (hm_buckets m ! i) = Inr k"
    "map_of (hm_entries ident m) k = Some (bk_value (hm_buckets m ! i))"
  | i where "find_entry H m key ksize (hk k) = Inr i" "i < hm_capacity m"
    "\<not> used (hm_buckets m ! i)" "on_path (hm_buckets m) (hm_capacity m) (unat (hk k)) i"
    "\<And>j. j < hm_capacity m \<Longrightarrow> live (hm_buckets m ! j) \<Longrightarrow> ident (hm_buckets m ! j) \<noteq> Inr k"
    "map_of (hm_entries ident m) k = None"
proof (rule find_probe_spec [OF hm_inv_fields(1) [OF inv] k hm_inv_unused [OF inv]], goal_cases)
  case (1 i)
  with that(1) hm_entries_lookup [OF inv, of i k] show thesis by (simp add: find_entry_def)
next
  case (2 i)
  with that(2) hm_entries_lookup_None [OF inv, of k] show thesis by (simp add: find_entry_def)
qed

section \<open>Setting\<close>

text \<open>All three ways to set a value end in filling an unused bucket or rewriting a live one.\<close>

lemma set_cases:
  assumes inv: "hm_inv ident hk m" and grow: "can_grow calloc m" and key: "key \<noteq> 0" "given key ksize k"
  obtains m1 i where "make_room calloc m = Inr m1" "hm_entries ident m1 = hm_entries ident m" "hm_inv ident hk m1"
    "find_entry H m1 key ksize (hk k) = Inr i" "i < hm_capacity m1"
    "live (hm_buckets m1 ! i)" "ident (hm_buckets m1 ! i) = Inr k" "hm_count m1 \<le> hm_count m"
    "hm_capacity m1 = (if over_load m then 2 * hm_capacity m else hm_capacity m)"
    "map_of (hm_entries ident m) k = Some (bk_value (hm_buckets m1 ! i))"
  | m1 i where "make_room calloc m = Inr m1" "find_entry H m1 key ksize (hk k) = Inr i"
    "bk_key (hm_buckets m1 ! i) = 0" "map_of (hm_entries ident m) k = None" "hm_count m1 \<le> hm_count m"
    "hm_capacity m1 = (if over_load m then 2 * hm_capacity m else hm_capacity m)"
    "i < hm_capacity m1" "length (hm_buckets m1) = hm_capacity m1"
    "\<And>v. hm_inv ident hk (fill i key ksize (hk k) v m1)"
    "\<And>v. hm_entries ident (fill i key ksize (hk k) v m1) = AList.update k v (hm_entries ident m)"
proof -
  obtain m1 where m1: "make_room calloc m = Inr m1" "hm_inv ident hk m1" "hm_entries ident m1 = hm_entries ident m"
    "hm_count m1 + 1 < hm_capacity m1" "hm_count m1 \<le> hm_count m"
    "hm_capacity m1 = (if over_load m then 2 * hm_capacity m else hm_capacity m)"
    by (rule make_room_spec [OF inv grow])
  show thesis
  proof (rule find_entry_spec [OF m1(2) key(2)], goal_cases)
    case (1 i)
    with that(1) m1 show thesis by simp
  next
    case (2 i)
    with that(2) m1 fill_spec [OF m1(2,4) 2(2,3) key 2(4,5)] hm_inv_fields(3) [OF m1(2)] show thesis
      by (simp add: used_def)
  qed
qed

text \<open>Rewriting the value, with or without the key's address.\<close>

lemma rewrite_value_spec:
  assumes inv: "hm_inv ident hk m" and i: "i < hm_capacity m" "live (hm_buckets m ! i)"
    and k: "ident (hm_buckets m ! i) = Inr k"
  shows "hm_inv ident hk (upd_bucket i (\<lambda>b. b\<lparr>bk_value := v\<rparr>) m)"
    "hm_entries ident (upd_bucket i (\<lambda>b. b\<lparr>bk_value := v\<rparr>) m) = AList.update k v (hm_entries ident m)"
proof -
  have "ident ((hm_buckets m ! i)\<lparr>bk_value := v\<rparr>) = Inr k"
    using k ident_data [of "(hm_buckets m ! i)\<lparr>bk_value := v\<rparr>" "hm_buckets m ! i"] by simp
  with i show "hm_inv ident hk (upd_bucket i (\<lambda>b. b\<lparr>bk_value := v\<rparr>) m)"
    "hm_entries ident (upd_bucket i (\<lambda>b. b\<lparr>bk_value := v\<rparr>) m) = AList.update k v (hm_entries ident m)"
    by (intro rewrite_spec [OF inv i k]; simp add: live_def)+
qed

lemma rewrite_key_spec:
  assumes inv: "hm_inv ident hk m" and i: "i < hm_capacity m" "live (hm_buckets m ! i)"
    and k: "ident (hm_buckets m ! i) = Inr k" and key: "key \<noteq> 0" "given key ksize k"
  shows "hm_inv ident hk (upd_bucket i (\<lambda>b. b\<lparr>bk_key := key, bk_value := v\<rparr>) m)"
    "hm_entries ident (upd_bucket i (\<lambda>b. b\<lparr>bk_key := key, bk_value := v\<rparr>) m) = AList.update k v (hm_entries ident m)"
proof -
  let ?b = "(hm_buckets m ! i)\<lparr>bk_key := key, bk_value := v\<rparr>"
  have size: "bk_ksize (hm_buckets m ! i) = ksize" by (rule given_size [OF key(2) k])
  from hm_inv_fields(1) [OF inv] i k have "bk_hash (hm_buckets m ! i) = hk k" by (auto elim!: table_okD)
  with size have "ident ?b = Inr k" by (intro ident_given [OF key(2,1)]) simp_all
  then show "hm_inv ident hk (upd_bucket i (\<lambda>b. b\<lparr>bk_key := key, bk_value := v\<rparr>) m)"
    "hm_entries ident (upd_bucket i (\<lambda>b. b\<lparr>bk_key := key, bk_value := v\<rparr>) m) = AList.update k v (hm_entries ident m)"
    using key by (intro rewrite_spec [OF inv i k]; simp add: live_def)+
qed

lemma set_spec:
  assumes inv: "hm_inv ident hk m" and grow: "can_grow calloc m" and key: "key \<noteq> 0" "given key ksize k"
  shows "\<exists>m'. hashmap_set calloc H m key ksize v = Inr m' \<and> hm_inv ident hk m' \<and>
    hm_entries ident m' = AList.update k v (hm_entries ident m) \<and> hm_count m' \<le> hm_count m + 1 \<and>
    hm_capacity m' = (if over_load m then 2 * hm_capacity m else hm_capacity m)"
proof -
  obtain bs where bs: "key_bytes H key ksize = Inr bs" "hash_data bs = hk k" using given_bytes [OF key(2)] by blast
  show ?thesis
  proof (rule set_cases [OF assms], goal_cases)
    case (1 m1 i)
    with rewrite_value_spec [OF 1(3,5,6,7), of v] bs show ?case by (auto simp: hashmap_set_def Let_def live_def)
  next
    case (2 m1 i)
    then show ?case using bs by (auto simp: hashmap_set_def Let_def fill_fields simp flip: fill_def)
  qed
qed

lemma get_set_spec:
  assumes inv: "hm_inv ident hk m" and grow: "can_grow calloc m" and key: "key \<noteq> 0" "given key ksize k"
  shows "\<exists>m'. hashmap_get_set calloc H m key ksize v =
      Inr (m', case map_of (hm_entries ident m) k of None \<Rightarrow> (False, v) | Some w \<Rightarrow> (True, w)) \<and>
    hm_inv ident hk m' \<and> hm_entries ident m' = (case map_of (hm_entries ident m) k of
      None \<Rightarrow> hm_entries ident m @ [(k, v)] | Some w \<Rightarrow> hm_entries ident m) \<and>
    hm_count m' \<le> hm_count m + 1 \<and> hm_capacity m' = (if over_load m then 2 * hm_capacity m else hm_capacity m)"
proof -
  obtain bs where bs: "key_bytes H key ksize = Inr bs" "hash_data bs = hk k" using given_bytes [OF key(2)] by blast
  show ?thesis
  proof (rule set_cases [OF assms], goal_cases)
    case (1 m1 i)
    with bs show ?case by (auto simp: hashmap_get_set_def live_def)
  next
    case (2 m1 i)
    have "k \<notin> fst ` set (hm_entries ident m)" using 2(4) by (simp add: map_of_eq_None_iff)
    with 2 bs show ?case by (simp add: hashmap_get_set_def alist_update_new fill_fields flip: fill_def)
  qed
qed

text \<open>With a callback: it is handed the stored pointer of the key that is replaced.\<close>

lemma set_free_spec:
  assumes inv: "hm_inv ident hk m" and grow: "can_grow calloc m" and key: "key \<noteq> 0" "given key ksize k"
  shows "\<exists>m' usr'. hashmap_set_free calloc H m key ksize v c usr = Inr (m', usr') \<and> hm_inv ident hk m' \<and>
    hm_entries ident m' = AList.update k v (hm_entries ident m) \<and>
    hm_count m' \<le> hm_count m + 1 \<and> hm_capacity m' = (if over_load m then 2 * hm_capacity m else hm_capacity m) \<and>
    (case map_of (hm_entries ident m) k of None \<Rightarrow> usr' = usr
     | Some w \<Rightarrow> \<exists>b. live b \<and> ident b = Inr k \<and> bk_ksize b = ksize \<and> usr' = c (bk_key b) ksize w usr)"
proof -
  obtain bs where bs: "key_bytes H key ksize = Inr bs" "hash_data bs = hk k" using given_bytes [OF key(2)] by blast
  show ?thesis
  proof (rule set_cases [OF assms], goal_cases)
    case (1 m1 i)
    have "bk_ksize (hm_buckets m1 ! i) = ksize" by (rule given_size [OF key(2) 1(7)])
    moreover from 1(1,4,6) bs have "hashmap_set_free calloc H m key ksize v c usr =
        Inr (upd_bucket i (\<lambda>b. b\<lparr>bk_key := key, bk_value := v\<rparr>) m1,
          c (bk_key (hm_buckets m1 ! i)) ksize (bk_value (hm_buckets m1 ! i)) usr)"
      by (simp add: hashmap_set_free_def live_def Let_def)
    ultimately show ?case using rewrite_key_spec [OF 1(3,5,6,7) key, of v] 1(2,6-10) by auto
  next
    case (2 m1 i)
    from 2(1-3) bs have "hashmap_set_free calloc H m key ksize v c usr = Inr (fill i key ksize (hk k) v m1, usr)"
      by (simp add: hashmap_set_free_def fill_def Let_def)
    with 2(4-10) show ?case by (simp add: fill_fields)
  qed
qed

section \<open>Looking up and removing\<close>

lemma get_spec:
  assumes inv: "hm_inv ident hk m" and k: "given key ksize k"
  shows "hashmap_get H m key ksize =
    Inr (case map_of (hm_entries ident m) k of None \<Rightarrow> (False, 0) | Some v \<Rightarrow> (True, v))"
proof -
  obtain bs where bs: "key_bytes H key ksize = Inr bs" "hash_data bs = hk k" using given_bytes [OF k] by blast
  show ?thesis by (rule find_entry_spec [OF assms]) (use bs in \<open>auto simp: hashmap_get_def live_def used_def\<close>)
qed

lemma delete_absent: "map_of xs k = None \<Longrightarrow> AList.delete k xs = xs"
  by (simp add: delete_idem map_of_eq_None_iff)

lemma remove_spec:
  assumes inv: "hm_inv ident hk m" and k: "given key ksize k"
  shows "\<exists>m'. hashmap_remove H m key ksize = Inr m' \<and> hm_inv ident hk m' \<and>
    hm_entries ident m' = AList.delete k (hm_entries ident m) \<and> hm_count m' = hm_count m \<and>
    hm_capacity m' = hm_capacity m"
proof -
  obtain bs where bs: "key_bytes H key ksize = Inr bs" "hash_data bs = hk k" using given_bytes [OF k] by blast
  show ?thesis
  proof (rule find_entry_spec [OF assms], goal_cases)
    case (1 i)
    with bury_spec [OF inv 1(2-4)] bs show ?case by (simp add: hashmap_remove_def live_def bury_def)
  next
    case (2 i)
    with inv bs show ?case by (simp add: hashmap_remove_def used_def delete_absent)
  qed
qed

lemma remove_free_spec:
  assumes inv: "hm_inv ident hk m" and k: "given key ksize k"
  shows "\<exists>m' usr'. hashmap_remove_free H m key ksize c usr = Inr (m', usr') \<and> hm_inv ident hk m' \<and>
    hm_entries ident m' = AList.delete k (hm_entries ident m) \<and> hm_count m' = hm_count m \<and>
    hm_capacity m' = hm_capacity m \<and>
    (case map_of (hm_entries ident m) k of None \<Rightarrow> usr' = usr
     | Some w \<Rightarrow> \<exists>b. live b \<and> ident b = Inr k \<and> bk_ksize b = ksize \<and> usr' = c (bk_key b) ksize w usr)"
proof -
  obtain bs where bs: "key_bytes H key ksize = Inr bs" "hash_data bs = hk k" using given_bytes [OF k] by blast
  show ?thesis
  proof (rule find_entry_spec [OF assms], goal_cases)
    case (1 i)
    have "bk_ksize (hm_buckets m ! i) = ksize" by (rule given_size [OF k 1(4)])
    with bury_spec [OF inv 1(2-4)] 1 bs show ?case
      by (auto simp: hashmap_remove_free_def live_def Let_def bury_def)
  next
    case (2 i)
    with inv bs show ?case by (simp add: hashmap_remove_free_def used_def delete_absent Let_def)
  qed
qed

end

section \<open>Walking\<close>

lemma iterate_loop_spec:
  "lseg bs p is None \<Longrightarrow> co \<le> 1001 \<Longrightarrow>
     iterate_loop bs c co p usr =
       Inr (fold (\<lambda>i. c (bk_key (bs ! i)) (bk_ksize (bs ! i)) (bk_value (bs ! i)))
         (filter (\<lambda>i. live (bs ! i)) (take (1002 - co) is)) usr)"
proof (induction "is" arbitrary: p co usr)
  case Nil
  then show ?case by (subst iterate_loop.simps) simp
next
  case (Cons i "is")
  then have p: "p = Some i" "i < length bs" "lseg bs (bk_next (bs ! i)) is None" by auto
  show ?case
  proof (cases "co = 1001")
    case True
    with p show ?thesis by (subst iterate_loop.simps) (simp add: live_def Let_def)
  next
    case False
    with Cons.prems have "co + 1 \<le> 1001" "1002 - co = Suc (1002 - (co + 1))" by auto
    with p Cons.IH [OF p(3), of "co + 1"] show ?thesis
      by (subst iterate_loop.simps) (simp add: live_def Let_def)
  qed
qed

text \<open>A callback that writes down what it is called with.\<close>

definition note_call :: "key_heap \<Rightarrow> (byte list res \<times> u64) list callback" where
  "note_call H p n v usr = usr @ [(key_bytes H p n, v)]"

lemma iterate_spec:
  assumes inv: "hm_inv (bkey H) hash_data m"
  shows "hashmap_iterate m (note_call H) [] =
    Inr (map (map_prod Inr id) (seq_entries (bkey H) (hm_buckets m) (take 1002 (hm_order m))))"
proof -
  let ?bs = "hm_buckets m" let ?is = "filter (\<lambda>i. live (?bs ! i)) (take 1002 (hm_order m))"
  note f = hm_inv_fields [OF inv]
  have ok: "key_bytes H (bk_key (?bs ! i)) (bk_ksize (?bs ! i)) = Inr (fst (entry (bkey H) (?bs ! i))) \<and>
      bk_value (?bs ! i) = snd (entry (bkey H) (?bs ! i))" if "i \<in> set ?is" for i
  proof -
    from that have "i < hm_capacity m" "live (?bs ! i)"
      using hm_order_bound [OF inv] by (auto dest: in_set_takeD)
    with f(1) obtain k where "bkey H (?bs ! i) = Inr k" by (auto elim: table_okD)
    then show ?thesis by (simp add: entry_def bkey_def)
  qed
  have "fold (\<lambda>i. note_call H (bk_key (?bs ! i)) (bk_ksize (?bs ! i)) (bk_value (?bs ! i))) js usr =
      usr @ map (\<lambda>i. map_prod Inr id (entry (bkey H) (?bs ! i))) js" if "set js \<subseteq> set ?is" for js usr
    using that
  proof (induction js arbitrary: usr)
    case (Cons j js)
    with ok [of j] show ?case by (cases "entry (bkey H) (?bs ! j)") (simp add: note_call_def)
  qed simp
  with iterate_loop_spec [of ?bs "hm_first m" "hm_order m" 0 "note_call H" "[]"] f(2) show ?thesis
    by (simp add: hashmap_iterate_def hm_chain_def seq_entries_def o_def)
qed

section \<open>Keys as their bytes\<close>

text \<open>The intended use: keys the caller keeps unchanged while they are in the map.\<close>

interpretation ct: key_table H "bkey H" hash_data "\<lambda>key ksize k. key_bytes H key ksize = Inr k" for H
proof (unfold_locales, goal_cases)
  case (3 key ksize k b)
  then show ?case unfolding bkey_def by (metis key_bytes_length)
next
  case (5 key ksize k b k')
  then show ?case by (simp add: bkey_def key_eq_def)
qed (simp_all add: bkey_def)

section \<open>The interface\<close>

text \<open>
  References to keys are an address and a size. After \<open>n\<close> insertions the capacity is at
  most \<open>4 n\<close>, so 2^29 - 1 of them cannot make it overflow.
\<close>

definition ref_ok :: "key_heap \<Rightarrow> u64 \<times> nat \<Rightarrow> bool" where
  "ref_ok H p \<longleftrightarrow> fst p \<noteq> 0 \<and> (case key_bytes H (fst p) (snd p) of Inl _ \<Rightarrow> False | Inr _ \<Rightarrow> True)"

definition ref_content :: "key_heap \<Rightarrow> u64 \<times> nat \<Rightarrow> byte list" where
  "ref_content H p = (case key_bytes H (fst p) (snd p) of Inl _ \<Rightarrow> [] | Inr k \<Rightarrow> k)"

definition hm_put :: "key_heap \<Rightarrow> u64 \<times> nat \<Rightarrow> u64 \<Rightarrow> hashmap \<Rightarrow> hashmap res" where
  "hm_put H p v m = hashmap_set (\<lambda>_. True) H m (fst p) (snd p) v"

definition hm_get :: "key_heap \<Rightarrow> u64 \<times> nat \<Rightarrow> hashmap \<Rightarrow> u64 option res" where
  "hm_get H p m = bindr (hashmap_get H m (fst p) (snd p)) (\<lambda>(found, v). Inr (if found then Some v else None))"

definition hm_del :: "key_heap \<Rightarrow> u64 \<times> nat \<Rightarrow> hashmap \<Rightarrow> hashmap res" where
  "hm_del H p m = hashmap_remove H m (fst p) (snd p)"

definition hm_fetch :: "key_heap \<Rightarrow> u64 \<times> nat \<Rightarrow> u64 \<Rightarrow> hashmap \<Rightarrow> (hashmap \<times> u64 option) res" where
  "hm_fetch H p v m = bindr (hashmap_get_set (\<lambda>_. True) H m (fst p) (snd p) v)
     (\<lambda>(m, found, w). Inr (m, if found then Some w else None))"

text \<open>With a callback that keeps the value it is handed.\<close>

definition hm_swap :: "key_heap \<Rightarrow> u64 \<times> nat \<Rightarrow> u64 \<Rightarrow> hashmap \<Rightarrow> (hashmap \<times> u64 option) res" where
  "hm_swap H p v m = hashmap_set_free (\<lambda>_. True) H m (fst p) (snd p) v (\<lambda>_ _ w _. Some w) None"

definition hm_take :: "key_heap \<Rightarrow> u64 \<times> nat \<Rightarrow> hashmap \<Rightarrow> (hashmap \<times> u64 option) res" where
  "hm_take H p m = hashmap_remove_free H m (fst p) (snd p) (\<lambda>_ _ w _. Some w) None"

definition hm_ops :: "key_heap \<Rightarrow> (u64 \<times> nat, u64, hashmap) map_ops" where
  "hm_ops H = (hm_put H, hm_get H, hm_del H, hashmap_size, hm_fetch H, hm_swap H, hm_take H)"

definition hm_grown :: "key_heap \<Rightarrow> nat \<Rightarrow> hashmap \<Rightarrow> bool" where
  "hm_grown H n m \<longleftrightarrow> hm_inv (bkey H) hash_data m \<and> hm_count m \<le> n \<and> hm_capacity m \<le> max 20 (4 * n)"

definition put_limit :: nat where "put_limit = 2 ^ 29 - 1"

lemma ref_okD: "ref_ok H p \<Longrightarrow> fst p \<noteq> 0 \<and> key_bytes H (fst p) (snd p) = Inr (ref_content H p)"
  by (auto simp: ref_ok_def ref_content_def split: sum.splits)

lemma hm_grown_can_grow:
  assumes "hm_grown H n m" "n < put_limit"
  shows "can_grow (\<lambda>_. True) m" "over_load m \<Longrightarrow> 2 * hm_capacity m \<le> 4 * Suc n"
  using assms over_load_capacity [of m] by (auto simp: hm_grown_def can_grow_def put_limit_def)

interpretation hm: ordered_map "hm_put H" "hm_get H" "hm_del H" hashmap_size "hm_fetch H" "hm_swap H" "hm_take H"
  "ref_content H" "ref_ok H"
  "hm_entries (bkey H)" "hm_grown H" put_limit for H
proof (unfold_locales, goal_cases)
  case (1 n m p v)
  note ok = ref_okD [OF 1(2)] and grow = hm_grown_can_grow [OF 1(1,3)]
  from 1(1) have inv: "hm_inv (bkey H) hash_data m" by (simp add: hm_grown_def)
  from ct.set_spec [OF inv grow(1) ok [THEN conjunct1] ok [THEN conjunct2], of v] 1(1) grow(2)
  show ?case by (force simp: hm_put_def hm_grown_def)
next
  case (2 n m p)
  with ref_okD [OF 2(2)] ct.get_spec [of H m "fst p" "snd p"] show ?case
    by (auto simp: hm_get_def hm_grown_def split: option.splits)
next
  case (3 n m p)
  with ref_okD [OF 3(2)] ct.remove_spec [of H m "fst p" "snd p"] show ?case
    by (auto simp: hm_del_def hm_grown_def)
next
  case (4 n m)
  then show ?case by (auto simp: hm_grown_def intro: hm_size_entries)
next
  case (5 n m p v)
  note ok = ref_okD [OF 5(2)] and grow = hm_grown_can_grow [OF 5(1,3)]
  from 5(1) have inv: "hm_inv (bkey H) hash_data m" by (simp add: hm_grown_def)
  from ct.get_set_spec [OF inv grow(1) ok [THEN conjunct1] ok [THEN conjunct2], of v] 5(1) grow(2)
  show ?case by (force simp: hm_fetch_def hm_grown_def alist_fetch_def split: option.splits)
next
  case (6 n m p v)
  note ok = ref_okD [OF 6(2)] and grow = hm_grown_can_grow [OF 6(1,3)]
  from 6(1) have inv: "hm_inv (bkey H) hash_data m" by (simp add: hm_grown_def)
  from ct.set_free_spec [OF inv grow(1) ok [THEN conjunct1] ok [THEN conjunct2], of v "\<lambda>_ _ w _. Some w" None] 6(1) grow(2)
  show ?case by (force simp: hm_swap_def hm_grown_def split: option.splits)
next
  case (7 n m p)
  with ref_okD [OF 7(2)] ct.remove_free_spec [of H m "fst p" "snd p" _ "\<lambda>_ _ w _. Some w" None] show ?case
    by (force simp: hm_take_def hm_grown_def split: option.splits)
qed

lemma create_grown: "hm_grown H 0 (hashmap_create (\<lambda>_. True))"
  using ct.create_spec [of "\<lambda>_. True"] by (simp add: hm_grown_def)

end
