(* ===== verification/Dyn_Array.thy ===== *)
theory Dyn_Array
  imports Prelude
begin

text \<open>
  The growing arrays of \<open>deprecated/dynamic_array.c\<close>. \<open>struct Array\<close> is not declared in
  the repository; its fields are those the code uses, its elements a type parameter. Cells not
  yet written are \<open>None\<close>. \<open>grants n\<close> says whether \<open>malloc\<close> or \<open>realloc\<close> gives room
  for \<open>n\<close> elements; a refused array is the empty one.
\<close>

record 'c dyn_array =
  da_array :: "'c option list"
  da_used :: nat
  da_size :: nat

definition malloc_cells :: "(nat \<Rightarrow> bool) \<Rightarrow> nat \<Rightarrow> 'c option list" where
  "malloc_cells grants n = (if grants n then replicate n None else [])"

definition realloc_cells :: "(nat \<Rightarrow> bool) \<Rightarrow> nat \<Rightarrow> 'c option list \<Rightarrow> 'c option list" where
  "realloc_cells grants n old =
     (if grants n then take n old @ replicate (n - length old) None else [])"

definition initArray :: "(nat \<Rightarrow> bool) \<Rightarrow> nat \<Rightarrow> 'c dyn_array" where
  "initArray grants initialSize =
     \<lparr>da_array = malloc_cells grants initialSize, da_used = 0, da_size = initialSize\<rparr>"

definition insertArray :: "(nat \<Rightarrow> bool) \<Rightarrow> 'c dyn_array \<Rightarrow> 'c \<Rightarrow> 'c dyn_array res" where
  "insertArray grants a element =
     (let a = (if da_used a = da_size a
               then a\<lparr>da_size := da_size a * 2, da_array := realloc_cells grants (da_size a * 2) (da_array a)\<rparr>
               else a)
      in if da_used a < length (da_array a)
         then Inr (a\<lparr>da_array := (da_array a)[da_used a := Some element], da_used := da_used a + 1\<rparr>)
         else Inl Out_of_bounds)"

definition freeArray :: "'c dyn_array \<Rightarrow> 'c dyn_array" where
  "freeArray a = a\<lparr>da_array := [], da_used := 0, da_size := 0\<rparr>"

section \<open>What an array holds\<close>

definition da_list :: "'c dyn_array \<Rightarrow> 'c list" where
  "da_list a = map the (take (da_used a) (da_array a))"

text \<open>The array is at least half full, or of one cell: it never wastes more than it holds.\<close>

definition da_inv :: "'c dyn_array \<Rightarrow> bool" where
  "da_inv a \<longleftrightarrow> length (da_array a) = da_size a \<and> da_used a \<le> da_size a \<and> 0 < da_size a \<and>
     (\<forall>i < da_used a. da_array a ! i \<noteq> None) \<and> da_size a \<le> max 1 (2 * da_used a)"

lemma initArray_spec:
  "grants 1 \<Longrightarrow> da_inv (initArray grants 1 :: 'c dyn_array) \<and> da_list (initArray grants 1 :: 'c dyn_array) = []"
  by (simp add: initArray_def da_inv_def da_list_def malloc_cells_def)

lemma da_list_length: "da_inv a \<Longrightarrow> length (da_list a) = da_used a"
  by (simp add: da_inv_def da_list_def)

lemma da_cells: "da_inv a \<Longrightarrow> take (da_used a) (da_array a) = map Some (da_list a)"
  by (auto simp: da_inv_def da_list_def in_set_conv_nth intro!: nth_equalityI)

lemma insertArray_spec:
  assumes inv: "da_inv a" and mem: "da_used a = da_size a \<Longrightarrow> grants (2 * da_size a)"
  shows "\<exists>a'. insertArray grants a e = Inr a' \<and> da_inv a' \<and> da_list a' = da_list a @ [e]"
proof -
  define b where "b = (if da_used a = da_size a
    then a\<lparr>da_size := da_size a * 2, da_array := realloc_cells grants (da_size a * 2) (da_array a)\<rparr> else a)"
  have b: "length (da_array b) = da_size b" "da_used b = da_used a" "da_used b < da_size b"
    "\<forall>i < da_used a. da_array b ! i = da_array a ! i" "da_size b \<le> max 1 (2 * (da_used a + 1))"
    "take (da_used a) (da_array b) = take (da_used a) (da_array a)"
    using inv mem by (auto simp: b_def da_inv_def realloc_cells_def nth_append mult.commute)
  let ?a' = "b\<lparr>da_array := (da_array b)[da_used b := Some e], da_used := da_used b + 1\<rparr>"
  have r: "insertArray grants a e = Inr ?a'"
    using b(1,3) by (simp add: insertArray_def b_def [symmetric] Let_def)
  have "da_inv ?a'"
    using b inv by (auto simp: da_inv_def nth_list_update less_Suc_eq)
  moreover have "da_list ?a' = da_list a @ [e]"
    using b by (simp add: da_list_def take_Suc_conv_app_nth)
  ultimately show ?thesis using r by blast
qed

end
