(* ===== verification/Processing.thy ===== *)
theory Processing
  imports Hash_Ops Dyn_Array C_Strings
begin

text \<open>
  The client tables of \<open>deprecated/processing.c\<close>: a hash map from \<open>"<id>-<key>"\<close> to the
  growing array of clients that asked for the key under that id.

  \<open>MAX_KEY_LENGTH\<close> as this file saw it is not in the repository: it, the address of the
  static buffer \<open>normalized_key\<close> and the allocator are parameters. Every entry of the map
  holds the address of that one buffer, whose bytes change with each call.
\<close>

record proc_env =
  pe_max_key :: nat
  pe_key_addr :: u64
  pe_calloc :: "nat \<Rightarrow> bool"
  pe_grants :: "nat \<Rightarrow> bool"
  pe_malloc :: "(u64 \<Rightarrow> bool) \<Rightarrow> u64"    \<comment> \<open>from the addresses in use; 0 when refused\<close>

record 'c proc_state =
  client_info_map :: "hashmap option"
  counter_map :: "hashmap option"
  normalized_key :: "byte list"
  arrays :: "u64 \<Rightarrow> 'c dyn_array option"

definition proc_start :: "proc_env \<Rightarrow> 'c proc_state" where
  "proc_start e = \<lparr>client_info_map = None, counter_map = None,
     normalized_key = replicate (pe_max_key e) 0, arrays = \<lambda>_. None\<rparr>"

text \<open>\<open>sprintf(mbox_req_id_key, "%u-%s", request_id, key)\<close> into an array of \<open>MAX_KEY_LENGTH\<close>.\<close>

definition req_key :: "nat \<Rightarrow> byte list \<Rightarrow> byte list" where
  "req_key request_id key = dec request_id @ str ''-'' @ cstr key"

definition sprint_req_key :: "proc_env \<Rightarrow> nat \<Rightarrow> byte list \<Rightarrow> byte list res" where
  "sprint_req_key e request_id key =
     bindr (check Out_of_bounds (length (req_key request_id key) < pe_max_key e)) (\<lambda>_.
     Inr (req_key request_id key))"

text \<open>
  \<open>memset(p, c, n)\<close>; the call has the size where the fill byte belongs and 0 where the
  count belongs. \<open>strcpy\<close> writes the string and its NUL.
\<close>

definition memset :: "byte \<Rightarrow> nat \<Rightarrow> byte list \<Rightarrow> byte list res" where
  "memset c n m = wr 0 (replicate n c) m"

definition normalize_key :: "byte list \<Rightarrow> 'c proc_state \<Rightarrow> 'c proc_state res" where
  "normalize_key key s =
     bindr (memset (word_of_nat (length (normalized_key s))) 0 (normalized_key s)) (\<lambda>b.
     bindr (wr 0 (cstr key @ [0]) b) (\<lambda>b.
     Inr (s\<lparr>normalized_key := b\<rparr>)))"

text \<open>\<open>hashmap_str_lit(normalized_key)\<close>: the buffer's address, and its size less one.\<close>

definition nk_heap :: "proc_env \<Rightarrow> 'c proc_state \<Rightarrow> key_heap" where
  "nk_heap e s = (\<lambda>p. if p = pe_key_addr e then Some (normalized_key s) else None)"

definition nk_size :: "proc_env \<Rightarrow> nat" where
  "nk_size e = pe_max_key e - 1"

definition add_client :: "proc_env \<Rightarrow> u64 \<Rightarrow> 'c \<Rightarrow> 'c proc_state \<Rightarrow> 'c proc_state res" where
  "add_client e table_ptr client_data s =
     (case arrays s table_ptr of None \<Rightarrow> Inl Null_deref
      | Some a \<Rightarrow> bindr (insertArray (pe_grants e) a client_data) (\<lambda>a.
          Inr (s\<lparr>arrays := (arrays s)(table_ptr \<mapsto> a)\<rparr>)))"

definition new_table :: "proc_env \<Rightarrow> 'c proc_state \<Rightarrow> (u64 \<times> 'c proc_state) res" where
  "new_table e s =
     (let p = pe_malloc e (\<lambda>p. arrays s p \<noteq> None)
      in bindr (check Null_deref (p \<noteq> 0)) (\<lambda>_.
         Inr (p, s\<lparr>arrays := (arrays s)(p \<mapsto> initArray (pe_grants e) 1)\<rparr>)))"

definition insert_client_info_to_map ::
  "proc_env \<Rightarrow> byte list \<Rightarrow> u32 \<Rightarrow> 'c \<Rightarrow> 'c proc_state \<Rightarrow> 'c proc_state res" where
  "insert_client_info_to_map e key request_id client_data s =
     bindr (sprint_req_key e (unat request_id) key) (\<lambda>t.
     bindr (normalize_key t s) (\<lambda>s.
     case client_info_map s of None \<Rightarrow> Inl Null_deref
     | Some m \<Rightarrow>
         bindr (hashmap_get (nk_heap e s) m (pe_key_addr e) (nk_size e)) (\<lambda>(found, result).
         if found then add_client e result client_data s
         else
           bindr (new_table e s) (\<lambda>(table_ptr, s).
           bindr (hashmap_set (pe_calloc e) (nk_heap e s) m (pe_key_addr e) (nk_size e) table_ptr) (\<lambda>m.
           add_client e table_ptr client_data (s\<lparr>client_info_map := Some m\<rparr>))))))"

text \<open>A miss is printed; the returned pointer is what \<open>hashmap_get\<close> left in \<open>result\<close>.\<close>

definition get_from_map ::
  "proc_env \<Rightarrow> byte list \<Rightarrow> u16 \<Rightarrow> 'c proc_state \<Rightarrow> (u64 \<times> 'c proc_state) res" where
  "get_from_map e key request_id s =
     bindr (sprint_req_key e (unat request_id) key) (\<lambda>t.
     bindr (normalize_key t s) (\<lambda>s.
     case client_info_map s of None \<Rightarrow> Inl Null_deref
     | Some m \<Rightarrow>
         bindr (hashmap_get (nk_heap e s) m (pe_key_addr e) (nk_size e)) (\<lambda>(found, result).
         Inr (result, s))))"

definition remove_key_from_map ::
  "proc_env \<Rightarrow> byte list \<Rightarrow> u16 \<Rightarrow> 'c proc_state \<Rightarrow> 'c proc_state res" where
  "remove_key_from_map e key request_id s =
     bindr (sprint_req_key e (unat request_id) key) (\<lambda>t.
     bindr (normalize_key t s) (\<lambda>s.
     bindr (get_from_map e key request_id s) (\<lambda>(table_ptr, s).
     case arrays s table_ptr of None \<Rightarrow> Inl Null_deref
     | Some a \<Rightarrow>
         (case client_info_map s of None \<Rightarrow> Inl Null_deref
          | Some m \<Rightarrow>
              let s = s\<lparr>arrays := (arrays s)(table_ptr \<mapsto> freeArray a)\<rparr>
              in bindr (hashmap_remove (nk_heap e s) m (pe_key_addr e) (nk_size e)) (\<lambda>m.
                 Inr (s\<lparr>client_info_map := Some m\<rparr>))))))"

definition initialize_map :: "proc_env \<Rightarrow> 'c proc_state \<Rightarrow> 'c proc_state" where
  "initialize_map e s =
     (let s = (if client_info_map s = None then s\<lparr>client_info_map := Some (hashmap_create (pe_calloc e))\<rparr> else s)
      in if counter_map s = None then s\<lparr>counter_map := Some (hashmap_create (pe_calloc e))\<rparr> else s)"

section \<open>The buffer\<close>

text \<open>
  What the buffer holds after \<open>normalize_key\<close>: the string, its NUL, and behind it whatever
  was there before.
\<close>

definition nk_after :: "byte list \<Rightarrow> byte list \<Rightarrow> byte list" where
  "nk_after t b = t @ [0] @ drop (length t + 1) b"

lemma length_nk_after: "length t < length b \<Longrightarrow> length (nk_after t b) = length b"
  by (simp add: nk_after_def)

lemma nk_after_idem: "length t < length b \<Longrightarrow> nk_after t (nk_after t b) = nk_after t b"
  by (simp add: nk_after_def)

lemma normalize_key_spec:
  assumes "0 \<notin> set t" "length t < length (normalized_key s)"
  shows "normalize_key t s = Inr (s\<lparr>normalized_key := nk_after t (normalized_key s)\<rparr>)"
  using assms by (simp add: normalize_key_def memset_def wr_def cstr_no_nul nk_after_def)

lemma req_key_nul_free: "0 \<notin> set (req_key r key)"
  by (simp add: req_key_def str_def)

section \<open>One buffer for all keys\<close>

text \<open>
  All entries carry the buffer's address, so that comparing their bytes compares the buffer
  with itself: a bucket is told apart by its stored hash alone.
\<close>

definition shared_ident :: "proc_env \<Rightarrow> bucket \<Rightarrow> u32 res" where
  "shared_ident e b =
     (if bk_key b = pe_key_addr e \<and> bk_ksize b = nk_size e then Inr (bk_hash b) else Inl Null_deref)"

definition shared_given :: "proc_env \<Rightarrow> key_heap \<Rightarrow> u64 \<Rightarrow> nat \<Rightarrow> u32 \<Rightarrow> bool" where
  "shared_given e H key ksize h \<longleftrightarrow> key = pe_key_addr e \<and> ksize = nk_size e \<and>
     (\<exists>bs. key_bytes H key ksize = Inr bs \<and> hash_data bs = h)"

interpretation sh: key_table H "shared_ident e" "\<lambda>h. h" "shared_given e H" for H e
  by unfold_locales (auto simp: shared_ident_def shared_given_def key_eq_def split: if_splits)

end
