(* ===== verification/Client_Tables.thy ===== *)
theory Client_Tables
  imports Processing
begin

text \<open>
  What the client tables of \<open>processing.c\<close> mean: for every hash of the shared buffer, the
  list of clients registered under it, and how the operations change it.
\<close>

section \<open>State\<close>

definition info_entries :: "proc_env \<Rightarrow> 'c proc_state \<Rightarrow> (u32 \<times> u64) list" where
  "info_entries e s = (case client_info_map s of None \<Rightarrow> [] | Some m \<Rightarrow> hm_entries (shared_ident e) m)"

definition clients_at :: "proc_env \<Rightarrow> 'c proc_state \<Rightarrow> u32 \<Rightarrow> 'c list" where
  "clients_at e s h = (case map_of (info_entries e s) h of None \<Rightarrow> []
     | Some p \<Rightarrow> (case arrays s p of None \<Rightarrow> [] | Some a \<Rightarrow> da_list a))"

text \<open>Every entry leads to an array of its own with at least one client.\<close>

definition tables_ok :: "(u32 \<times> u64) list \<Rightarrow> (u64 \<Rightarrow> 'c dyn_array option) \<Rightarrow> bool" where
  "tables_ok es A \<longleftrightarrow> distinct (map snd es) \<and> A 0 = None \<and>
     (\<forall>p \<in> snd ` set es. \<exists>a. A p = Some a \<and> da_inv a \<and> da_list a \<noteq> [])"

definition proc_inv :: "proc_env \<Rightarrow> 'c proc_state \<Rightarrow> bool" where
  "proc_inv e s \<longleftrightarrow> pe_key_addr e \<noteq> 0 \<and> 0 < pe_max_key e \<and> length (normalized_key s) = pe_max_key e \<and>
     (\<exists>m. client_info_map s = Some m \<and> hm_inv (shared_ident e) (\<lambda>h. h) m) \<and>
     tables_ok (info_entries e s) (arrays s)"

text \<open>The hash under which a text is looked up, given what the buffer held before.\<close>

definition buffer_hash :: "proc_env \<Rightarrow> byte list \<Rightarrow> byte list \<Rightarrow> u32" where
  "buffer_hash e t b = hash_data (take (nk_size e) (nk_after t b))"

definition with_key :: "byte list \<Rightarrow> 'c proc_state \<Rightarrow> 'c proc_state" where
  "with_key t s = s\<lparr>normalized_key := nk_after t (normalized_key s)\<rparr>"

lemma with_key_fields [simp]:
  "client_info_map (with_key t s) = client_info_map s" "arrays (with_key t s) = arrays s"
  "normalized_key (with_key t s) = nk_after t (normalized_key s)"
  "info_entries e (with_key t s) = info_entries e s" "clients_at e (with_key t s) h = clients_at e s h"
  by (simp_all add: with_key_def info_entries_def clients_at_def cong: option.case_cong)

lemma proc_inv_with_key: "proc_inv e s \<Longrightarrow> length t < pe_max_key e \<Longrightarrow> proc_inv e (with_key t s)"
  by (simp add: proc_inv_def length_nk_after)

lemma with_key_idem: "length t < length (normalized_key s) \<Longrightarrow> with_key t (with_key t s) = with_key t s"
  by (simp add: with_key_def nk_after_idem)

lemma buffer_hash_again:
  "length t < length b \<Longrightarrow> buffer_hash e t (nk_after t b) = buffer_hash e t b"
  by (simp add: buffer_hash_def nk_after_idem)

text \<open>The first steps of every operation.\<close>

lemma enter_key:
  assumes "proc_inv e s" "length (req_key r key) < pe_max_key e"
  shows "sprint_req_key e r key = Inr (req_key r key)"
    "normalize_key (req_key r key) s = Inr (with_key (req_key r key) s)"
  using assms req_key_nul_free [of r key]
  by (simp_all add: sprint_req_key_def normalize_key_spec with_key_def proc_inv_def)

lemma shared_given_buffer:
  assumes "proc_inv e s"
  shows "shared_given e (nk_heap e s) (pe_key_addr e) (nk_size e) (hash_data (take (nk_size e) (normalized_key s)))"
  using assms by (auto simp: shared_given_def key_bytes_def nk_heap_def proc_inv_def nk_size_def)

lemma lookup_key:
  assumes inv: "proc_inv e s" and t: "length t < pe_max_key e" and m: "client_info_map s = Some m"
  shows "hashmap_get (nk_heap e (with_key t s)) m (pe_key_addr e) (nk_size e) =
    Inr (case map_of (info_entries e s) (buffer_hash e t (normalized_key s)) of
      None \<Rightarrow> (False, 0) | Some p \<Rightarrow> (True, p))"
proof -
  have "hm_inv (shared_ident e) (\<lambda>h. h) m" using inv m by (auto simp: proc_inv_def)
  from sh.get_spec [OF this shared_given_buffer [OF proc_inv_with_key [OF inv t]]] m
  show ?thesis by (simp add: info_entries_def buffer_hash_def)
qed

section \<open>Adding a client to an array\<close>

lemma tables_okD:
  assumes "tables_ok es A" "map_of es h = Some p"
  obtains a where "A p = Some a" "da_inv a" "da_list a \<noteq> []" "p \<noteq> 0"
  using assms map_of_SomeD [OF assms(2)] by (fastforce simp: tables_ok_def)

lemma tables_ok_other:
  assumes "tables_ok es A" "map_of es h = Some p" "map_of es h' = Some p'" "h \<noteq> h'"
  shows "p \<noteq> p'"
proof
  assume "p = p'"
  moreover have "inj_on snd (set es)" using assms(1) by (simp add: tables_ok_def distinct_map)
  ultimately have "(h, p) = (h', p')"
    using map_of_SomeD [OF assms(2)] map_of_SomeD [OF assms(3)] inj_onD [of snd "set es" "(h, p)" "(h', p')"]
    by simp
  with assms(4) show False by simp
qed

lemma tables_ok_update:
  "tables_ok es A \<Longrightarrow> da_inv a \<Longrightarrow> da_list a \<noteq> [] \<Longrightarrow> p \<noteq> 0 \<Longrightarrow> tables_ok es (A(p \<mapsto> a))"
  by (auto simp: tables_ok_def)

section \<open>Operations\<close>

text \<open>Memory is there when it is asked for, and \<open>malloc\<close> hands out a block not in use.\<close>

definition mem_ok :: "proc_env \<Rightarrow> 'c proc_state \<Rightarrow> bool" where
  "mem_ok e s \<longleftrightarrow> (\<forall>n. pe_grants e n) \<and> arrays s (pe_malloc e (\<lambda>p. arrays s p \<noteq> None)) = None \<and>
     pe_malloc e (\<lambda>p. arrays s p \<noteq> None) \<noteq> 0 \<and> (\<forall>m. client_info_map s = Some m \<longrightarrow> can_grow (pe_calloc e) m)"

lemma add_client_spec:
  assumes A: "arrays s p = Some a" "da_inv a" and "\<forall>n. pe_grants e n"
  obtains a' where "add_client e p c s = Inr (s\<lparr>arrays := (arrays s)(p \<mapsto> a')\<rparr>)" "da_inv a'"
    "da_list a' = da_list a @ [c]"
  using insertArray_spec [OF A(2), of "pe_grants e" c] assms by (auto simp: add_client_def)

text \<open>One insertion: at most one more entry, a capacity doubled at most, one more array.\<close>

definition grows :: "'c proc_state \<Rightarrow> 'c proc_state \<Rightarrow> bool" where
  "grows s s' \<longleftrightarrow> (\<exists>m m'. client_info_map s = Some m \<and> client_info_map s' = Some m' \<and> hm_count m' \<le> hm_count m + 1 \<and>
     hm_capacity m' = (if over_load m then 2 * hm_capacity m else hm_capacity m)) \<or> client_info_map s' = client_info_map s"

lemma insert_spec:
  fixes s :: "'c proc_state"
  assumes inv: "proc_inv e s" and t: "t = req_key (unat r) key" "length t < pe_max_key e" and mem: "mem_ok e s"
    and h: "h = buffer_hash e t (normalized_key s)"
  shows "\<exists>s'. insert_client_info_to_map e key r c s = Inr s' \<and> proc_inv e s' \<and>
    normalized_key s' = nk_after t (normalized_key s) \<and>
    clients_at e s' = (clients_at e s)(h := clients_at e s h @ [c]) \<and>
    grows s s' \<and> (\<exists>p. dom (arrays s') \<subseteq> insert p (dom (arrays s))) \<and> counter_map s' = counter_map s"
proof -
  obtain m where m: "client_info_map s = Some m" "hm_inv (shared_ident e) (\<lambda>h. h) m"
    using inv by (auto simp: proc_inv_def)
  let ?s = "with_key t s" let ?es = "info_entries e s"
  note enter = enter_key [OF inv, of "unat r" key, folded t(1), OF t(2)]
  note inv1 = proc_inv_with_key [OF inv t(2)]
  have tab: "tables_ok ?es (arrays s)" using inv by (simp add: proc_inv_def)
  have grants: "\<forall>n. pe_grants e n" using mem by (simp add: mem_ok_def)
  have look: "hashmap_get (nk_heap e ?s) m (pe_key_addr e) (nk_size e) =
      Inr (case map_of ?es h of None \<Rightarrow> (False, 0) | Some p \<Rightarrow> (True, p))"
    using lookup_key [OF inv t(2) m(1)] h by simp
  have es: "?es = hm_entries (shared_ident e) m" using m by (simp add: info_entries_def)
  show ?thesis
  proof (cases "map_of ?es h")
    case (Some p)
    from tables_okD [OF tab Some] obtain a where a: "arrays s p = Some a" "da_inv a" "da_list a \<noteq> []" "p \<noteq> 0" .
    obtain a' where a': "add_client e p c ?s = Inr (?s\<lparr>arrays := (arrays s)(p \<mapsto> a')\<rparr>)" "da_inv a'"
      "da_list a' = da_list a @ [c]"
      by (rule add_client_spec [OF _ a(2) grants, of ?s p c]) (use a(1) in simp_all)
    let ?s' = "?s\<lparr>arrays := (arrays s)(p \<mapsto> a')\<rparr>"
    have e': "info_entries e ?s' = ?es" by (simp add: info_entries_def with_key_def)
    have "proc_inv e ?s'"
      using inv1 tables_ok_update [OF tab a'(2) _ a(4)] a'(3) e' m by (simp add: proc_inv_def)
    moreover have "clients_at e ?s' = (clients_at e s)(h := clients_at e s h @ [c])"
    proof
      fix g
      show "clients_at e ?s' g = ((clients_at e s)(h := clients_at e s h @ [c])) g"
        using Some a a'(3) tables_ok_other [OF tab Some, of g]
        by (auto simp: clients_at_def e' split: option.splits)
    qed
    moreover have "grows s ?s'" "dom (arrays ?s') \<subseteq> insert p (dom (arrays s))" "counter_map ?s' = counter_map s"
      by (auto simp: grows_def with_key_def)
    ultimately show ?thesis using enter look Some a'(1) m(1) t(1) by (auto simp: insert_client_info_to_map_def)
  next
    case None
    define p where "p = pe_malloc e (\<lambda>p. arrays s p \<noteq> None)"
    define A where "A = (arrays s)(p \<mapsto> initArray (pe_grants e) 1 :: 'c dyn_array)"
    have p: "p \<noteq> 0" "arrays s p = None" using mem by (simp_all add: mem_ok_def p_def)
    have new: "new_table e ?s = Inr (p, ?s\<lparr>arrays := A\<rparr>)" using p(1) by (simp add: new_table_def p_def A_def Let_def)
    have heap: "nk_heap e (?s\<lparr>arrays := A\<rparr>) = nk_heap e ?s" by (simp add: nk_heap_def fun_eq_iff)
    have "can_grow (pe_calloc e) m" using mem m by (simp add: mem_ok_def)
    from sh.set_spec [OF m(2) this _ shared_given_buffer [OF inv1], of p] inv h obtain m' where m':
      "hashmap_set (pe_calloc e) (nk_heap e ?s) m (pe_key_addr e) (nk_size e) p = Inr m'"
      "hm_inv (shared_ident e) (\<lambda>h. h) m'" "hm_entries (shared_ident e) m' = AList.update h p ?es"
      "hm_count m' \<le> hm_count m + 1" "hm_capacity m' = (if over_load m then 2 * hm_capacity m else hm_capacity m)"
      by (auto simp: proc_inv_def buffer_hash_def es)
    let ?s2 = "?s\<lparr>arrays := A, client_info_map := Some m'\<rparr>"
    have init: "da_inv (initArray (pe_grants e) 1 :: 'c dyn_array)"
      "da_list (initArray (pe_grants e) 1 :: 'c dyn_array) = []"
      using initArray_spec [of "pe_grants e"] grants by auto
    have init_at: "arrays ?s2 p = Some (initArray (pe_grants e) 1)" by (simp add: A_def)
    obtain a' where "add_client e p c ?s2 = Inr (?s2\<lparr>arrays := (arrays ?s2)(p \<mapsto> a')\<rparr>)" "da_inv a'"
      "da_list a' = da_list (initArray (pe_grants e) 1) @ [c]"
      by (rule add_client_spec [OF init_at init(1) grants])
    then have a': "add_client e p c ?s2 = Inr (?s2\<lparr>arrays := A(p \<mapsto> a')\<rparr>)" "da_inv a'" "da_list a' = [c]"
      using init(2) by simp_all
    let ?s' = "?s2\<lparr>arrays := A(p \<mapsto> a')\<rparr>"
    have not: "h \<notin> fst ` set ?es" using None by (simp add: map_of_eq_None_iff)
    have e': "info_entries e ?s' = ?es @ [(h, p)]"
      using m'(3) not by (simp add: info_entries_def alist_update_new)
    have fresh: "p \<notin> snd ` set ?es" using tab p(2) by (auto simp: tables_ok_def)
    then have "tables_ok (?es @ [(h, p)]) (A(p \<mapsto> a'))"
      using tab a'(2,3) p by (auto simp: tables_ok_def A_def)
    then have "proc_inv e ?s'" using inv1 m'(2) e' by (simp add: proc_inv_def)
    moreover have "clients_at e ?s' = (clients_at e s)(h := clients_at e s h @ [c])"
    proof
      fix g
      have mo: "map_of (info_entries e ?s') g = (if g = h then Some p else map_of ?es g)"
        unfolding e' using None by (simp add: map_add_def split: option.splits)
      have arr: "arrays ?s' = (arrays s)(p \<mapsto> a')" by (simp add: A_def)
      have "q \<noteq> p" if "map_of ?es g = Some q" for q using fresh map_of_SomeD [OF that] by force
      with None a'(3) show "clients_at e ?s' g = ((clients_at e s)(h := clients_at e s h @ [c])) g"
        unfolding clients_at_def mo arr by (simp split: option.splits)
    qed
    moreover have "grows s ?s'" using m(1) m'(4,5) by (simp add: grows_def)
    moreover have "dom (arrays ?s') \<subseteq> insert p (dom (arrays s))" "counter_map ?s' = counter_map s"
      by (auto simp: A_def with_key_def)
    moreover have "insert_client_info_to_map e key r c s = Inr ?s'" "normalized_key ?s' = nk_after t (normalized_key s)"
      using enter look None new heap m' m(1) a'(1) t(1) by (simp_all add: insert_client_info_to_map_def)
    ultimately show ?thesis by blast
  qed
qed

text \<open>Looking up returns the array of what is registered under the buffer's hash, else NULL.\<close>

lemma get_from_map_spec:
  assumes inv: "proc_inv e s" and t: "t = req_key (unat r) key" "length t < pe_max_key e"
  shows "get_from_map e key r s =
    Inr (case map_of (info_entries e s) (buffer_hash e t (normalized_key s)) of None \<Rightarrow> 0 | Some p \<Rightarrow> p, with_key t s)"
proof -
  obtain m where m: "client_info_map s = Some m" using inv by (auto simp: proc_inv_def)
  from enter_key [OF inv, of "unat r" key, folded t(1), OF t(2)] lookup_key [OF inv t(2) m] m t(1) show ?thesis
    by (simp add: get_from_map_def split: option.splits)
qed

lemma clients_at_empty:
  assumes "proc_inv e s" "clients_at e s h = []"
  shows "map_of (info_entries e s) h = None"
proof (cases "map_of (info_entries e s) h")
  case (Some p)
  have "tables_ok (info_entries e s) (arrays s)" using assms(1) by (simp add: proc_inv_def)
  from tables_okD [OF this Some] obtain a where "arrays s p = Some a" "da_list a \<noteq> []" .
  with assms(2) Some show ?thesis by (simp add: clients_at_def)
qed

text \<open>Removing a key: the second formatting and lookup repeat the first.\<close>

lemma remove_get_again:
  assumes inv: "proc_inv e s" and t: "t = req_key (unat r) key" "length t < pe_max_key e"
  shows "get_from_map e key r (with_key t s) =
    Inr (case map_of (info_entries e s) (buffer_hash e t (normalized_key s)) of None \<Rightarrow> 0 | Some p \<Rightarrow> p, with_key t s)"
proof -
  have "length t < length (normalized_key s)" using inv t(2) by (simp add: proc_inv_def)
  then show ?thesis
    using get_from_map_spec [OF proc_inv_with_key [OF inv t(2)] t]
    by (simp add: buffer_hash_again with_key_idem)
qed

lemma remove_key_spec:
  assumes inv: "proc_inv e s" and t: "t = req_key (unat r) key" "length t < pe_max_key e"
    and h: "h = buffer_hash e t (normalized_key s)" and p: "map_of (info_entries e s) h = Some p"
  shows "\<exists>s'. remove_key_from_map e key r s = Inr s' \<and> proc_inv e s' \<and>
    clients_at e s' = (clients_at e s)(h := []) \<and> arrays s' p = Some (freeArray (the (arrays s p)))"
proof -
  obtain m where m: "client_info_map s = Some m" "hm_inv (shared_ident e) (\<lambda>h. h) m"
    using inv by (auto simp: proc_inv_def)
  let ?s = "with_key t s" let ?es = "info_entries e s"
  note inv1 = proc_inv_with_key [OF inv t(2)]
  have tab: "tables_ok ?es (arrays s)" using inv by (simp add: proc_inv_def)
  from tables_okD [OF tab p] obtain a where a: "arrays s p = Some a" "p \<noteq> 0" by metis
  define s2 where "s2 = ?s\<lparr>arrays := (arrays s)(p \<mapsto> freeArray a)\<rparr>"
  have heap: "nk_heap e s2 = nk_heap e ?s" by (simp add: nk_heap_def s2_def fun_eq_iff)
  obtain m' where m': "hashmap_remove (nk_heap e ?s) m (pe_key_addr e) (nk_size e) = Inr m'"
    "hm_inv (shared_ident e) (\<lambda>h. h) m'" "hm_entries (shared_ident e) m' = AList.delete h ?es"
    using sh.remove_spec [OF m(2) shared_given_buffer [OF inv1]] m h by (auto simp: buffer_hash_def info_entries_def)
  let ?s' = "s2\<lparr>client_info_map := Some m'\<rparr>"
  have r: "remove_key_from_map e key r s = Inr ?s'"
    using enter_key [OF inv, of "unat r" key, folded t(1), OF t(2)] remove_get_again [OF inv t] p h a(1) m(1) m'(1) heap
    by (simp add: remove_key_from_map_def s2_def [symmetric] Let_def)
  have e': "info_entries e ?s' = AList.delete h ?es" using m'(3) by (simp add: info_entries_def)
  have mo: "map_of (info_entries e ?s') g = (if g = h then None else map_of ?es g)" for g
    unfolding e' by (simp add: delete_conv')
  have arr: "arrays ?s' = (arrays s)(p \<mapsto> freeArray a)" by (simp add: s2_def)
  have dist: "distinct (map fst ?es)" using hm_entries_distinct [OF m(2)] m(1) by (simp add: info_entries_def)
  have other: "q \<noteq> p" if "(g, q) \<in> set ?es" "g \<noteq> h" for g q
    using tables_ok_other [OF tab p, of g q] that dist by auto
  have "distinct (map snd (AList.delete h ?es))"
    using tab by (auto simp: tables_ok_def alist_delete_filter distinct_map intro: inj_on_subset)
  then have "tables_ok (info_entries e ?s') (arrays ?s')"
    using tab other a(2) unfolding e' arr by (auto simp: tables_ok_def alist_delete_filter)
  then have "proc_inv e ?s'" using inv1 m'(2) by (simp add: proc_inv_def s2_def)
  moreover have "clients_at e ?s' = (clients_at e s)(h := [])"
  proof
    fix g
    have "q \<noteq> p" if "map_of ?es g = Some q" "g \<noteq> h" for q using other map_of_SomeD that by metis
    then show "clients_at e ?s' g = ((clients_at e s)(h := [])) g"
      unfolding clients_at_def mo arr by (simp split: option.splits)
  qed
  ultimately show ?thesis using r a(1) arr by simp
qed

lemma remove_unknown_spec:
  assumes inv: "proc_inv e s" and t: "t = req_key (unat r) key" "length t < pe_max_key e"
    and none: "clients_at e s (buffer_hash e t (normalized_key s)) = []"
  shows "remove_key_from_map e key r s = Inl Null_deref"
proof -
  have "arrays s 0 = None" using inv by (simp add: proc_inv_def tables_ok_def)
  with enter_key [OF inv, of "unat r" key, folded t(1), OF t(2)] remove_get_again [OF inv t]
    clients_at_empty [OF inv none] show ?thesis
    by (simp add: remove_key_from_map_def)
qed

text \<open>An id handed over as an \<open>int\<close>.\<close>

lemma unat_ucast_16_32: "unat (ucast (r :: u16) :: u32) = unat r"
  by (simp add: unsigned_ucast_eq take_bit_nat_eq_self order.strict_trans2 [OF unsigned_less])

text \<open>A fresh start.\<close>

lemma initialize_map_spec:
  assumes "pe_key_addr e \<noteq> 0" "0 < pe_max_key e" "pe_calloc e 20"
  shows "proc_inv e (initialize_map e (proc_start e :: 'c proc_state))"
    "clients_at e (initialize_map e (proc_start e :: 'c proc_state)) h = []"
    "can_grow (pe_calloc e) (hashmap_create (pe_calloc e))"
proof -
  let ?s = "initialize_map e (proc_start e :: 'c proc_state)"
  have m: "client_info_map ?s = Some (hashmap_create (pe_calloc e))" "arrays ?s = (\<lambda>_. None)"
    "normalized_key ?s = replicate (pe_max_key e) 0"
    by (simp_all add: initialize_map_def proc_start_def)
  have c: "hm_inv (shared_ident e) (\<lambda>h. h) (hashmap_create (pe_calloc e))"
    "hm_entries (shared_ident e) (hashmap_create (pe_calloc e)) = []"
    using sh.create_spec [of "pe_calloc e"] assms(3) by simp_all
  then have "info_entries e ?s = []" using m by (simp add: info_entries_def)
  then show "proc_inv e ?s" "clients_at e ?s h = []"
    using assms m c by (simp_all add: proc_inv_def tables_ok_def clients_at_def)
  show "can_grow (pe_calloc e) (hashmap_create (pe_calloc e))"
    using sh.create_spec(3,4) [of "pe_calloc e"] assms(3) float_of_nat_exact [of 1]
    by (simp add: can_grow_def over_load_def)
qed

end
