(* ===== verification/Map_Behaviour.thy ===== *)
theory Map_Behaviour
  imports Client_Tables
begin

text \<open>
  The properties of the earlier code under \<open>deprecated\<close>: the hash map as an
  insertion-ordered association list, growing arrays, and the client tables built from both.
\<close>

section \<open>The hash map\<close>

text \<open>C12: refinement: from an empty map, any sequence of the seven operations (set, look up,
  remove, size, get or set, set and remove with a callback for the old value) with readable,
  nonnull keys and at most 2^29 - 1 sets runs without a fault or an
  endless loop and gives the answers an insertion-ordered association list gives.\<close>

theorem hashmap_refines_alist:
  assumes "refs_valid (ref_ok H) cs" "puts cs \<le> put_limit"
  shows "\<exists>m as. map_run (hm_ops H) cs (hashmap_create (\<lambda>_. True)) = Inr (m, as) \<and>
    map_run (alist_ops (ref_content H)) cs [] = Inr (hm_entries (bkey H) m, as)"
  using hm.run_refines [OF create_grown, of H cs] assms ct.create_spec(2) [of "\<lambda>_. True" H]
  by (auto simp: hm_ops_def)

text \<open>The shape of a map whatever its keys: sizes agree, links stay inside and never cycle.\<close>

definition hm_wf :: "hashmap \<Rightarrow> bool" where
  "hm_wf m \<longleftrightarrow> length (hm_buckets m) = hm_capacity m \<and> hm_count m < hm_capacity m \<and>
     hm_tombstone_count m \<le> hm_count m \<and> length (hm_order m) = hm_count m \<and> distinct (hm_order m) \<and>
     list_all (\<lambda>i. i < hm_capacity m) (hm_order m) \<and> hm_capacity m mod 20 = 0 \<and>
     lseg (hm_buckets m) (hm_first m) (hm_order m) None"

lemma hm_inv_wf:
  assumes "hm_inv ident hk m"
  shows "hm_wf m"
proof -
  note f = hm_inv_fields [OF assms]
  have "hm_capacity m mod 20 = 0" using assms by (auto simp: hm_inv_def)
  moreover have "hm_tombstone_count m \<le> hm_count m" by (simp add: f(4,5) tombs_def)
  moreover have "list_all (\<lambda>i. i < hm_capacity m) (hm_order m)" by (simp add: list_all_iff hm_order_bound [OF assms])
  moreover have "distinct (hm_order m)" "lseg (hm_buckets m) (hm_first m) (hm_order m) None"
    using f(2) by (simp_all add: hm_chain_def)
  ultimately show ?thesis using f(3,4,6) by (simp add: hm_wf_def)
qed

text \<open>C34: every map such a sequence of operations produces is well formed: its array has
  \<open>capacity\<close> buckets, a multiple of 20 and more than are in use, and its list runs through
  exactly \<open>count\<close> different buckets of the array and ends.\<close>

theorem hashmap_well_formed:
  assumes "refs_valid (ref_ok H) cs" "puts cs \<le> put_limit"
    and "map_run (hm_ops H) cs (hashmap_create (\<lambda>_. True)) = Inr (m, as)"
  shows "hm_wf m"
proof -
  obtain m' as' where "map_run (hm_ops H) cs (hashmap_create (\<lambda>_. True)) = Inr (m', as')" "hm_grown H (0 + puts cs) m'"
    using hm.run_refines [OF create_grown, of H cs] assms(1,2) by (auto simp: hm_ops_def)
  with assms(3) show ?thesis by (auto simp: hm_grown_def intro: hm_inv_wf)
qed

text \<open>Setting a key keeps every other entry and the order, changes the value in place or
  adds the key at the end, and doubles the capacity exactly when the load is over three
  quarters.\<close>

theorem hashmap_set_updates:
  assumes "hm_inv (bkey H) hash_data m" "can_grow calloc m" "key \<noteq> 0" "key_bytes H key ksize = Inr k"
  shows "\<exists>m'. hashmap_set calloc H m key ksize v = Inr m' \<and> hm_inv (bkey H) hash_data m' \<and>
    hm_entries (bkey H) m' = AList.update k v (hm_entries (bkey H) m) \<and>
    hm_capacity m' = (if over_load m then 2 * hm_capacity m else hm_capacity m)"
  using ct.set_spec [OF assms] by blast

text \<open>\<open>hashmap_get_set\<close> returns whether the key was there; if it was, its value comes out
  and nothing changes, else the given value goes in.\<close>

theorem hashmap_get_set_returns:
  assumes "hm_inv (bkey H) hash_data m" "can_grow calloc m" "key \<noteq> 0" "key_bytes H key ksize = Inr k"
  shows "\<exists>m'. hashmap_get_set calloc H m key ksize v =
      Inr (m', case map_of (hm_entries (bkey H) m) k of None \<Rightarrow> (False, v) | Some w \<Rightarrow> (True, w)) \<and>
    hm_inv (bkey H) hash_data m' \<and> hm_entries (bkey H) m' = (case map_of (hm_entries (bkey H) m) k of
      None \<Rightarrow> hm_entries (bkey H) m @ [(k, v)] | Some w \<Rightarrow> hm_entries (bkey H) m)"
  using ct.get_set_spec [OF assms] by blast

text \<open>C20: growing a map doubles the array, drops the tombstones and keeps every entry and the
  order; the loop ends.\<close>

theorem hashmap_resize_keeps_entries:
  assumes "hm_inv (bkey H) hash_data m" "hm_order m \<noteq> []" "2 * hm_capacity m < 2 ^ 31" "calloc (2 * hm_capacity m)"
  shows "\<exists>m'. hashmap_resize calloc m = Inr m' \<and> hm_inv (bkey H) hash_data m' \<and>
    hm_entries (bkey H) m' = hm_entries (bkey H) m \<and> hm_capacity m' = 2 * hm_capacity m \<and>
    hm_tombstone_count m' = 0 \<and> hm_count m' = hashmap_size m"
  by (rule ct.resize_keeps) (rule assms)+

lemma find_probe_decides:
  "\<exists>D. \<forall>n. find_probe H bs cap key ksize hash (Suc n) i =
    bindr D (\<lambda>stop. if stop then Inr i else find_probe H bs cap key ksize hash n ((i + 1) mod cap))"
  by (rule exI [of _ "if \<not> i < length bs then Inl Out_of_bounds
    else if bk_key (bs ! i) = 0 \<and> bk_value (bs ! i) = 0 then Inr True
    else if bk_key (bs ! i) \<noteq> 0 \<and> bk_ksize (bs ! i) = ksize \<and> bk_hash (bs ! i) = hash
    then key_eq H (bk_key (bs ! i)) key ksize else Inr False"]) (auto simp: Let_def)

lemma find_probe_more_fuel:
  "find_probe H bs cap key ksize hash n i = Inr j \<Longrightarrow> n \<le> n' \<Longrightarrow> find_probe H bs cap key ksize hash n' i = Inr j"
proof (induction n arbitrary: i n')
  case (Suc n)
  from Suc.prems(2) obtain l where l: "n' = Suc l" "n \<le> l" by (cases n') auto
  obtain D where D: "\<And>n. find_probe H bs cap key ksize hash (Suc n) i =
    bindr D (\<lambda>stop. if stop then Inr i else find_probe H bs cap key ksize hash n ((i + 1) mod cap))"
    using find_probe_decides by blast
  from Suc.prems(1) Suc.IH [OF _ l(2)] show ?case unfolding l(1) D by (auto simp: bindr_eq_Inr split: if_splits)
qed simp

text \<open>C26: probing ends: in a well-formed map \<open>find_entry\<close> reaches its bucket within
  \<open>capacity\<close> steps, and more steps allowed change nothing.\<close>

theorem find_entry_ends:
  assumes "hm_inv (bkey H) hash_data m" "key_bytes H key ksize = Inr k" "hm_capacity m \<le> n"
  shows "\<exists>i < hm_capacity m. find_entry H m key ksize (hash_data k) = Inr i \<and>
    find_probe H (hm_buckets m) (hm_capacity m) key ksize (hash_data k) n
      (unat (hash_data k) mod hm_capacity m) = Inr i"
proof -
  obtain i where "find_entry H m key ksize (hash_data k) = Inr i" "i < hm_capacity m"
    using ct.find_entry_spec [OF assms(1,2)] by metis
  with find_probe_more_fuel [OF _ assms(3)] show ?thesis by (auto simp: find_entry_def)
qed

text \<open>The walk calls back on the live entries among the first 1002 places of the list, in
  order, and on no other.\<close>

theorem hashmap_iterate_calls:
  assumes "hm_inv (bkey H) hash_data m"
  shows "hashmap_iterate m (note_call H) [] =
    Inr (map (map_prod Inr id) (seq_entries (bkey H) (hm_buckets m) (take 1002 (hm_order m))))"
  by (rule iterate_spec [OF assms])

lemma seq_entries_length: "length (seq_entries ident bs is) \<le> length is"
  by (simp add: seq_entries_def)

text \<open>So a map of more than 1002 entries is not walked to its end, against what
  \<open>map.h\<close> says.\<close>

theorem hashmap_iterate_misses:
  assumes "hm_inv (bkey H) hash_data m" "1002 < hashmap_size m"
  shows "\<exists>calls. hashmap_iterate m (note_call H) [] = Inr calls \<and> length calls < hashmap_size m"
  using iterate_spec [OF assms(1)] assms(2)
    seq_entries_length [of "bkey H" "hm_buckets m" "take 1002 (hm_order m)"]
  by (auto simp: le_less_trans)

section \<open>Growing arrays\<close>

fun insert_all :: "(nat \<Rightarrow> bool) \<Rightarrow> 'c list \<Rightarrow> 'c dyn_array \<Rightarrow> 'c dyn_array res" where
  "insert_all grants [] a = Inr a"
| "insert_all grants (e # es) a = bindr (insertArray grants a e) (insert_all grants es)"

lemma insert_all_spec:
  "da_inv a \<Longrightarrow> \<forall>n. grants n \<Longrightarrow>
     \<exists>a'. insert_all grants es a = Inr a' \<and> da_inv a' \<and> da_list a' = da_list a @ es"
proof (induction es arbitrary: a)
  case (Cons e es)
  obtain a1 where "insertArray grants a e = Inr a1" "da_inv a1" "da_list a1 = da_list a @ [e]"
    using insertArray_spec [OF Cons.prems(1)] Cons.prems(2) by blast
  moreover from Cons.IH [OF this(2) Cons.prems(2)] obtain a' where
    "insert_all grants es a1 = Inr a'" "da_inv a'" "da_list a' = da_list a1 @ es" by blast
  ultimately show ?case by simp
qed simp

text \<open>An array started with one cell collects any number of elements in order, and is
  never more than twice as long as what it holds.\<close>

theorem insertArray_collects:
  fixes es :: "'c list"
  shows "\<exists>a. insert_all (\<lambda>_. True) es (initArray (\<lambda>_. True) 1) = Inr a \<and> da_list a = es \<and>
    da_size a \<le> max 1 (2 * length es)"
proof -
  have init: "da_inv (initArray (\<lambda>_. True) 1 :: 'c dyn_array)" "da_list (initArray (\<lambda>_. True) 1 :: 'c dyn_array) = []"
    by (rule initArray_spec [THEN conjunct1] initArray_spec [THEN conjunct2], simp)+
  from insert_all_spec [OF init(1), of "\<lambda>_. True" es] init(2) obtain a where
    a: "insert_all (\<lambda>_. True) es (initArray (\<lambda>_. True) 1) = Inr a" "da_inv a" "da_list a = es"
    by (metis append_Nil)
  with da_list_length [OF a(2)] show ?thesis by (auto simp: da_inv_def)
qed

section \<open>Client tables\<close>

text \<open>C18: registering a client adds it at the end of the list kept under the hash of the
  buffer, and no other list changes.\<close>

theorem insert_client_registers:
  assumes "proc_inv e s" "mem_ok e s" "length (req_key (unat r) key) < pe_max_key e"
  shows "\<exists>s'. insert_client_info_to_map e key r c s = Inr s' \<and> proc_inv e s' \<and>
    clients_at e s' = (let h = buffer_hash e (req_key (unat r) key) (normalized_key s)
                       in (clients_at e s)(h := clients_at e s h @ [c]))"
  using insert_spec [OF assms(1) refl assms(3,2) refl, of c] unfolding Let_def by blast

text \<open>A lookup right after the registration finds the client, as the last of its list.\<close>

theorem registered_client_found:
  assumes "proc_inv e s" "mem_ok e s" "length (req_key (unat r) key) < pe_max_key e"
    and "insert_client_info_to_map e key (ucast r) c s = Inr s'"
  shows "\<exists>p a s''. get_from_map e key r s' = Inr (p, s'') \<and> arrays s'' p = Some a \<and> last (da_list a) = c"
proof -
  let ?t = "req_key (unat r) key" let ?h = "buffer_hash e ?t (normalized_key s)"
  have u: "unat (ucast r :: u32) = unat r" by (rule unat_ucast_16_32)
  have len: "length ?t < length (normalized_key s)" using assms(1,3) by (simp add: proc_inv_def)
  have s': "proc_inv e s'" "normalized_key s' = nk_after ?t (normalized_key s)"
    "clients_at e s' = (clients_at e s)(?h := clients_at e s ?h @ [c])"
    using insert_spec [OF assms(1) refl _ assms(2) refl, of "ucast r" key c] assms(3,4) by (auto simp: u)
  then have at: "clients_at e s' ?h = clients_at e s ?h @ [c]" by simp
  then obtain p a where p: "map_of (info_entries e s') ?h = Some p" "arrays s' p = Some a" "da_list a = clients_at e s ?h @ [c]"
    by (auto simp: clients_at_def split: option.splits)
  have "get_from_map e key r s' = Inr (p, with_key ?t s')"
    using get_from_map_spec [OF s'(1) refl assms(3)] p(1) len by (simp add: s'(2) buffer_hash_again)
  with p(2,3) show ?thesis by auto
qed

text \<open>C28: because the buffer is not cleared, a lookup of a longer key in between leaves bytes
  behind the shorter key: it is then looked up under another hash, and a client that is still
  registered is not found.\<close>

theorem longer_key_hides_client:
  assumes "proc_inv e s" "mem_ok e s"
    and "length (req_key (unat r) key) < pe_max_key e" "length (req_key (unat r') key') < pe_max_key e"
    and "insert_client_info_to_map e key (ucast r) c s = Inr s1" "get_from_map e key' r' s1 = Inr (q, s2)"
    and "buffer_hash e (req_key (unat r) key) (normalized_key s2) \<noteq> buffer_hash e (req_key (unat r) key) (normalized_key s)"
    and "clients_at e s (buffer_hash e (req_key (unat r) key) (normalized_key s2)) = []"
  shows "\<exists>s3. get_from_map e key r s2 = Inr (0, s3) \<and>
    c \<in> set (clients_at e s3 (buffer_hash e (req_key (unat r) key) (normalized_key s)))"
proof -
  let ?t = "req_key (unat r) key" let ?h = "buffer_hash e ?t (normalized_key s)"
  have u: "unat (ucast r :: u32) = unat r" by (rule unat_ucast_16_32)
  have s1: "proc_inv e s1" "clients_at e s1 = (clients_at e s)(?h := clients_at e s ?h @ [c])"
    using insert_spec [OF assms(1) refl _ assms(2) refl, of "ucast r" key c] assms(3,5) by (auto simp: u)
  have s2: "s2 = with_key (req_key (unat r') key') s1"
    using get_from_map_spec [OF s1(1) refl assms(4)] assms(6) by simp
  have inv2: "proc_inv e s2" using proc_inv_with_key [OF s1(1) assms(4)] s2 by simp
  have at2: "clients_at e s2 = clients_at e s1" by (simp add: s2 fun_eq_iff)
  have "clients_at e s2 (buffer_hash e ?t (normalized_key s2)) = []" using assms(7,8) at2 s1(2) by simp
  from clients_at_empty [OF inv2 this] get_from_map_spec [OF inv2 refl assms(3)]
  have "get_from_map e key r s2 = Inr (0, with_key ?t s2)" by simp
  moreover have "clients_at e (with_key ?t s2) ?h = clients_at e s ?h @ [c]" by (simp add: at2 s1(2))
  ultimately show ?thesis by simp
qed

text \<open>Removing a registered key frees its array and forgets its clients only.\<close>

theorem remove_key_forgets:
  assumes "proc_inv e s" "length (req_key (unat r) key) < pe_max_key e"
    and "map_of (info_entries e s) (buffer_hash e (req_key (unat r) key) (normalized_key s)) = Some p"
  shows "\<exists>s'. remove_key_from_map e key r s = Inr s' \<and> proc_inv e s' \<and>
    clients_at e s' = (clients_at e s)(buffer_hash e (req_key (unat r) key) (normalized_key s) := []) \<and>
    arrays s' p = Some (freeArray (the (arrays s p)))"
  by (rule remove_key_spec [OF assms(1) refl assms(2) refl assms(3)])

text \<open>Removing a key nobody is registered under dereferences NULL.\<close>

theorem remove_key_unknown_crashes:
  assumes "proc_inv e s" "length (req_key (unat r) key) < pe_max_key e"
    and "clients_at e s (buffer_hash e (req_key (unat r) key) (normalized_key s)) = []"
  shows "remove_key_from_map e key r s = Inl Null_deref"
  by (rule remove_unknown_spec [OF assms(1) refl assms(2,3)])

end
