(* ===== verification/Map_Examples.thy ===== *)
theory Map_Examples
  imports Map_Behaviour
begin

text \<open>The properties of the earlier code at concrete keys, maps and tables.\<close>

section \<open>Two keys\<close>

definition ex_keys :: key_heap where
  "ex_keys = [0x1000 \<mapsto> str ''k1'', 0x2000 \<mapsto> str ''k2'']"

definition ex_map :: hashmap where "ex_map = hashmap_create (\<lambda>_. True)"

definition ex_ops :: "(u64 \<times> nat, u64) map_op list" where
  "ex_ops = [Put (0x1000, 2) 7, Put (0x2000, 2) 8, Put (0x1000, 2) 9, Del (0x2000, 2),
     Look (0x1000, 2), Look (0x2000, 2), Count, Fetch (0x2000, 2) 3, Swap (0x2000, 2) 4, Take (0x2000, 2)]"

lemma ex_key_bytes [simp]:
  "key_bytes ex_keys 0x1000 2 = Inr (str ''k1'')" "key_bytes ex_keys 0x2000 2 = Inr (str ''k2'')"
  by (simp_all add: key_bytes_def ex_keys_def)

lemma ex_ops_ok: "refs_valid (ref_ok ex_keys) ex_ops" "puts ex_ops \<le> put_limit"
  by (simp_all add: ex_ops_def ref_ok_def put_limit_def)

lemma ex_ops_spec:
  "map_run (alist_ops (ref_content ex_keys)) ex_ops [] = Inr ([(str ''k1'', 9)],
     [Nothing, Nothing, Nothing, Nothing, Value (Some 9), Value None, Number 1, Value None, Value (Some 3), Value (Some 4)])"
  by (simp add: ex_ops_def alist_ops_def ref_content_def answer_def alist_fetch_def)

theorem hashmap_refines_alist_witness:
  "\<exists>m. map_run (hm_ops ex_keys) ex_ops (hashmap_create (\<lambda>_. True)) = Inr (m,
     [Nothing, Nothing, Nothing, Nothing, Value (Some 9), Value None, Number 1, Value None, Value (Some 3), Value (Some 4)]) \<and>
     hm_entries (bkey ex_keys) m = [(str ''k1'', 9)]"
  using hashmap_refines_alist [OF ex_ops_ok] unfolding ex_ops_spec by auto

lemma ex_run: "\<exists>m as. map_run (hm_ops ex_keys) ex_ops (hashmap_create (\<lambda>_. True)) = Inr (m, as)"
  using hm.run_refines [OF create_grown ex_ops_ok(1)] ex_ops_ok(2) by (auto simp: hm_ops_def)

theorem hashmap_well_formed_witness:
  "\<exists>m as. map_run (hm_ops ex_keys) ex_ops (hashmap_create (\<lambda>_. True)) = Inr (m, as) \<and> hm_wf m"
  using ex_run hashmap_well_formed [OF ex_ops_ok] by blast

lemma ex_map_inv: "hm_inv (bkey H) hash_data ex_map" "hm_entries (bkey H) ex_map = []"
  "can_grow (\<lambda>_. True) ex_map" "hm_capacity ex_map = 20" "hm_count ex_map = 0"
  using ct.create_spec [of "\<lambda>_. True"] float_of_nat_exact [of 1]
  by (simp_all add: ex_map_def can_grow_def over_load_def)

theorem hashmap_set_updates_witness:
  "\<exists>m. hashmap_set (\<lambda>_. True) ex_keys ex_map 0x1000 2 7 = Inr m \<and> hm_entries (bkey ex_keys) m = [(str ''k1'', 7)]"
  using hashmap_set_updates [OF ex_map_inv(1,3) _ ex_key_bytes(1), of 7] ex_map_inv(2) by auto

theorem hashmap_get_set_returns_witness:
  "\<exists>m. hashmap_get_set (\<lambda>_. True) ex_keys ex_map 0x1000 2 7 = Inr (m, False, 7) \<and>
     hm_entries (bkey ex_keys) m = [(str ''k1'', 7)]"
  using hashmap_get_set_returns [OF ex_map_inv(1,3) _ ex_key_bytes(1), of 7] ex_map_inv(2) by auto

lemma ex_one:
  obtains m where "hm_inv (bkey ex_keys) hash_data m" "hm_entries (bkey ex_keys) m = [(str ''k1'', 7)]"
    "hm_capacity m = 20" "hm_order m \<noteq> []"
proof -
  obtain m where m: "hm_inv (bkey ex_keys) hash_data m" "hm_entries (bkey ex_keys) m = [(str ''k1'', 7)]"
    "hm_capacity m = (if over_load ex_map then 2 * hm_capacity ex_map else hm_capacity ex_map)"
    using ct.set_spec [OF ex_map_inv(1,3) _ ex_key_bytes(1), of 7] ex_map_inv(2) by auto
  moreover have "\<not> over_load ex_map" using ex_map_inv(4,5) float_of_nat_exact [of 1] by (simp add: over_load_def)
  moreover have "hm_order m \<noteq> []" using m(2) by (auto simp: hm_entries_def seq_entries_def)
  ultimately show thesis using that ex_map_inv(4) by simp
qed

theorem hashmap_resize_keeps_entries_witness:
  "\<exists>m m'. hashmap_resize (\<lambda>_. True) m = Inr m' \<and> hm_entries (bkey ex_keys) m' = [(str ''k1'', 7)] \<and>
     hm_capacity m' = 40"
proof -
  obtain m where m: "hm_inv (bkey ex_keys) hash_data m" "hm_entries (bkey ex_keys) m = [(str ''k1'', 7)]"
    "hm_capacity m = 20" "hm_order m \<noteq> []" by (rule ex_one)
  with hashmap_resize_keeps_entries [OF m(1,4), of "\<lambda>_. True"] show ?thesis by auto
qed

theorem find_entry_ends_witness:
  "\<exists>i < 20. find_entry ex_keys ex_map 0x1000 2 (hash_data (str ''k1'')) = Inr i"
  using find_entry_ends [OF ex_map_inv(1) ex_key_bytes(1) order_refl] unfolding ex_map_inv(4) by blast

theorem hashmap_iterate_calls_witness:
  "\<exists>m. hashmap_iterate m (note_call ex_keys) [] = Inr [(Inr (str ''k1''), 7)]"
proof -
  obtain m where m: "hm_inv (bkey ex_keys) hash_data m" "hm_entries (bkey ex_keys) m = [(str ''k1'', 7)]"
    "hm_capacity m = 20" "hm_order m \<noteq> []" by (rule ex_one)
  have "length (hm_order m) < 20" using hm_inv_fields(4,6) [OF m(1)] m(3) by simp
  then have "take 1002 (hm_order m) = hm_order m" by simp
  with hashmap_iterate_calls [OF m(1)] m(2) show ?thesis by (auto simp: hm_entries_def)
qed

section \<open>Many keys\<close>

definition ex_numbers :: key_heap where "ex_numbers p = Some (to_le64 p)"

definition ex_puts :: "nat \<Rightarrow> (u64 \<times> nat, u64) map_op list" where
  "ex_puts n = map (\<lambda>i. Put (word_of_nat (i + 1), 8) 0) [0..<n]"

lemma ex_puts_Suc: "ex_puts (Suc n) = ex_puts n @ [Put (word_of_nat (n + 1), 8) 0]"
  by (simp add: ex_puts_def)

lemma map_run_append:
  "map_run f (cs @ ds) m = bindr (map_run f cs m) (\<lambda>(m, as). bindr (map_run f ds m) (\<lambda>(m, bs). Inr (m, as @ bs)))"
proof (induction cs arbitrary: m)
  case Nil
  show ?case by (cases "map_run f ds m") auto
next
  case (Cons c cs)
  show ?case
    by (cases "map_step f c m") (auto simp: Cons.IH bindr_def split: sum.splits prod.splits)
qed

lemma ex_content: "ref_content ex_numbers (p, 8) = to_le64 p"
  by (simp add: ref_content_def key_bytes_def ex_numbers_def)

lemma ex_puts_spec:
  "n < 2000 \<Longrightarrow> \<exists>es as. map_run (alist_ops (ref_content ex_numbers)) (ex_puts n) [] = Inr (es, as) \<and>
     length es = n \<and> fst ` set es = (\<lambda>i. to_le64 (word_of_nat (i + 1))) ` {..<n}"
proof (induction n)
  case 0
  then show ?case by (simp add: ex_puts_def)
next
  case (Suc n)
  then obtain es as where es: "map_run (alist_ops (ref_content ex_numbers)) (ex_puts n) [] = Inr (es, as)"
    "length es = n" "fst ` set es = (\<lambda>i. to_le64 (word_of_nat (i + 1))) ` {..<n}" by auto
  have "word_of_nat (n + 1) \<noteq> (word_of_nat (i + 1) :: u64)" if "i < n" for i
    using that Suc.prems by (simp add: word_of_nat_eq_iff take_bit_nat_eq_self)
  then have "to_le64 (word_of_nat (n + 1)) \<notin> fst ` set es"
    by (auto simp: es(3) dest!: le64.enc_inj)
  then have "AList.update (to_le64 (word_of_nat (n + 1))) 0 es = es @ [(to_le64 (word_of_nat (n + 1)), 0 :: u64)]"
    by (rule alist_update_new)
  with es show ?case
    by (simp add: ex_puts_Suc map_run_append alist_ops_def ex_content lessThan_Suc del: of_nat_Suc of_nat_add)
qed

lemma ex_puts_ok: "refs_valid (ref_ok ex_numbers) (ex_puts n)" if "n < 2000"
proof -
  have "word_of_nat (i + 1) \<noteq> (0 :: u64)" if "i < n" for i
    using that \<open>n < 2000\<close> by (simp only: word_of_nat_eq_0_iff) (auto dest: dvd_imp_le)
  then show ?thesis
    by (auto simp: refs_valid_def list_all_iff ex_puts_def ref_ok_def key_bytes_def ex_numbers_def)
qed

lemma ex_puts_count: "puts (ex_puts n) = n"
  by (simp add: puts_def ex_puts_def)

theorem hashmap_iterate_misses_witness:
  "\<exists>m calls. hashmap_size m = 1003 \<and> hashmap_iterate m (note_call ex_numbers) [] = Inr calls \<and>
     length calls < hashmap_size m"
proof -
  obtain m as where m: "map_run (hm_ops ex_numbers) (ex_puts 1003) (hashmap_create (\<lambda>_. True)) = Inr (m, as)"
    "hm_grown ex_numbers (0 + puts (ex_puts 1003)) m"
    "map_run (alist_ops (ref_content ex_numbers)) (ex_puts 1003) [] = Inr (hm_entries (bkey ex_numbers) m, as)"
    using hm.run_refines [OF create_grown ex_puts_ok, of 1003] ct.create_spec(2) [of "\<lambda>_. True" ex_numbers]
    by (auto simp: hm_ops_def ex_puts_count put_limit_def)
  have inv: "hm_inv (bkey ex_numbers) hash_data m" using m(2) by (simp add: hm_grown_def)
  have "hashmap_size m = 1003"
    using ex_puts_spec [of 1003] m(3) hm_size_entries [OF inv] by auto
  with hashmap_iterate_misses [OF inv] show ?thesis by auto
qed

section \<open>Client tables\<close>

text \<open>A key buffer of 16 bytes, and an allocator that has one block to give.\<close>

definition ex_proc :: proc_env where
  "ex_proc = \<lparr>pe_max_key = 16, pe_key_addr = 0x5000, pe_calloc = \<lambda>_. True, pe_grants = \<lambda>_. True,
     pe_malloc = \<lambda>used. if used 0x100 then 0 else 0x100\<rparr>"

definition ex_tables :: "nat proc_state" where
  "ex_tables = initialize_map ex_proc (proc_start ex_proc)"

lemma ex_started:
  fixes T :: "'c proc_state"
  assumes "T = initialize_map ex_proc (proc_start ex_proc)"
  shows "proc_inv ex_proc T" "clients_at ex_proc T h = []" "mem_ok ex_proc T" "normalized_key T = replicate 16 0"
    "initialize_map ex_proc T = T"
proof -
  have e: "pe_key_addr ex_proc \<noteq> 0" "0 < pe_max_key ex_proc" "pe_calloc ex_proc 20" by (simp_all add: ex_proc_def)
  note i = initialize_map_spec [OF e]
  show "proc_inv ex_proc T" "clients_at ex_proc T h = []" unfolding assms by (rule i)+
  have "client_info_map T = Some (hashmap_create (pe_calloc ex_proc))" "arrays T = (\<lambda>_. None)"
    by (simp_all add: assms initialize_map_def proc_start_def)
  with i(3) show "mem_ok ex_proc T" by (simp add: mem_ok_def) (simp add: ex_proc_def)
  show "normalized_key T = replicate 16 0"
    by (simp add: assms initialize_map_def proc_start_def) (simp add: ex_proc_def)
  show "initialize_map ex_proc T = T" by (simp add: assms initialize_map_def proc_start_def)
qed

lemmas ex_tables_ok = ex_started [OF ex_tables_def]

lemma dec_0: "dec 0 = [48]"
  by (simp add: dec.simps digit_def)

lemma ex_req_key: "req_key 0 (str ''ab'') = str ''0-ab''" "req_key 0 (str ''abcdef'') = str ''0-abcdef''"
  by (simp_all add: req_key_def dec_0)

lemma ex_fits: "length (req_key (unat (0 :: u16)) (str ''ab'')) < pe_max_key ex_proc"
  "length (req_key (unat (0 :: u16)) (str ''abcdef'')) < pe_max_key ex_proc"
  "length (req_key (unat (0 :: u32)) (str ''ab'')) < pe_max_key ex_proc"
  by (simp_all add: ex_req_key ex_proc_def del: str_simps) (simp_all add: str_def)

theorem insert_client_registers_witness:
  "\<exists>s. insert_client_info_to_map ex_proc (str ''ab'') 0 5 ex_tables = Inr s \<and>
     clients_at ex_proc s (buffer_hash ex_proc (str ''0-ab'') (replicate 16 0)) = [5]"
  using insert_client_registers [OF ex_tables_ok(1,3) ex_fits(3), of 5]
  by (auto simp: Let_def ex_tables_ok ex_req_key simp del: str_simps)

lemma ex_insert:
  obtains s where "insert_client_info_to_map ex_proc (str ''ab'') (ucast (0 :: u16)) 5 ex_tables = Inr s"
    "proc_inv ex_proc s" "normalized_key s = nk_after (str ''0-ab'') (replicate 16 0)"
    "clients_at ex_proc s (buffer_hash ex_proc (str ''0-ab'') (replicate 16 0)) = [5]"
  using insert_spec [OF ex_tables_ok(1) refl ex_fits(3) ex_tables_ok(3) refl, of 5]
  by (auto simp: ex_tables_ok ex_req_key simp del: str_simps)

theorem registered_client_found_witness:
  "\<exists>s p a s'. insert_client_info_to_map ex_proc (str ''ab'') 0 5 ex_tables = Inr s \<and>
     get_from_map ex_proc (str ''ab'') 0 s = Inr (p, s') \<and> arrays s' p = Some a \<and> last (da_list a) = 5"
proof -
  obtain s where s: "insert_client_info_to_map ex_proc (str ''ab'') (ucast (0 :: u16)) 5 ex_tables = Inr s"
    by (rule ex_insert)
  with registered_client_found [OF ex_tables_ok(1,3) ex_fits(1) s] show ?thesis by auto
qed

text \<open>The 15 bytes hashed for the same key before and after the longer one.\<close>

lemma ex_hashes:
  "hash_data [48, 45, 97, 98, 0, 0, 0, 0, 0, 0, 0, 0, 0, 0, 0] \<noteq>
   hash_data [48, 45, 97, 98, 0, 100, 101, 102, 0, 0, 0, 0, 0, 0, 0]"
  by (simp add: hash_data_def HASHMAP_HASH_INIT_def)

lemma ex_buffers:
  "buffer_hash ex_proc (str ''0-ab'') (replicate 16 0) =
     hash_data [48, 45, 97, 98, 0, 0, 0, 0, 0, 0, 0, 0, 0, 0, 0]"
  "buffer_hash ex_proc (str ''0-ab'') (nk_after (str ''0-abcdef'') (nk_after (str ''0-ab'') (replicate 16 0))) =
     hash_data [48, 45, 97, 98, 0, 100, 101, 102, 0, 0, 0, 0, 0, 0, 0]"
  by (simp_all add: buffer_hash_def nk_after_def nk_size_def ex_proc_def numeral_eq_Suc)

theorem longer_key_hides_client_witness:
  "\<exists>s1 q s2 s3. insert_client_info_to_map ex_proc (str ''ab'') 0 5 ex_tables = Inr s1 \<and>
     get_from_map ex_proc (str ''abcdef'') 0 s1 = Inr (q, s2) \<and>
     get_from_map ex_proc (str ''ab'') 0 s2 = Inr (0, s3)"
proof -
  obtain s1 where s1: "insert_client_info_to_map ex_proc (str ''ab'') (ucast (0 :: u16)) 5 ex_tables = Inr s1"
    "proc_inv ex_proc s1" "normalized_key s1 = nk_after (str ''0-ab'') (replicate 16 0)"
    by (rule ex_insert)
  obtain q s2 where s2: "get_from_map ex_proc (str ''abcdef'') 0 s1 = Inr (q, s2)"
    "normalized_key s2 = nk_after (str ''0-abcdef'') (nk_after (str ''0-ab'') (replicate 16 0))"
    using get_from_map_spec [OF s1(2) refl ex_fits(2)] s1(3) by (auto simp: ex_req_key simp del: str_simps)
  have "buffer_hash ex_proc (req_key (unat (0 :: u16)) (str ''ab'')) (normalized_key s2) \<noteq>
      buffer_hash ex_proc (req_key (unat (0 :: u16)) (str ''ab'')) (normalized_key ex_tables)"
    unfolding s2(2) ex_tables_ok(4) unat_0 ex_req_key(1) ex_buffers by (rule ex_hashes [symmetric])
  from longer_key_hides_client [OF ex_tables_ok(1,3) ex_fits(1,2) s1(1) s2(1) this ex_tables_ok(2)] s1(1) s2(1)
  show ?thesis by auto
qed

theorem remove_key_forgets_witness:
  "\<exists>s s'. remove_key_from_map ex_proc (str ''ab'') 0 s = Inr s' \<and>
     clients_at ex_proc s (buffer_hash ex_proc (str ''0-ab'') (normalized_key s)) = [5 :: nat] \<and>
     clients_at ex_proc s' (buffer_hash ex_proc (str ''0-ab'') (normalized_key s)) = []"
proof -
  obtain s where s: "proc_inv ex_proc s" "normalized_key s = nk_after (str ''0-ab'') (replicate 16 0)"
    "clients_at ex_proc s (buffer_hash ex_proc (str ''0-ab'') (replicate 16 0)) = [5 :: nat]"
    by (rule ex_insert)
  have h: "buffer_hash ex_proc (str ''0-ab'') (normalized_key s) = buffer_hash ex_proc (str ''0-ab'') (replicate 16 0)"
    unfolding s(2) by (rule buffer_hash_again) (simp add: str_def)
  then obtain p where "map_of (info_entries ex_proc s) (buffer_hash ex_proc (req_key (unat (0 :: u16)) (str ''ab'')) (normalized_key s)) = Some p"
    using s(3) by (auto simp: clients_at_def ex_req_key split: option.splits simp del: str_simps)
  from remove_key_forgets [OF s(1) ex_fits(1) this]
  obtain s' where s': "remove_key_from_map ex_proc (str ''ab'') 0 s = Inr s'"
    "clients_at ex_proc s' = (clients_at ex_proc s)(buffer_hash ex_proc (str ''0-ab'') (normalized_key s) := [])"
    unfolding unat_0 ex_req_key by auto
  have "clients_at ex_proc s (buffer_hash ex_proc (str ''0-ab'') (normalized_key s)) = [5]"
    unfolding h by (rule s(3))
  moreover have "clients_at ex_proc s' (buffer_hash ex_proc (str ''0-ab'') (normalized_key s)) = []"
    unfolding s'(2) by (rule fun_upd_same)
  ultimately show ?thesis using s'(1) by (intro exI [of _ s] exI [of _ s'] conjI)
qed

theorem remove_key_unknown_crashes_witness:
  "remove_key_from_map ex_proc (str ''ab'') 0 ex_tables = Inl Null_deref"
  by (rule remove_key_unknown_crashes [OF ex_tables_ok(1) ex_fits(1) ex_tables_ok(2)])

end
