(* ===== verification/Sockets.thy ===== *)
theory Sockets
  imports Utils
begin

text \<open>
  What the clients and the stub server use of sockets: IPv4 addresses from text (\<open>inet_pton\<close>),
  the three calls that set a socket up, and the set-up of the clients, the same text in
  \<open>client/client.cpp\<close>, \<open>client/old_client.cpp\<close> and \<open>rand_client/client.cpp\<close> but for the
  number of arguments. The results of the calls are parameters; every call made is recorded.
\<close>

section \<open>Addresses\<close>

record sockaddr_in =
  sin_family :: u16
  sin_port :: "byte list"     \<comment> \<open>network order\<close>
  sin_addr :: "byte list"     \<comment> \<open>network order\<close>

definition AF_INET :: u16 where "AF_INET = 2"

text \<open>After \<open>memset(&addr, 0, sizeof(addr))\<close>.\<close>

definition zero_sockaddr :: sockaddr_in where
  "zero_sockaddr = \<lparr>sin_family = 0, sin_port = [0, 0], sin_addr = [0, 0, 0, 0]\<rparr>"

text \<open>The text between the occurrences of a separator.\<close>

fun split_on :: "byte \<Rightarrow> byte list \<Rightarrow> byte list list" where
  "split_on c [] = [[]]"
| "split_on c (b # bs) =
     (if b = c then [] # split_on c bs
      else case split_on c bs of [] \<Rightarrow> [[b]] | f # fs \<Rightarrow> (b # f) # fs)"

text \<open>\<open>inet_pton(AF_INET, ...)\<close>: four decimal octets without leading zeros, nothing else.\<close>

definition pton_octet :: "byte list \<Rightarrow> byte option" where
  "pton_octet ds =
     (if ds \<noteq> [] \<and> list_all is_digit ds \<and> (hd ds = 48 \<longrightarrow> length ds = 1) \<and> dec_val ds < 256
      then Some (word_of_nat (dec_val ds)) else None)"

definition inet_pton :: "byte list \<Rightarrow> byte list option" where
  "inet_pton s =
     (case map pton_octet (split_on 46 (cstr s)) of
        [Some a, Some b, Some c, Some d] \<Rightarrow> Some [a, b, c, d]
      | _ \<Rightarrow> None)"

text \<open>The program never looks at its result: a text it refuses leaves the address as it was.\<close>

definition pton_into :: "byte list \<Rightarrow> sockaddr_in \<Rightarrow> sockaddr_in" where
  "pton_into s a = (case inet_pton s of None \<Rightarrow> a | Some bs \<Rightarrow> a\<lparr>sin_addr := bs\<rparr>)"

definition fill_sockaddr :: "u16 \<Rightarrow> byte list \<Rightarrow> sockaddr_in" where
  "fill_sockaddr port ip = pton_into ip (zero_sockaddr\<lparr>sin_family := AF_INET, sin_port := to_be16 port\<rparr>)"

section \<open>Calls\<close>

datatype sock_call = Socket | Bind_to_device "byte list" | Bind sockaddr_in | Close

text \<open>What \<open>socket\<close> returns, \<open>setsockopt\<close> for a device name, and \<open>bind\<close> for an address.\<close>

record socket_env =
  se_socket :: int
  se_setsockopt :: "byte list \<Rightarrow> int"
  se_bind :: "sockaddr_in \<Rightarrow> int"

text \<open>
  \<open>SO_BINDTODEVICE\<close> reads at most \<open>optlen\<close> and at most \<open>IFNAMSIZ - 1\<close> bytes of the
  option, up to a NUL.
\<close>

definition IFNAMSIZ :: nat where "IFNAMSIZ = 16"
definition POINTER_SIZE :: nat where "POINTER_SIZE = 8"

definition device_name :: "nat \<Rightarrow> byte list \<Rightarrow> byte list" where
  "device_name optlen optval = cstr (take (min optlen (IFNAMSIZ - 1)) optval)"

text \<open>
  What one \<open>recvfrom\<close> yields: the bytes and where they come from, which it stores into the
  address it is given, or \<open>None\<close>, an error, which leaves the address alone.
\<close>

type_synonym datagram = "(byte list \<times> sockaddr_in) option"

definition stored_addr :: "sockaddr_in \<Rightarrow> datagram \<Rightarrow> sockaddr_in" where
  "stored_addr a d = (case d of None \<Rightarrow> a | Some (bs, src) \<Rightarrow> src)"

section \<open>The set-up of the clients\<close>

definition CLIENT_PORT :: u16 where "CLIENT_PORT = 8080"
definition MIDDLEBOX_IP :: "byte list" where "MIDDLEBOX_IP = str ''10.1.0.2''"

definition client_addr :: "byte list \<Rightarrow> sockaddr_in" where
  "client_addr ip = fill_sockaddr CLIENT_PORT ip"

text \<open>\<open>Stopped\<close>: \<open>main\<close> returned or called \<open>exit\<close> with this status. Otherwise the socket is
  ready and requests go to the address given.\<close>

datatype start = Stopped int | Ready sockaddr_in

text \<open>\<open>sizeof(interface)\<close> is the size of a pointer.\<close>

definition client_setup ::
  "nat \<Rightarrow> socket_env \<Rightarrow> byte list list \<Rightarrow> start \<times> sock_call list" where
  "client_setup argc se argv =
     (if length argv \<noteq> argc then (Stopped 1, [])
      else
        let interface = argv ! 1; client_ip = argv ! 2;
            servaddr = client_addr MIDDLEBOX_IP;
            cliaddr = client_addr client_ip
        in if se_socket se < 0 then (Stopped 1, [Socket])
           else
             let dev = device_name POINTER_SIZE interface
             in if se_setsockopt se dev \<noteq> 0 then (Stopped 1, [Socket, Bind_to_device dev])
                else if se_bind se cliaddr < 0 then (Stopped 1, [Socket, Bind_to_device dev, Bind cliaddr])
                else (Ready servaddr, [Socket, Bind_to_device dev, Bind cliaddr]))"

section \<open>Text in parts\<close>

lemma split_on_free: "c \<notin> set p \<Longrightarrow> split_on c p = [p]"
  by (induction p) auto

lemma split_on_append: "c \<notin> set p \<Longrightarrow> split_on c (p @ c # r) = p # split_on c r"
  by (induction p) auto

lemma split_on_nonempty [simp]: "split_on c s \<noteq> []"
  by (induction s) (auto split: list.splits)

text \<open>The parts of a text put together again.\<close>

lemma split_on_Cons:
  assumes "split_on c s = f # g # fs"
  obtains r where "s = f @ c # r" "split_on c r = g # fs"
proof -
  have "\<exists>r. s = f @ c # r \<and> split_on c r = g # fs"
    using assms
  proof (induction s arbitrary: f)
    case (Cons b s)
    show ?case
    proof (cases "b = c")
      case False
      with Cons.prems obtain f' where "split_on c s = f' # g # fs" "f = b # f'"
        by (auto split: list.splits)
      with Cons.IH show ?thesis by auto
    qed (use Cons.prems in auto)
  qed simp
  then show thesis using that by blast
qed

lemma split_on_single: "split_on c s = [f] \<Longrightarrow> s = f"
proof (induction s arbitrary: f)
  case (Cons b s)
  then show ?case by (auto split: if_splits list.splits)
qed simp

section \<open>Addresses from text\<close>

lemma pton_octet_dec: "n < 256 \<Longrightarrow> pton_octet (dec n) = Some (word_of_nat n)"
  using dec_leading_zero [of n] set_dec [of _ n]
  by (auto simp: pton_octet_def dec_val_dec list_all_iff dec.simps [of 0])

lemma dec_no_dot: "46 \<notin> set (dec n)"
  using set_dec [of 46 n] by auto

lemma inet_pton_text: "inet_pton (ip_addr_text a) = Some (to_be32 a)"
proof -
  let ?o = "\<lambda>k. dec (unat (drop_bit k a AND 0xff))"
  have octet: "pton_octet (dec (unat (w AND 0xff :: u32))) = Some (word_of_nat (unat (w AND 0xff)))" for w
    using pton_octet_dec octet_less by blast
  have "split_on 46 (ip_addr_text a) = [?o 24, ?o 16, ?o 8, dec (unat (a AND 0xff))]"
    by (simp add: ip_addr_text_def split_on_append split_on_free dec_no_dot)
  then show ?thesis
    using arg_cong [OF RTE_IPV4_octets [of a], of to_be32]
    unfolding inet_pton_def cstr_ip_addr_text to_be32_RTE_IPV4 by (simp add: octet)
qed

text \<open>A text \<open>inet_pton\<close> accepts, the middlebox's own parser reads as the same address.\<close>

lemma inet_pton_Some:
  assumes "inet_pton s = Some bs"
  obtains a b c d where "bs = [a, b, c, d]" "sscanf_ipv4 (cstr s) = Some (a, b, c, d)"
proof -
  obtain f a g b h c i d where fields: "split_on 46 (cstr s) = [f, g, h, i]" "bs = [a, b, c, d]"
    "pton_octet f = Some a" "pton_octet g = Some b" "pton_octet h = Some c" "pton_octet i = Some d"
    using assms by (auto simp: inet_pton_def split: list.splits option.splits)
  obtain r1 where 1: "cstr s = f @ 46 # r1" "split_on 46 r1 = [g, h, i]" by (rule split_on_Cons [OF fields(1)])
  obtain r2 where 2: "r1 = g @ 46 # r2" "split_on 46 r2 = [h, i]" by (rule split_on_Cons [OF 1(2)])
  obtain r3 where 3: "r2 = h @ 46 # r3" "split_on 46 r3 = [i]" by (rule split_on_Cons [OF 2(2)])
  have octet: "scan_hhu (ds @ r) = Some (v, r)" if "pton_octet ds = Some v" "r = [] \<or> \<not> is_digit (hd r)" for ds v r
    using that scan_hhu_digits [of ds r] by (auto simp: pton_octet_def split: if_splits)
  have "scan_hhu i = Some (d, [])" using octet [OF fields(6), of "[]"] by simp
  then have "sscanf_ipv4 (cstr s) = Some (a, b, c, d)"
    by (simp add: 1(1) 2(1) 3(1) split_on_single [OF 3(2)] sscanf_ipv4_def octet fields(3-6))
  with fields(2) that show thesis by blast
qed

lemma inet_pton_ip_str_to_int: "inet_pton s = Some bs \<Longrightarrow> to_be32 (ip_str_to_int s) = bs"
  by (elim inet_pton_Some) (simp add: ip_str_to_int_def)

lemma fill_sockaddr_fields:
  "sin_family (fill_sockaddr port ip) = AF_INET" "sin_port (fill_sockaddr port ip) = to_be16 port"
  "sin_addr (fill_sockaddr port ip) = (if inet_pton ip = None then [0, 0, 0, 0] else to_be32 (ip_str_to_int ip))"
  by (auto simp: fill_sockaddr_def pton_into_def zero_sockaddr_def inet_pton_ip_str_to_int split: option.splits)

text \<open>Where a datagram that arrived came from.\<close>

definition sender :: "datagram \<Rightarrow> sockaddr_in" where "sender d = snd (the d)"

lemma stored_addr_last:
  "None \<notin> set ds \<Longrightarrow> foldl stored_addr a ds = (if ds = [] then a else sender (last ds))"
  by (induction ds rule: rev_induct) (auto simp: stored_addr_def sender_def split: option.splits)

lemma stored_addr_take:
  assumes "None \<notin> set ds" "n \<le> length ds"
  shows "foldl stored_addr a (take n ds) = (if n = 0 then a else sender (ds ! (n - 1)))"
proof -
  have "None \<notin> set (take n ds)" using assms(1) by (auto dest: in_set_takeD)
  from stored_addr_last [OF this] assms(2) show ?thesis by (auto simp: last_conv_nth)
qed

end
