(* ===== verification/Bursts.thy ===== *)
theory Bursts
  imports Sockets
begin

text \<open>
  What the main loops of the three clients share: each turn sends a burst of requests to the
  address stored, then waits for a fixed number of replies, each of which stores its sender there.
\<close>

locale request_bursts =
  fixes bursts :: "nat \<Rightarrow> 'c \<Rightarrow> 'r res" and return :: "'c \<Rightarrow> 'r"
    and replies :: nat and requests :: "nat \<Rightarrow> byte list list" and draws :: nat
    and ok :: "'c \<Rightarrow> bool" and drawn :: "'c \<Rightarrow> nat" and server :: "'c \<Rightarrow> sockaddr_in"
    and inbox :: "'c \<Rightarrow> datagram list" and sent :: "'c \<Rightarrow> (byte list \<times> sockaddr_in) list" and shown :: "'c \<Rightarrow> byte list list"
    and fits :: "datagram \<Rightarrow> bool" and content :: "datagram \<Rightarrow> byte list"
  assumes replies_pos: "0 < replies"
    and fits_some: "\<not> fits None"
    and finish: "bursts 0 c = Inr (return c)"
    and waits: "ok c \<Longrightarrow> list_all fits (inbox c) \<Longrightarrow> length (inbox c) < replies \<Longrightarrow> bursts (Suc n) c = Inl Hang"
    and turn: "ok c \<Longrightarrow> list_all fits (inbox c) \<Longrightarrow> replies \<le> length (inbox c) \<Longrightarrow>
      \<exists>c'. bursts (Suc n) c = bursts n c' \<and> ok c' \<and> inbox c' = drop replies (inbox c) \<and>
        server c' = foldl stored_addr (server c) (take replies (inbox c)) \<and>
        sent c' = sent c @ map (\<lambda>f. (f, server c)) (requests (drawn c)) \<and>
        shown c' = shown c @ map content (take replies (inbox c)) \<and> drawn c' = drawn c + draws"
begin

text \<open>Burst \<open>i\<close> of a run.\<close>

definition burst :: "'c \<Rightarrow> nat \<Rightarrow> (byte list \<times> sockaddr_in) list" where
  "burst c i = map (\<lambda>f. (f, foldl stored_addr (server c) (take (replies * i) (inbox c)))) (requests (drawn c + draws * i))"

lemma bursts_spec:
  "ok c \<Longrightarrow> list_all fits (inbox c) \<Longrightarrow>
     (if replies * n \<le> length (inbox c)
      then \<exists>c'. bursts n c = Inr (return c') \<and> sent c' = sent c @ concat (map (burst c) [0..<n]) \<and>
        shown c' = shown c @ map content (take (replies * n) (inbox c))
      else bursts n c = Inl Hang)"
proof (induction n arbitrary: c)
  case 0
  then show ?case by (auto simp: finish)
next
  case (Suc n)
  show ?case
  proof (cases "replies \<le> length (inbox c)")
    case False
    then show ?thesis using waits [OF Suc.prems] by auto
  next
    case True
    obtain c' where c': "bursts (Suc n) c = bursts n c'" "ok c'" "inbox c' = drop replies (inbox c)"
      "server c' = foldl stored_addr (server c) (take replies (inbox c))" "sent c' = sent c @ burst c 0"
      "shown c' = shown c @ map content (take replies (inbox c))" "drawn c' = drawn c + draws"
      using turn [OF Suc.prems True, of n] by (auto simp: burst_def)
    have fit: "list_all fits (inbox c')" using Suc.prems(2) by (auto simp: c' list_all_iff dest: in_set_dropD)
    have later: "burst c' = (\<lambda>i. burst c (Suc i))"
      by (rule ext) (simp add: burst_def c' take_add add.assoc)
    have "concat (map (burst c) [0..<Suc n]) = burst c 0 @ concat (map (burst c') [0..<n])"
      unfolding later by (simp add: upt_conv_Cons map_Suc_upt [symmetric] o_def del: upt_Suc)
    with Suc.IH [OF c'(2) fit] True show ?thesis
      unfolding c'(1) by (auto simp: c' take_add split: if_splits simp del: upt_Suc)
  qed
qed

text \<open>A whole run: where every request goes, and what is shown.\<close>

lemma run:
  assumes "ok c" "list_all fits (inbox c)" "sent c = []" "shown c = []" "drawn c = 0"
  shows "if replies * n \<le> length (inbox c)
    then \<exists>c'. bursts n c = Inr (return c') \<and>
      sent c' = concat (map (\<lambda>i. map (\<lambda>f. (f, if i = 0 then server c else sender (inbox c ! (replies * i - 1))))
        (requests (draws * i))) [0..<n]) \<and>
      shown c' = map content (take (replies * n) (inbox c))
    else bursts n c = Inl Hang"
proof (cases "replies * n \<le> length (inbox c)")
  case True
  have "None \<notin> set (inbox c)" using assms(2) fits_some by (auto simp: list_all_iff)
  then have "burst c i = map (\<lambda>f. (f, if i = 0 then server c else sender (inbox c ! (replies * i - 1)))) (requests (draws * i))"
    if "i < n" for i
  proof -
    have "replies * i \<le> length (inbox c)" using that True mult_le_mono2 [of i n replies] by linarith
    then show ?thesis
      using \<open>None \<notin> set (inbox c)\<close> replies_pos by (simp add: burst_def stored_addr_take assms(5))
  qed
  then have "map (burst c) [0..<n] = map (\<lambda>i. map (\<lambda>f. (f, if i = 0 then server c else sender (inbox c ! (replies * i - 1))))
      (requests (draws * i))) [0..<n]" by simp
  then show ?thesis using bursts_spec [OF assms(1,2), of n] True by (simp only: assms(3,4) if_True append_Nil)
next
  case False
  then show ?thesis using bursts_spec [OF assms(1,2), of n] by simp
qed

end

end
