(* ===== verification/Load_Client.thy ===== *)
theory Load_Client
  imports Keys Bursts
begin

text \<open>
  The load generators \<open>client/client.cpp\<close> and \<open>rand_client/client.cpp\<close>: how they build
  a request, and how they read replies. They share \<open>init_send_app_payload\<close> but for
  \<open>MAX_LENGTH\<close>, an argument here.

  \<open>rand()\<close> is a parameter, the values it returns in turn; the words of \<open>key.csv\<close> and
  the datagrams that will ever arrive, with their senders, are others. \<open>recvfrom\<close> waits for ever
  when nothing more arrives, and stores the sender where the next requests go. Text is without its NUL; a message array shows the
  part written so far.
\<close>

section \<open>Requests\<close>

definition CLIENT_HEADER :: "byte list" where "CLIENT_HEADER = [0, 0, 0, 1, 0, 0]"
definition CLIENT_TAIL :: "byte list" where "CLIENT_TAIL = [13, 10]"

definition client_payload ::
  "nat \<Rightarrow> nat \<Rightarrow> byte list \<Rightarrow> byte list \<Rightarrow> (byte list \<times> u16) option res" where
  "client_payload max_length rand_value app_buf message =
     (if max_length - 6 - 2 < length message then Inr None
      else
        let req_id = 24; temp = to_be16 (word_of_nat (req_id + rand_value mod 65535));
            msg_len = (word_of_nat (length message) :: u16);
            total_len = 2 + 6 + msg_len + 2
        in bindr (wr 0 temp app_buf) (\<lambda>app_buf.
           bindr (wr 2 CLIENT_HEADER app_buf) (\<lambda>app_buf.
           bindr (wr 8 (take (unat msg_len) message) app_buf) (\<lambda>app_buf.
           bindr (wr (8 + unat msg_len) CLIENT_TAIL app_buf) (\<lambda>app_buf.
           Inr (Some (app_buf, total_len)))))))"

definition CSV_KEY_NUMS :: nat where "CSV_KEY_NUMS = 200"
definition CLIENT_MAX_KEY_LENGTH :: nat where "CLIENT_MAX_KEY_LENGTH = 32"
definition NUM_KEYS_PER_PACKET :: nat where "NUM_KEYS_PER_PACKET = 4"

text \<open>\<open>index\<close> is the number of keys so far. \<open>>>\<close> never yields a newline.\<close>

fun read_keys :: "byte list list \<Rightarrow> byte list list \<Rightarrow> byte list list res" where
  "read_keys [] key_list = Inr key_list"
| "read_keys (buffer # ws) key_list =
     (if buffer = [10] then Inr key_list
      else if CSV_KEY_NUMS \<le> length key_list \<or> CLIENT_MAX_KEY_LENGTH \<le> length buffer then Inl Out_of_bounds
      else read_keys ws (key_list @ [buffer]))"

text \<open>Without the file the loop is not entered and \<open>key_num\<close> is 0.\<close>

definition get_list_of_keys :: "byte list list option \<Rightarrow> byte list list res" where
  "get_list_of_keys file = read_keys (case file of None \<Rightarrow> [] | Some ws \<Rightarrow> ws) []"

text \<open>\<open>rnd i\<close> is the value of call number \<open>i\<close> of \<open>rand()\<close>; \<open>msg\<close> is an array of 512.\<close>

fun rand_msg_loop ::
  "nat \<Rightarrow> (nat \<Rightarrow> nat) \<Rightarrow> nat \<Rightarrow> byte list list \<Rightarrow> byte list \<Rightarrow> (byte list \<times> nat) res" where
  "rand_msg_loop 0 rnd i key_list msg = Inr (msg, i)"
| "rand_msg_loop (Suc n) rnd i key_list msg =
     bindr (check Div_by_zero (length key_list \<noteq> 0)) (\<lambda>_.
     bindr (strcat 512 msg [32]) (\<lambda>msg.
     bindr (strcat 512 msg (key_list ! (rnd i mod length key_list)))
       (rand_msg_loop n rnd (i + 1) key_list)))"

definition create_rand_msg :: "(nat \<Rightarrow> nat) \<Rightarrow> nat \<Rightarrow> byte list list \<Rightarrow> (byte list \<times> nat) res" where
  "create_rand_msg rnd i key_list = rand_msg_loop NUM_KEYS_PER_PACKET rnd i key_list (str ''gets'')"

section \<open>Replies\<close>

text \<open>
  \<open>n\<close> is what \<open>recvfrom\<close> returned, -1 for an error; \<open>buffer\<close> and \<open>message\<close> have
  \<open>max_length\<close> bytes. The result is what \<open>cout << message\<close> prints.
\<close>

definition strip_reply :: "nat \<Rightarrow> byte list option \<Rightarrow> byte list res" where
  "strip_reply max_length datagram =
     (let n = (case datagram of None \<Rightarrow> -1 | Some d \<Rightarrow> int (min (length d) max_length))
      in bindr (check Out_of_bounds (0 \<le> n \<and> n < int max_length)) (\<lambda>_.
         let msg_len = n - 2 - 6 - 2
         in bindr (check Out_of_bounds (0 \<le> msg_len)) (\<lambda>_.
            Inr (cstr (take (nat msg_len) (drop 8 (the datagram)))))))"

record rand_client =
  rc_buf :: "byte list"              \<comment> \<open>\<open>full_msg\<close>\<close>
  rc_server :: sockaddr_in           \<comment> \<open>\<open>servaddr\<close>\<close>
  rc_calls :: nat                    \<comment> \<open>calls of \<open>rand\<close> so far\<close>
  rc_sent :: "(byte list \<times> sockaddr_in) list"
  rc_shown :: "byte list list"
  rc_inbox :: "datagram list"

fun receive_loop :: "nat \<Rightarrow> nat \<Rightarrow> rand_client \<Rightarrow> rand_client res" where
  "receive_loop max_length 0 c = Inr c"
| "receive_loop max_length (Suc n) c =
     (case rc_inbox c of
        [] \<Rightarrow> Inl Hang
      | d # inbox \<Rightarrow>
          bindr (strip_reply max_length (map_option fst d)) (\<lambda>t.
          receive_loop max_length n
            (c\<lparr>rc_inbox := inbox, rc_server := stored_addr (rc_server c) d, rc_shown := rc_shown c @ [t]\<rparr>)))"

section \<open>The random client\<close>

definition RAND_MAX_LENGTH :: nat where "RAND_MAX_LENGTH = 1024"
definition RAND_BURST_SIZE :: nat where "RAND_BURST_SIZE = 1"
definition BURST_NUMBER :: nat where "BURST_NUMBER = 1000"

text \<open>\<open>None\<close>: the message was too long and \<open>main\<close> returns.\<close>

definition send_rand_msg ::
  "(nat \<Rightarrow> nat) \<Rightarrow> byte list list \<Rightarrow> rand_client \<Rightarrow> rand_client option res" where
  "send_rand_msg rnd key_list c =
     bindr (create_rand_msg rnd (rc_calls c) key_list) (\<lambda>(msg, i).
     bindr (client_payload RAND_MAX_LENGTH (rnd i) (rc_buf c) msg) (\<lambda>ap.
     case ap of
       None \<Rightarrow> Inr None
     | Some (full_msg, total_len) \<Rightarrow>
         Inr (Some (c\<lparr>rc_buf := full_msg, rc_calls := i + 1,
                     rc_sent := rc_sent c @ [(take (unat total_len) full_msg, rc_server c)]\<rparr>))))"

fun send_loop ::
  "nat \<Rightarrow> (nat \<Rightarrow> nat) \<Rightarrow> byte list list \<Rightarrow> rand_client \<Rightarrow> rand_client option res" where
  "send_loop 0 rnd key_list c = Inr (Some c)"
| "send_loop (Suc n) rnd key_list c =
     bindr (send_rand_msg rnd key_list c) (\<lambda>r.
     case r of None \<Rightarrow> Inr None | Some c \<Rightarrow> send_loop n rnd key_list c)"

fun burst_loop ::
  "nat \<Rightarrow> (nat \<Rightarrow> nat) \<Rightarrow> byte list list \<Rightarrow> rand_client \<Rightarrow> rand_client option res" where
  "burst_loop 0 rnd key_list c = Inr (Some c)"
| "burst_loop (Suc n) rnd key_list c =
     bindr (send_loop RAND_BURST_SIZE rnd key_list c) (\<lambda>r.
     case r of
       None \<Rightarrow> Inr None
     | Some c \<Rightarrow>
         bindr (receive_loop RAND_MAX_LENGTH (RAND_BURST_SIZE * NUM_KEYS_PER_PACKET) c)
           (burst_loop n rnd key_list))"

definition new_client :: "byte list \<Rightarrow> sockaddr_in \<Rightarrow> datagram list \<Rightarrow> rand_client" where
  "new_client buf servaddr inbox =
     \<lparr>rc_buf = buf, rc_server = servaddr, rc_calls = 0, rc_sent = [], rc_shown = [], rc_inbox = inbox\<rparr>"

text \<open>\<open>main\<close> once its socket is set up; \<open>buf\<close> is the uninitialised \<open>full_msg\<close>.\<close>

definition rand_client_main ::
  "(nat \<Rightarrow> nat) \<Rightarrow> byte list list option \<Rightarrow> byte list \<Rightarrow> sockaddr_in \<Rightarrow> datagram list \<Rightarrow>
     rand_client option res" where
  "rand_client_main rnd file buf servaddr inbox =
     bindr (get_list_of_keys file) (\<lambda>key_list.
     burst_loop BURST_NUMBER rnd key_list
       (new_client buf servaddr inbox))"

section \<open>The plain client\<close>

definition CLIENT_MAX_LENGTH :: nat where "CLIENT_MAX_LENGTH = 1448"
definition CLIENT_BURST_SIZE :: nat where "CLIENT_BURST_SIZE = 2"
definition CLIENT_BURST_NUMBER :: nat where "CLIENT_BURST_NUMBER = 50000"

definition plain_payload :: "nat \<Rightarrow> byte list \<Rightarrow> byte list \<Rightarrow> (byte list \<times> u16) option res" where
  [simp]: "plain_payload rand_value app_buf message = client_payload CLIENT_MAX_LENGTH rand_value app_buf message"

fun client_send_loop :: "nat \<Rightarrow> (nat \<Rightarrow> nat) \<Rightarrow> byte list \<Rightarrow> rand_client \<Rightarrow> rand_client option res" where
  "client_send_loop 0 rnd msg c = Inr (Some c)"
| "client_send_loop (Suc n) rnd msg c =
     bindr (plain_payload (rnd (rc_calls c)) (rc_buf c) msg) (\<lambda>ap.
     case ap of
       None \<Rightarrow> Inr None
     | Some (full_msg, total_len) \<Rightarrow>
         client_send_loop n rnd msg (c\<lparr>rc_buf := full_msg, rc_calls := rc_calls c + 1,
           rc_sent := rc_sent c @ [(take (unat total_len) full_msg, rc_server c)]\<rparr>))"

fun client_burst_loop :: "nat \<Rightarrow> (nat \<Rightarrow> nat) \<Rightarrow> byte list \<Rightarrow> rand_client \<Rightarrow> rand_client option res" where
  "client_burst_loop 0 rnd msg c = Inr (Some c)"
| "client_burst_loop (Suc n) rnd msg c =
     bindr (client_send_loop CLIENT_BURST_SIZE rnd msg c) (\<lambda>r.
     case r of
       None \<Rightarrow> Inr None
     | Some c \<Rightarrow>
         bindr (receive_loop CLIENT_MAX_LENGTH (CLIENT_BURST_SIZE * 4) c) (client_burst_loop n rnd msg))"

definition client_main ::
  "(nat \<Rightarrow> nat) \<Rightarrow> byte list \<Rightarrow> byte list \<Rightarrow> sockaddr_in \<Rightarrow> datagram list \<Rightarrow> rand_client option res" where
  "client_main rnd msg buf servaddr inbox =
     client_burst_loop CLIENT_BURST_NUMBER rnd msg
       (new_client buf servaddr inbox)"

section \<open>The whole programs\<close>

text \<open>The status \<open>main\<close> ends with, the calls it made on its socket, and what the client did.\<close>

definition rand_client_program ::
  "socket_env \<Rightarrow> (nat \<Rightarrow> nat) \<Rightarrow> byte list list option \<Rightarrow> byte list list \<Rightarrow> byte list \<Rightarrow> datagram list \<Rightarrow>
     (int \<times> sock_call list \<times> rand_client option) res" where
  "rand_client_program se rnd file argv buf inbox =
     (case client_setup 3 se argv of
        (Stopped status, cs) \<Rightarrow> Inr (status, cs, None)
      | (Ready servaddr, cs) \<Rightarrow>
          bindr (rand_client_main rnd file buf servaddr inbox) (\<lambda>c.
          case c of
            None \<Rightarrow> Inr (0, cs, None)
          | Some c \<Rightarrow> Inr (0, cs @ [Close], Some c)))"

definition client_program ::
  "socket_env \<Rightarrow> (nat \<Rightarrow> nat) \<Rightarrow> byte list list \<Rightarrow> byte list \<Rightarrow> datagram list \<Rightarrow>
     (int \<times> sock_call list \<times> rand_client option) res" where
  "client_program se rnd argv buf inbox =
     (case client_setup 4 se argv of
        (Stopped status, cs) \<Rightarrow> Inr (status, cs, None)
      | (Ready servaddr, cs) \<Rightarrow>
          bindr (client_main rnd (argv ! 3) buf servaddr inbox) (\<lambda>c.
          case c of
            None \<Rightarrow> Inr (0, cs, None)
          | Some c \<Rightarrow> Inr (0, cs @ [Close], Some c)))"

section \<open>What they send\<close>

definition request_bytes :: "nat \<Rightarrow> byte list \<Rightarrow> byte list" where
  "request_bytes r msg = to_be16 (word_of_nat (24 + r mod 65535)) @ CLIENT_HEADER @ msg @ CLIENT_TAIL"

lemma client_constants [simp]: "length CLIENT_HEADER = 6" "length CLIENT_TAIL = 2"
  by (simp_all add: CLIENT_HEADER_def CLIENT_TAIL_def)

lemma length_request_bytes [simp]: "length (request_bytes r msg) = length msg + 10"
  by (simp add: request_bytes_def)

lemma wr_next:
  "off = length p \<Longrightarrow> wr off bs (p @ r) =
     (if length bs \<le> length r then Inr (p @ bs @ drop (length bs) r) else Inl Out_of_bounds)"
  by (auto simp: wr_def)

text \<open>Every outcome: refused, written out of bounds, or the frame.\<close>

lemma client_payload_eq:
  assumes buf: "length buf = max_length" "10 \<le> max_length" "max_length < 60000"
  shows "client_payload max_length r buf msg =
    (if max_length - 8 < length msg then Inr None
     else if max_length - 10 < length msg then Inl Out_of_bounds
     else Inr (Some (request_bytes r msg @ drop (length msg + 10) buf, word_of_nat (length msg + 10))))"
proof (cases "length msg + 8 \<le> max_length")
  case True
  have n: "unat (word_of_nat (length msg) :: u16) = length msg"
    using True buf by (simp add: unat_of_nat take_bit_nat_eq_self)
  let ?id = "to_be16 (word_of_nat (24 + r mod 65535))"
  have b1: "wr 0 ?id buf = Inr (?id @ drop 2 buf)"
    using wr_next [of 0 "[]" ?id buf] buf by simp
  have b2: "wr 2 CLIENT_HEADER (?id @ drop 2 buf) = Inr ((?id @ CLIENT_HEADER) @ drop 8 buf)"
    using wr_next [of 2 ?id CLIENT_HEADER "drop 2 buf"] buf by simp
  have b3: "wr 8 msg ((?id @ CLIENT_HEADER) @ drop 8 buf) =
      Inr ((?id @ CLIENT_HEADER @ msg) @ drop (length msg + 8) buf)"
    using wr_next [of 8 "?id @ CLIENT_HEADER" msg "drop 8 buf"] True buf by simp
  have b4: "wr (8 + length msg) CLIENT_TAIL ((?id @ CLIENT_HEADER @ msg) @ drop (length msg + 8) buf) =
      (if length msg + 10 \<le> max_length then Inr (request_bytes r msg @ drop (length msg + 10) buf)
       else Inl Out_of_bounds)"
    using wr_next [of "8 + length msg" "?id @ CLIENT_HEADER @ msg" CLIENT_TAIL "drop (length msg + 8) buf"] True buf
    by (auto simp: request_bytes_def add.commute)
  have w: "2 + 6 + word_of_nat (length msg) + 2 = (word_of_nat (length msg + 10) :: u16)" by simp
  from b1 b2 b3 b4 n w True buf(2) show ?thesis by (auto simp: client_payload_def Let_def)
next
  case False
  with buf(2) show ?thesis by (auto simp: client_payload_def)
qed

end
