(* ===== verification/Client_Behaviour.thy ===== *)
theory Client_Behaviour
  imports Load_Client Behaviour
begin

text \<open>
  Properties of the load generators, by themselves and together with the middlebox that reads
  their requests.
\<close>

section \<open>Building requests\<close>

definition picked :: "nat \<Rightarrow> (nat \<Rightarrow> nat) \<Rightarrow> nat \<Rightarrow> byte list list \<Rightarrow> byte list list" where
  "picked n rnd i key_list = map (\<lambda>j. key_list ! (rnd (i + j) mod length key_list)) [0..<n]"

lemma picked_Suc:
  "picked (Suc n) rnd i key_list = key_list ! (rnd i mod length key_list) # picked n rnd (i + 1) key_list"
proof -
  have "[0..<Suc n] = 0 # map Suc [0..<n]" by (simp add: upt_conv_Cons map_Suc_upt del: upt_Suc)
  then show ?thesis by (simp add: picked_def o_def del: upt_Suc)
qed

lemma picked_in: "key_list \<noteq> [] \<Longrightarrow> set (picked n rnd i key_list) \<subseteq> set key_list"
  by (auto simp: picked_def)

lemma length_picked [simp]: "length (picked n rnd i key_list) = n"
  by (simp add: picked_def)

lemma length_spaced_le:
  "\<forall>k \<in> set ks. length k < b \<Longrightarrow> length (spaced ks) \<le> length ks * b"
  by (induction ks) auto

lemma rand_msg_loop_spec:
  assumes "key_list \<noteq> []" "\<forall>k \<in> set key_list. length k < 32" "length msg + n * 32 < 512"
  shows "rand_msg_loop n rnd i key_list msg = Inr (msg @ spaced (picked n rnd i key_list), i + n)"
  using assms(3)
proof (induction n arbitrary: i msg)
  case 0
  then show ?case by (simp add: picked_def)
next
  case (Suc n)
  let ?k = "key_list ! (rnd i mod length key_list)"
  have k: "length ?k < 32" using assms(1,2) by simp
  with Suc.prems have "length (msg @ 32 # ?k) + n * 32 < 512" by simp
  from Suc.IH [OF this, of "i + 1"] k Suc.prems assms(1) show ?case
    by (simp add: picked_Suc strcat_def)
qed

lemma create_rand_msg_spec:
  assumes "key_list \<noteq> []" "\<forall>k \<in> set key_list. length k < 32"
  shows "create_rand_msg rnd i key_list = Inr (str ''gets'' @ spaced (picked 4 rnd i key_list), i + 4)"
  using rand_msg_loop_spec [OF assms, of "str ''gets''" 4 rnd i]
  by (simp add: create_rand_msg_def NUM_KEYS_PER_PACKET_def)

definition client_keys_ok :: "byte list list \<Rightarrow> bool" where
  "client_keys_ok key_list \<longleftrightarrow> key_list \<noteq> [] \<and>
     (\<forall>k \<in> set key_list. k \<noteq> [] \<and> 32 \<notin> set k \<and> 0 \<notin> set k \<and> length k < 32)"

lemma client_keys_okD:
  assumes "client_keys_ok key_list"
  shows "key_list \<noteq> []" "\<forall>k \<in> set key_list. length k < 32"
  using assms by (auto simp: client_keys_ok_def)

definition rand_frame :: "(nat \<Rightarrow> nat) \<Rightarrow> nat \<Rightarrow> byte list list \<Rightarrow> byte list" where
  "rand_frame rnd i key_list = request_bytes (rnd (i + 4)) (str ''gets'' @ spaced (picked 4 rnd i key_list))"

lemma rand_frame_length:
  assumes "client_keys_ok key_list"
  shows "length (rand_frame rnd i key_list) \<le> 142"
  using length_spaced_le [of "picked 4 rnd i key_list" 32] picked_in [of key_list 4 rnd i] assms
  by (auto simp: rand_frame_def client_keys_ok_def)

lemma send_rand_msg_spec:
  assumes keys: "client_keys_ok key_list" and buf: "length (rc_buf c) = RAND_MAX_LENGTH"
  shows "\<exists>c'. send_rand_msg rnd key_list c = Inr (Some c') \<and>
    rc_sent c' = rc_sent c @ [(rand_frame rnd (rc_calls c) key_list, rc_server c)] \<and>
    length (rc_buf c') = RAND_MAX_LENGTH \<and> rc_calls c' = rc_calls c + 5 \<and> rc_inbox c' = rc_inbox c \<and>
    rc_shown c' = rc_shown c \<and> rc_server c' = rc_server c"
proof -
  define msg where "msg = str ''gets'' @ spaced (picked 4 rnd (rc_calls c) key_list)"
  have frame: "rand_frame rnd (rc_calls c) key_list = request_bytes (rnd (rc_calls c + 4)) msg"
    by (simp only: rand_frame_def msg_def)
  have len: "length msg + 10 \<le> 142" using rand_frame_length [OF keys, of rnd "rc_calls c"] by (simp add: frame)
  have fits: "client_payload RAND_MAX_LENGTH (rnd (rc_calls c + 4)) (rc_buf c) msg =
      Inr (Some (request_bytes (rnd (rc_calls c + 4)) msg @ drop (length msg + 10) (rc_buf c),
        word_of_nat (length msg + 10)))"
    using len by (subst client_payload_eq [OF buf]) (simp_all add: RAND_MAX_LENGTH_def)
  have n: "unat (word_of_nat (length msg + 10) :: u16) = length msg + 10"
    using len by (simp only: unat_of_nat) simp
  have "create_rand_msg rnd (rc_calls c) key_list = Inr (msg, rc_calls c + 4)"
    using create_rand_msg_spec [OF client_keys_okD [OF keys]] by (simp only: msg_def)
  with fits n len buf show ?thesis
    by (simp add: send_rand_msg_def RAND_MAX_LENGTH_def frame del: of_nat_add)
qed

section \<open>Properties\<close>

text \<open>C36: complete outcome of building a request in an array of \<open>max_length\<close> bytes: refused,
  written out of bounds (the length test leaves out the two bytes of the id), or the frame
  memcached expects.\<close>

theorem client_payload_bounds:
  assumes "length buf = max_length" "10 \<le> max_length" "max_length < 60000"
  shows "client_payload max_length r buf msg =
    (if max_length - 8 < length msg then Inr None
     else if max_length - 10 < length msg then Inl Out_of_bounds
     else Inr (Some (request_bytes r msg @ drop (length msg + 10) buf, word_of_nat (length msg + 10))))"
  by (rule client_payload_eq [OF assms])

text \<open>A request in a packet is taken as the four keys picked for it.\<close>

lemma rand_frame_understood:
  assumes ok: "client_keys_ok key_list" and data: "mb_data b = q @ rand_frame rnd i key_list @ z" "length q = 42"
      "rd_be16 38 q = Inr (word_of_nat (length (rand_frame rnd i key_list) + 8))"
    and b: "mbufs s m = Some b" "mbufs (init_memcached_pkt e m s) m = mbufs s m"
  shows "app_client_in e m 34 a s =
    bindr (client_keys e m 0 (picked 4 rnd i key_list) (init_memcached_pkt e m s)) (\<lambda>s.
    if unat (outstanding_req s) < MIN_OUTSTANDING_REQ
    then construct_pkt_and_send_to_server e False s else Inr s)"
proof -
  let ?ks = "picked 4 rnd i key_list" let ?msg = "str ''gets'' @ spaced ?ks"
  let ?id = "word_of_nat (24 + rnd (i + 4) mod 65535) :: u16"
  have frame: "rand_frame rnd i key_list = to_be16 ?id @ CLIENT_HEADER @ ?msg @ [13, 10]"
    by (simp add: rand_frame_def request_bytes_def CLIENT_TAIL_def)
  have len: "length ?msg \<le> 132"
    using rand_frame_length [OF ok, of rnd i] by (simp add: rand_frame_def)
  have "mb_data b = q @ to_be16 ?id @ CLIENT_HEADER @ ?msg @ [13, 10] @ z"
    using data(1) by (simp add: frame)
  then have "request_at s m ?id ?msg z"
    unfolding request_at_def
    by (intro conjI exI [of _ b] exI [of _ q] exI [of _ CLIENT_HEADER])
      (use b(1) data(2,3) len in \<open>simp_all add: frame CLIENT_HEADER_def\<close>)
  from app_client_in_reads [OF this b(2)]
  have "app_client_in e m 34 a s =
    bindr (strip_keys (?msg @ [13, 10] @ z) (word_of_nat (length ?msg))) (\<lambda>keys.
    bindr (client_keys e m 0 keys (init_memcached_pkt e m s)) (\<lambda>s.
    if unat (outstanding_req s) < MIN_OUTSTANDING_REQ
    then construct_pkt_and_send_to_server e False s else Inr s))" .
  moreover have "strip_keys (?msg @ [13, 10] @ z) (word_of_nat (length ?msg)) = Inr ?ks"
  proof -
    have ks_ok: "\<forall>k \<in> set ?ks. k \<noteq> [] \<and> 32 \<notin> set k \<and> 0 \<notin> set k \<and> length k < MAX_KEY_LENGTH"
      using ok picked_in [of key_list 4 rnd i] by (fastforce simp: client_keys_ok_def MAX_KEY_LENGTH_def)
    obtain t ts where ks: "?ks = t # ts" by (cases ?ks) (auto simp: picked_def)
    have "unat (word_of_nat (length ?msg) :: u16) = length ?msg"
      using len by (simp only: unat_of_nat) simp
    then have "strip_keys (str ''gets'' @ spaced (t # ts) @ [13, 10] @ z) (word_of_nat (length ?msg)) = Inr (fill_keys [] (t # ts))"
      using ks_ok length_picked [of 4 rnd i key_list]
      by (intro strip_keys_words) (auto simp: ks MAX_KEY_PER_PACKET_def simp del: length_picked)
    then show ?thesis using ks_ok fill_keys_words [of ?ks "[]"] by (simp add: ks)
  qed
  ultimately show ?thesis by simp
qed

text \<open>The last frame the random client sent, arriving in a packet, is taken as the four keys
  picked, in order.\<close>

theorem rand_request_understood:
  assumes "client_keys_ok key_list" "length (rc_buf c) = RAND_MAX_LENGTH"
    and "send_rand_msg rnd key_list c = Inr (Some c')"
    and "mbufs s m = Some b" "mb_data b = q @ fst (last (rc_sent c')) @ z" "length q = 42"
      "rd_be16 38 q = Inr (word_of_nat (length (fst (last (rc_sent c'))) + 8))"
    and "mbufs (init_memcached_pkt e m s) m = mbufs s m"
  shows "app_client_in e m 34 a s =
    bindr (client_keys e m 0 (picked 4 rnd (rc_calls c) key_list) (init_memcached_pkt e m s)) (\<lambda>s.
    if unat (outstanding_req s) < MIN_OUTSTANDING_REQ
    then construct_pkt_and_send_to_server e False s else Inr s)"
proof -
  have "fst (last (rc_sent c')) = rand_frame rnd (rc_calls c) key_list"
    using send_rand_msg_spec [OF assms(1,2), of rnd] assms(3) by auto
  with rand_frame_understood [OF assms(1) _ assms(6) _ assms(4,8), of rnd "rc_calls c" z a] assms(5,7)
  show ?thesis by simp
qed

section \<open>Waiting for replies\<close>

text \<open>A datagram the client can take apart: all three parts of the frame, and room for a NUL.\<close>

definition reply_fits :: "nat \<Rightarrow> datagram \<Rightarrow> bool" where
  "reply_fits max_length d \<longleftrightarrow>
     (case d of None \<Rightarrow> False | Some (b, src) \<Rightarrow> 10 \<le> length b \<and> length b < max_length)"

definition shown_text :: "datagram \<Rightarrow> byte list" where
  "shown_text d = (case d of None \<Rightarrow> [] | Some (b, src) \<Rightarrow> cstr (take (length b - 10) (drop 8 b)))"

lemma strip_reply_fits:
  "reply_fits max_length d \<Longrightarrow> strip_reply max_length (map_option fst d) = Inr (shown_text d)"
  by (auto simp: reply_fits_def strip_reply_def shown_text_def nat_diff_distrib Let_def
      split: option.splits)

text \<open>The client after \<open>n\<close> replies.\<close>

definition after_replies :: "nat \<Rightarrow> rand_client \<Rightarrow> rand_client" where
  "after_replies n c = c\<lparr>rc_inbox := drop n (rc_inbox c),
     rc_server := foldl stored_addr (rc_server c) (take n (rc_inbox c)),
     rc_shown := rc_shown c @ map shown_text (take n (rc_inbox c))\<rparr>"

lemma receive_loop_spec:
  "list_all (reply_fits max_length) (rc_inbox c) \<Longrightarrow>
     receive_loop max_length n c = (if n \<le> length (rc_inbox c) then Inr (after_replies n c) else Inl Hang)"
proof (induction n arbitrary: c)
  case (Suc n)
  then show ?case by (cases "rc_inbox c") (simp_all add: strip_reply_fits after_replies_def)
qed (simp add: after_replies_def)

interpretation rand: request_bursts "\<lambda>n. burst_loop n rnd key_list" Some 4 "\<lambda>j. [rand_frame rnd j key_list]" 5
    "\<lambda>c. client_keys_ok key_list \<and> length (rc_buf c) = RAND_MAX_LENGTH" rc_calls rc_server rc_inbox rc_sent rc_shown
    "reply_fits RAND_MAX_LENGTH" shown_text for rnd key_list
proof (unfold_locales, goal_cases)
  case (4 c n)
  then obtain c1 where "send_rand_msg rnd key_list c = Inr (Some c1)" "rc_inbox c1 = rc_inbox c"
    using send_rand_msg_spec [of key_list c rnd] by auto
  with 4 show ?case
    using receive_loop_spec [of RAND_MAX_LENGTH c1 4] by (simp add: RAND_BURST_SIZE_def NUM_KEYS_PER_PACKET_def)
next
  case (5 c n)
  then obtain c1 where "send_rand_msg rnd key_list c = Inr (Some c1)"
    "rc_sent c1 = rc_sent c @ [(rand_frame rnd (rc_calls c) key_list, rc_server c)]"
    "length (rc_buf c1) = RAND_MAX_LENGTH" "rc_calls c1 = rc_calls c + 5" "rc_inbox c1 = rc_inbox c"
    "rc_shown c1 = rc_shown c" "rc_server c1 = rc_server c"
    using send_rand_msg_spec [of key_list c rnd] by auto
  with 5 show ?case
    using receive_loop_spec [of RAND_MAX_LENGTH c1 4]
    by (intro exI [of _ "after_replies 4 c1"]) (simp add: RAND_BURST_SIZE_def NUM_KEYS_PER_PACKET_def after_replies_def)
qed (simp_all add: reply_fits_def)

text \<open>A run: what is sent, where to, and what is shown.\<close>

lemma new_client_fields [simp]:
  "rc_buf (new_client buf servaddr inbox) = buf" "rc_server (new_client buf servaddr inbox) = servaddr"
  "rc_calls (new_client buf servaddr inbox) = 0" "rc_sent (new_client buf servaddr inbox) = []"
  "rc_shown (new_client buf servaddr inbox) = []" "rc_inbox (new_client buf servaddr inbox) = inbox"
  by (simp_all add: new_client_def)

lemma rand_client_runs:
  assumes "get_list_of_keys file = Inr key_list" "client_keys_ok key_list" "length buf = RAND_MAX_LENGTH"
    and "list_all (reply_fits RAND_MAX_LENGTH) inbox"
  shows "if 4000 \<le> length inbox
    then \<exists>c. rand_client_main rnd file buf servaddr inbox = Inr (Some c) \<and>
      rc_sent c = map (\<lambda>i. (rand_frame rnd (5 * i) key_list,
        if i = 0 then servaddr else sender (inbox ! (4 * i - 1)))) [0..<1000] \<and>
      rc_shown c = map shown_text (take 4000 inbox)
    else rand_client_main rnd file buf servaddr inbox = Inl Hang"
  using rand.run [of key_list "new_client buf servaddr inbox" 1000 rnd, unfolded new_client_fields] assms
  by (simp add: rand_client_main_def BURST_NUMBER_def del: upt_Suc split: if_splits)

text \<open>Without its key file the random client prints a message and then divides by zero.\<close>

theorem rand_client_without_keys:
  "rand_client_main rnd None buf servaddr inbox = Inl Div_by_zero"
proof -
  have "rand_msg_loop (Suc n) rnd i [] msg = Inl Div_by_zero" for n i msg by simp
  from this [of 3] have "create_rand_msg rnd i [] = Inl Div_by_zero" for i
    by (simp add: create_rand_msg_def NUM_KEYS_PER_PACKET_def del: rand_msg_loop.simps)
  then have "burst_loop (Suc n) rnd [] c = Inl Div_by_zero" for n c
    by (simp add: RAND_BURST_SIZE_def send_rand_msg_def)
  from this [of 999] show ?thesis
    by (simp add: rand_client_main_def get_list_of_keys_def BURST_NUMBER_def del: burst_loop.simps)
qed

end
