(* ===== verification/Client_Network.thy ===== *)
theory Client_Network
  imports Client_Behaviour
begin

text \<open>
  The random client as a whole program, from its command line to its last reply, and the network
  between it and the middlebox: which frames carry its requests and the replies, and who they
  say they come from.
\<close>

section \<open>Starting\<close>

text \<open>The three calls succeed for this device and address.\<close>

definition socket_ready :: "socket_env \<Rightarrow> byte list \<Rightarrow> byte list \<Rightarrow> bool" where
  "socket_ready se dev ip \<longleftrightarrow> 0 \<le> se_socket se \<and> se_setsockopt se dev = 0 \<and> 0 \<le> se_bind se (client_addr ip)"

lemma short_device_name: "length dev \<le> POINTER_SIZE \<Longrightarrow> 0 \<notin> set dev \<Longrightarrow> device_name POINTER_SIZE dev = dev"
  by (simp add: device_name_def POINTER_SIZE_def IFNAMSIZ_def cstr_no_nul)

lemma client_setup_ready:
  assumes "length argv = argc" "argv ! 1 = dev" "argv ! 2 = ip" "length dev \<le> POINTER_SIZE" "0 \<notin> set dev"
    and "socket_ready se dev ip"
  shows "client_setup argc se argv =
    (Ready (client_addr MIDDLEBOX_IP), [Socket, Bind_to_device dev, Bind (client_addr ip)])"
  using assms by (simp add: client_setup_def socket_ready_def short_device_name Let_def)

lemma rand_client_run:
  assumes "length dev \<le> POINTER_SIZE" "0 \<notin> set dev" "socket_ready se dev ip"
    and "get_list_of_keys file = Inr key_list" "client_keys_ok key_list" "length buf = RAND_MAX_LENGTH"
    and "list_all (reply_fits RAND_MAX_LENGTH) inbox"
  shows "if 4000 \<le> length inbox
    then \<exists>c. rand_client_program se rnd file [prog, dev, ip] buf inbox =
        Inr (0, [Socket, Bind_to_device dev, Bind (client_addr ip), Close], Some c) \<and>
      rc_sent c = map (\<lambda>i. (rand_frame rnd (5 * i) key_list,
        if i = 0 then client_addr MIDDLEBOX_IP else sender (inbox ! (4 * i - 1)))) [0..<1000] \<and>
      rc_shown c = map shown_text (take 4000 inbox)
    else rand_client_program se rnd file [prog, dev, ip] buf inbox = Inl Hang"
proof -
  have "client_setup 3 se [prog, dev, ip] =
      (Ready (client_addr MIDDLEBOX_IP), [Socket, Bind_to_device dev, Bind (client_addr ip)])"
    by (rule client_setup_ready) (use assms(1-3) in simp_all)
  then show ?thesis
    using rand_client_runs [OF assms(4-7), of rnd "client_addr MIDDLEBOX_IP"]
    by (auto simp: rand_client_program_def split: if_splits simp del: upt_Suc)
qed

text \<open>C38: the random client, as a whole: with the right arguments, a socket that can be set up and
  usable keys it binds to its device and address, sends 1000 requests, the first to the
  middlebox and each other one to whoever sent the last reply before it, shows every reply, and
  ends with status 0, exactly when 4000 replies arrive; with fewer it waits for ever.\<close>

theorem rand_client_program_runs:
  assumes "length dev \<le> POINTER_SIZE" "0 \<notin> set dev" "socket_ready se dev ip"
    and "get_list_of_keys file = Inr key_list" "client_keys_ok key_list" "length buf = RAND_MAX_LENGTH"
    and "list_all (reply_fits RAND_MAX_LENGTH) inbox"
  shows "if 4000 \<le> length inbox
    then \<exists>c. rand_client_program se rnd file [prog, dev, ip] buf inbox =
        Inr (0, [Socket, Bind_to_device dev, Bind (client_addr ip), Close], Some c) \<and>
      rc_sent c = map (\<lambda>i. (rand_frame rnd (5 * i) key_list,
        if i = 0 then client_addr MIDDLEBOX_IP else sender (inbox ! (4 * i - 1)))) [0..<1000] \<and>
      rc_shown c = map shown_text (take 4000 inbox)
    else rand_client_program se rnd file [prog, dev, ip] buf inbox = Inl Hang"
  by (rule rand_client_run [OF assms])

text \<open>C40: a device whose name is longer than a pointer cannot be used: \<open>sizeof(interface)\<close> cuts
  the name, the kernel finds no such device, and every client gives up before it binds its
  address or sends anything.\<close>

theorem long_device_name_fails:
  assumes "POINTER_SIZE < length dev" "0 \<le> se_socket se"
    and "\<forall>name. se_setsockopt se name = 0 \<longleftrightarrow> name = dev"
  shows "rand_client_program se rnd file [prog, dev, ip] buf inbox =
      Inr (1, [Socket, Bind_to_device (cstr (take POINTER_SIZE dev))], None) \<and>
    client_program se rnd [prog, dev, ip, msg] buf inbox =
      Inr (1, [Socket, Bind_to_device (cstr (take POINTER_SIZE dev))], None)"
proof -
  have cut: "device_name POINTER_SIZE dev = cstr (take POINTER_SIZE dev)"
    by (simp add: device_name_def POINTER_SIZE_def IFNAMSIZ_def)
  have "length (cstr (take POINTER_SIZE dev)) < length dev"
    using assms(1) length_cstr [of "take POINTER_SIZE dev"] by simp
  then have "cstr (take POINTER_SIZE dev) \<noteq> dev" by auto
  then show ?thesis
    using assms(2,3) cut by (simp add: rand_client_program_def client_program_def client_setup_def Let_def)
qed

section \<open>The plain client\<close>

text \<open>The two requests of a burst, the first with call \<open>j\<close> of \<open>rand\<close>.\<close>

definition plain_requests :: "(nat \<Rightarrow> nat) \<Rightarrow> byte list \<Rightarrow> nat \<Rightarrow> byte list list" where
  "plain_requests rnd msg j = [request_bytes (rnd j) msg, request_bytes (rnd (j + 1)) msg]"

lemma client_send_loop_spec:
  assumes "length (rc_buf c) = CLIENT_MAX_LENGTH" "length msg \<le> CLIENT_MAX_LENGTH - 10"
  shows "\<exists>c'. client_send_loop CLIENT_BURST_SIZE rnd msg c = Inr (Some c') \<and>
    rc_sent c' = rc_sent c @ map (\<lambda>f. (f, rc_server c)) (plain_requests rnd msg (rc_calls c)) \<and>
    length (rc_buf c') = CLIENT_MAX_LENGTH \<and> rc_calls c' = rc_calls c + 2 \<and> rc_inbox c' = rc_inbox c \<and>
    rc_shown c' = rc_shown c \<and> rc_server c' = rc_server c"
proof -
  have step: "client_payload CLIENT_MAX_LENGTH r buf msg =
      Inr (Some (request_bytes r msg @ drop (length msg + 10) buf, word_of_nat (length msg + 10)))"
    if "length buf = CLIENT_MAX_LENGTH" for r buf
    using assms(2) by (subst client_payload_eq [OF that]) (simp_all add: CLIENT_MAX_LENGTH_def)
  have n: "unat (word_of_nat (length msg + 10) :: u16) = length msg + 10"
    using assms(2) by (simp only: unat_of_nat CLIENT_MAX_LENGTH_def) simp
  have len: "length (request_bytes r msg @ drop (length msg + 10) buf) = CLIENT_MAX_LENGTH"
    if "length buf = CLIENT_MAX_LENGTH" for r buf
    using that assms(2) by (simp add: CLIENT_MAX_LENGTH_def)
  have two: "CLIENT_BURST_SIZE = Suc (Suc 0)" by (simp add: CLIENT_BURST_SIZE_def)
  show ?thesis
    unfolding two by (simp add: step assms(1) len n plain_requests_def del: of_nat_add length_append length_drop)
qed

interpretation plain: request_bursts "\<lambda>n. client_burst_loop n rnd msg" Some 8 "plain_requests rnd msg" 2
    "\<lambda>c. length msg \<le> CLIENT_MAX_LENGTH - 10 \<and> length (rc_buf c) = CLIENT_MAX_LENGTH" rc_calls rc_server rc_inbox
    rc_sent rc_shown "reply_fits CLIENT_MAX_LENGTH" shown_text for rnd msg
proof (unfold_locales, goal_cases)
  case (4 c n)
  then obtain c1 where "client_send_loop CLIENT_BURST_SIZE rnd msg c = Inr (Some c1)" "rc_inbox c1 = rc_inbox c"
    using client_send_loop_spec [of c msg rnd] by auto
  with 4 show ?case using receive_loop_spec [of CLIENT_MAX_LENGTH c1 8] by (simp add: CLIENT_BURST_SIZE_def)
next
  case (5 c n)
  then obtain c1 where "client_send_loop CLIENT_BURST_SIZE rnd msg c = Inr (Some c1)"
    "rc_sent c1 = rc_sent c @ map (\<lambda>f. (f, rc_server c)) (plain_requests rnd msg (rc_calls c))"
    "length (rc_buf c1) = CLIENT_MAX_LENGTH" "rc_calls c1 = rc_calls c + 2" "rc_inbox c1 = rc_inbox c"
    "rc_shown c1 = rc_shown c" "rc_server c1 = rc_server c"
    using client_send_loop_spec [of c msg rnd] by auto
  with 5 show ?case
    using receive_loop_spec [of CLIENT_MAX_LENGTH c1 8]
    by (intro exI [of _ "after_replies 8 c1"]) (simp add: CLIENT_BURST_SIZE_def after_replies_def)
qed (simp_all add: reply_fits_def)

text \<open>The plain client, as a whole: it sends 100000 requests, two to the middlebox and each other
  two to the sender of the last reply before them, and ends exactly when 400000 replies arrive,
  however many keys its message asks for.\<close>

theorem client_program_runs:
  assumes "length dev \<le> POINTER_SIZE" "0 \<notin> set dev" "socket_ready se dev ip"
    and "length msg \<le> CLIENT_MAX_LENGTH - 10" "length buf = CLIENT_MAX_LENGTH"
    and fits: "list_all (reply_fits CLIENT_MAX_LENGTH) inbox"
  shows "if 400000 \<le> length inbox
    then \<exists>c. client_program se rnd [prog, dev, ip, msg] buf inbox =
        Inr (0, [Socket, Bind_to_device dev, Bind (client_addr ip), Close], Some c) \<and>
      rc_sent c = concat (map (\<lambda>i. map (\<lambda>f. (f, if i = 0 then client_addr MIDDLEBOX_IP else sender (inbox ! (8 * i - 1))))
        (plain_requests rnd msg (2 * i))) [0..<50000]) \<and>
      rc_shown c = map shown_text (take 400000 inbox)
    else client_program se rnd [prog, dev, ip, msg] buf inbox = Inl Hang"
proof -
  have "client_setup 4 se [prog, dev, ip, msg] =
      (Ready (client_addr MIDDLEBOX_IP), [Socket, Bind_to_device dev, Bind (client_addr ip)])"
    by (rule client_setup_ready) (use assms(1-3) in simp_all)
  then show ?thesis
    using plain.run [of msg "new_client buf (client_addr MIDDLEBOX_IP) inbox" 50000 rnd, unfolded new_client_fields] assms(4-)
    by (auto simp: client_program_def client_main_def CLIENT_BURST_NUMBER_def split: if_splits simp del: upt_Suc)
qed

section \<open>Frames that carry datagrams\<close>

text \<open>The frame \<open>d\<close>, with an IP header of five words, carries the datagram \<open>p\<close>.\<close>

definition carries :: "sockaddr_in \<Rightarrow> sockaddr_in \<Rightarrow> byte list \<Rightarrow> byte list \<Rightarrow> bool" where
  "carries src dst p d \<longleftrightarrow> sin_family src = AF_INET \<and> length (sin_addr src) = 4 \<and> length (sin_port src) = 2 \<and>
     rd 12 2 d = Inr [8, 0] \<and> rd 14 1 d = Inr [0x45] \<and> rd 23 1 d = Inr [IPPROTO_UDP] \<and>
     rd 26 4 d = Inr (sin_addr src) \<and> rd 30 4 d = Inr (sin_addr dst) \<and>
     rd 34 2 d = Inr (sin_port src) \<and> rd 36 2 d = Inr (sin_port dst) \<and>
     rd_be16 38 d = Inr (word_of_nat (length p + 8)) \<and> rd 42 (length p) d = Inr p"

text \<open>The sender a receiver sees is in the frame.\<close>

lemma carries_sender:
  assumes "carries src dst p d" "carries src' dst' p' d"
  shows "src = src'"
  using assms by (cases src, cases src') (simp add: carries_def)

lemma client_addr_fields:
  "sin_family (client_addr ip) = AF_INET" "sin_port (client_addr ip) = to_be16 LOCAL_PORT"
  "sin_addr (client_addr ip) = (if inet_pton ip = None then [0, 0, 0, 0] else to_be32 (ip_str_to_int ip))"
  using fill_sockaddr_fields [of CLIENT_PORT ip] by (simp_all add: client_addr_def CLIENT_PORT_def LOCAL_PORT_def)

lemma client_addr_known: "inet_pton ip \<noteq> None \<Longrightarrow> sin_addr (client_addr ip) = to_be32 (ip_str_to_int ip)"
  unfolding client_addr_fields(3) by (rule if_not_P)

lemma middlebox_addr: "sin_addr (client_addr MIDDLEBOX_IP) = to_be32 get_local_ip"
proof -
  have same: "MIDDLEBOX_IP = LOCAL_IP" by (simp only: MIDDLEBOX_IP_def LOCAL_IP_def)
  have "pton_octet (str ''10'') = Some 10" "pton_octet (str ''1'') = Some 1" "pton_octet (str ''0'') = Some 0"
    "pton_octet (str ''2'') = Some 2"
    by (simp_all add: pton_octet_def is_digit_def dec_val_def)
  then have "inet_pton (str ''10.1.0.2'') \<noteq> None" by (simp add: inet_pton_def)
  then have "inet_pton MIDDLEBOX_IP \<noteq> None" by (simp only: MIDDLEBOX_IP_def not_False_eq_True)
  then show ?thesis by (simp only: client_addr_fields get_local_ip_def same if_False)
qed

lemma rd_be32_of: "rd off 4 d = Inr (to_be32 w) \<Longrightarrow> rd_be32 off d = Inr w"
  by (simp add: rd_be32_def)

text \<open>What the middlebox sends carries a datagram from the address the clients send to.\<close>

lemma udp_frame_carries:
  assumes "length mac = 6" "sin_addr dst = to_be32 ip" "sin_port dst = to_be16 TARGET_PORT" "length p \<le> 1472"
  shows "carries (client_addr MIDDLEBOX_IP) dst p (udp_frame e mac ip p)"
proof -
  let ?n = "word_of_nat (length p + 8) :: u16"
  have len: "ucast ((word_of_nat (length p) :: u32) + 8) = ?n" by (rule u16_of_u32_len [OF assms(4)])
  have et: "to_be16 ETHER_TYPE_IPV4 = [8, 0]" by (simp add: ETHER_TYPE_IPV4_def to_be16_def)
  let ?ck = "to_le16 (final_cksum (raw_cksum e (ip_header_with get_local_ip ip 64 0 IPPROTO_UDP ?n [0, 0])))"
  have "udp_frame e mac ip p =
    mac @ local_mac @ [8, 0] @ [0x45, 0] @ to_be16 (20 + ?n) @ [0, 0] @ to_be16 0x4000 @ [64, IPPROTO_UDP] @ ?ck @
    to_be32 get_local_ip @ to_be32 ip @ to_be16 LOCAL_PORT @ to_be16 TARGET_PORT @ to_be16 ?n @ [0, 0] @ p"
    by (simp only: udp_frame_def ip_header_def ip_header_with_def udp_header_def len et append_assoc)
  moreover have "length ?ck = 2" by simp
  ultimately obtain ck where ck: "length ck = 2" "udp_frame e mac ip p =
    mac @ local_mac @ [8, 0] @ [0x45, 0] @ to_be16 (20 + ?n) @ [0, 0] @ to_be16 0x4000 @ [64, IPPROTO_UDP] @ ck @
    to_be32 get_local_ip @ to_be32 ip @ to_be16 LOCAL_PORT @ to_be16 TARGET_PORT @ to_be16 ?n @ [0, 0] @ p" by blast
  show ?thesis
    unfolding carries_def ck(2)
    by (simp add: rd_def rd_be16_def client_addr_fields(1,2) middlebox_addr assms ck(1) local_mac_def)
qed

section \<open>Clients and middlebox\<close>

text \<open>A datagram that arrived at the client in a frame the middlebox sent.\<close>

definition from_middlebox :: "'e net_env_scheme \<Rightarrow> byte list \<Rightarrow> datagram \<Rightarrow> bool" where
  "from_middlebox e ip d \<longleftrightarrow> (\<exists>p src mac. d = Some (p, src) \<and> length mac = 6 \<and>
     carries src (client_addr ip) p (udp_frame e mac (ip_str_to_int ip) p))"

lemma from_middlebox_sender:
  assumes "from_middlebox e ip d" "reply_fits RAND_MAX_LENGTH d" "inet_pton ip \<noteq> None"
  shows "sender d = client_addr MIDDLEBOX_IP"
proof -
  obtain p src mac where d: "d = Some (p, src)" "length mac = 6"
    "carries src (client_addr ip) p (udp_frame e mac (ip_str_to_int ip) p)"
    using assms(1) by (auto simp: from_middlebox_def)
  have "length p \<le> 1472" using assms(2) by (simp add: d(1) reply_fits_def RAND_MAX_LENGTH_def)
  then have "carries (client_addr MIDDLEBOX_IP) (client_addr ip) p (udp_frame e mac (ip_str_to_int ip) p)"
    using d(2) client_addr_known [OF assms(3)]
    by (intro udp_frame_carries) (simp_all add: client_addr_fields(2) LOCAL_PORT_def TARGET_PORT_def)
  then show ?thesis using carries_sender [OF d(3)] by (simp add: sender_def d(1))
qed

text \<open>C21: as long as every reply comes in a frame the middlebox sent, the random client keeps
  asking the middlebox: all its 1000 requests go to the middlebox's own address and port.\<close>

theorem rand_client_stays:
  assumes sock: "length dev \<le> POINTER_SIZE" "0 \<notin> set dev" "socket_ready se dev ip" "inet_pton ip \<noteq> None"
    and keys: "get_list_of_keys file = Inr key_list" "client_keys_ok key_list" "length buf = RAND_MAX_LENGTH"
    and inbox: "list_all (reply_fits RAND_MAX_LENGTH) inbox" "list_all (from_middlebox e ip) inbox" "4000 \<le> length inbox"
  shows "\<exists>c. rand_client_program se rnd file [prog, dev, ip] buf inbox =
      Inr (0, [Socket, Bind_to_device dev, Bind (client_addr ip), Close], Some c) \<and>
    map snd (rc_sent c) = replicate 1000 \<lparr>sin_family = AF_INET, sin_port = to_be16 LOCAL_PORT, sin_addr = to_be32 get_local_ip\<rparr>"
proof -
  have "client_addr MIDDLEBOX_IP = \<lparr>sin_family = AF_INET, sin_port = to_be16 LOCAL_PORT, sin_addr = to_be32 get_local_ip\<rparr>"
    using client_addr_fields(1,2) [of MIDDLEBOX_IP] middlebox_addr by (cases "client_addr MIDDLEBOX_IP") simp
  moreover have "sender (inbox ! (4 * i - 1)) = client_addr MIDDLEBOX_IP" if "0 < i" "i < 1000" for i
    using that inbox by (intro from_middlebox_sender [of e, OF _ _ sock(4)]) (simp_all add: list_all_length)
  then have "map (\<lambda>i. if i = 0 then client_addr MIDDLEBOX_IP else sender (inbox ! (4 * i - 1))) [0..<1000] =
      replicate 1000 (client_addr MIDDLEBOX_IP)"
    by (intro replicate_eqI) (auto simp del: upt_Suc)
  ultimately show ?thesis
    using rand_client_run [OF sock(1-3) keys inbox(1), of rnd prog] inbox(3)
    by (auto simp: o_def simp del: upt_Suc)
qed

text \<open>A frame from the client to the middlebox passes every test of the receive path.\<close>

lemma client_frame_dispatch:
  assumes frame: "carries (client_addr ip) (client_addr MIDDLEBOX_IP) p (mb_data b)" "mbufs s m = Some b"
    and known: "inet_pton ip \<noteq> None" "arp_lookup_mac s (ip_str_to_int ip) \<noteq> None" "ip_str_to_int ip \<noteq> ip_str_to_int TARGET_IP"
  shows "eth_in e m s = app_client_in e m 34 (ip_str_to_int ip) s"
proof -
  have "of_be [8, 0] = ETHER_TYPE_IPV4"
  proof -
    have "[8, 0] = to_be16 ETHER_TYPE_IPV4" by (simp add: ETHER_TYPE_IPV4_def to_be16_def)
    then show ?thesis by (simp only: of_be_to_be)
  qed
  then have "ipv4_frame s m 0x45 IPPROTO_UDP (ip_str_to_int ip) (of_le (to_be32 get_local_ip)) LOCAL_PORT"
    unfolding ipv4_frame_def
    by (intro exI [of _ b]) (use frame client_addr_known [OF known(1)] in \<open>simp add: carries_def rd_be16_def rd_be32_def
      rd_le32_def client_addr_fields(2) middlebox_addr\<close>)
  then show ?thesis
    using eth_in_ipv4 [of s m "0x45" IPPROTO_UDP "ip_str_to_int ip" "of_le (to_be32 get_local_ip)" LOCAL_PORT e] known(2,3)
    by simp
qed

text \<open>Where the datagram lies in the frame.\<close>

lemma carries_data:
  assumes "carries src dst p d"
  shows "d = take 42 d @ p @ drop (42 + length p) d" "length (take 42 d) = 42"
    "rd_be16 38 (take 42 d) = Inr (word_of_nat (length p + 8))"
proof -
  have p: "42 + length p \<le> length d" "take (length p) (drop 42 d) = p" "rd_be16 38 d = Inr (word_of_nat (length p + 8))"
    using assms by (auto simp: carries_def rd_def split: if_splits)
  show "d = take 42 d @ p @ drop (42 + length p) d"
    using append_take_drop_id [of 42 d] append_take_drop_id [of "length p" "drop 42 d"] p(2) by (simp add: add.commute)
  show "length (take 42 d) = 42" using p(1) by simp
  show "rd_be16 38 (take 42 d) = Inr (word_of_nat (length p + 8))"
    using p(1,3) by (simp add: rd_be16_def rd_def drop_take split: if_splits)
qed

lemma carries_unique:
  assumes "carries src dst p d" "carries src' dst' p' d" "length d < 60000"
  shows "src = src'" "p = p'"
proof -
  show "src = src'" by (rule carries_sender [OF assms(1,2)])
  have fits: "42 + length p \<le> length d" "42 + length p' \<le> length d" "take (length p) (drop 42 d) = p" "take (length p') (drop 42 d) = p'"
    "(word_of_nat (length p + 8) :: u16) = word_of_nat (length p' + 8)"
    using assms(1,2) by (auto simp: carries_def rd_def split: if_splits)
  then have "length p + 8 < 65536" "length p' + 8 < 65536" using assms(3) by linarith+
  then have "length p = length p'"
    using arg_cong [OF fits(5), of unat] by (simp add: unat_of_nat take_bit_nat_eq_self del: of_nat_add)
  with fits(3,4) show "p = p'" by metis
qed

text \<open>A request of the random client, carried in a frame from the client to the middlebox,
  passes every test of the receive path and is taken as the four keys the client picked for it,
  in order; with memcached free the waiting group, these keys with it, is sent on.\<close>

theorem rand_request_received:
  assumes keys: "client_keys_ok key_list"
    and frame: "carries (client_addr ip) (client_addr MIDDLEBOX_IP) (rand_frame rnd i key_list) (mb_data b)" "mbufs s m = Some b"
    and known: "inet_pton ip \<noteq> None" "arp_lookup_mac s (ip_str_to_int ip) \<noteq> None" "ip_str_to_int ip \<noteq> ip_str_to_int TARGET_IP"
    and pool: "mbufs (init_memcached_pkt e m s) m = mbufs s m"
  shows "eth_in e m s =
    bindr (client_keys e m 0 (picked 4 rnd i key_list) (init_memcached_pkt e m s)) (\<lambda>s.
    if unat (outstanding_req s) < MIN_OUTSTANDING_REQ
    then construct_pkt_and_send_to_server e False s else Inr s)"
proof -
  note at = carries_data [OF frame(1)]
  have "app_client_in e m 34 (ip_str_to_int ip) s =
    bindr (client_keys e m 0 (picked 4 rnd i key_list) (init_memcached_pkt e m s)) (\<lambda>s.
    if unat (outstanding_req s) < MIN_OUTSTANDING_REQ
    then construct_pkt_and_send_to_server e False s else Inr s)"
    by (rule rand_frame_understood [OF keys at(1,2,3) frame(2) pool])
  then show ?thesis using client_frame_dispatch [OF frame known, of e] by simp
qed

end
