(* ===== verification/Client_Examples.thy ===== *)
theory Client_Examples
  imports Client_Network Examples
begin

text \<open>The properties of the load generators at concrete keys, requests and packets.\<close>

definition ex_key_list :: "byte list list" where "ex_key_list = [str ''ab'']"

lemma ex_key_list_ok: "client_keys_ok ex_key_list" "get_list_of_keys (Some ex_key_list) = Inr ex_key_list"
  by (simp_all add: client_keys_ok_def ex_key_list_def get_list_of_keys_def CSV_KEY_NUMS_def CLIENT_MAX_KEY_LENGTH_def)

text \<open>A message of 1439 bytes passes the length test of the plain client and does not fit.\<close>

theorem client_payload_bounds_witness:
  "client_payload 1448 0 (replicate 1448 0) (replicate 1439 97) = Inl Out_of_bounds"
  using client_payload_bounds [of "replicate 1448 0" 1448 0 "replicate 1439 97"] by simp

section \<open>Starting\<close>

definition ex_ip :: "byte list" where "ex_ip = str ''10.1.0.4''"
definition ex_device :: "byte list" where "ex_device = str ''veth4''"

text \<open>A machine with this one device.\<close>

definition ex_sockets :: "byte list \<Rightarrow> socket_env" where
  "ex_sockets dev = \<lparr>se_socket = 3, se_setsockopt = \<lambda>name. if name = dev then 0 else -1, se_bind = \<lambda>_. 0\<rparr>"

lemma ex_sockets_ready: "socket_ready (ex_sockets dev) dev ip"
  by (simp add: socket_ready_def ex_sockets_def)

lemma ex_device_ok: "length ex_device \<le> POINTER_SIZE" "0 \<notin> set ex_device"
  by (simp_all add: ex_device_def POINTER_SIZE_def)

lemma ex_ip_known: "inet_pton ex_ip = Some [10, 1, 0, 4]" "inet_pton ex_ip \<noteq> None" "ip_str_to_int ex_ip = client_ip"
proof -
  have "pton_octet (str ''10'') = Some 10" "pton_octet (str ''1'') = Some 1" "pton_octet (str ''0'') = Some 0"
    "pton_octet (str ''4'') = Some 4"
    by (simp_all add: pton_octet_def is_digit_def dec_val_def)
  then show pton: "inet_pton ex_ip = Some [10, 1, 0, 4]" by (simp add: inet_pton_def ex_ip_def)
  have "of_be (to_be32 (ip_str_to_int ex_ip)) = client_ip"
    unfolding inet_pton_ip_str_to_int [OF pton] by (simp add: client_ip_def of_be_def)
  then show "ip_str_to_int ex_ip = client_ip" by simp
  show "inet_pton ex_ip \<noteq> None" by (simp add: pton)
qed

definition ex_reply_datagram :: datagram where
  "ex_reply_datagram = Some (replicate 12 65, client_addr MIDDLEBOX_IP)"

lemma ex_replies_fit: "list_all (reply_fits RAND_MAX_LENGTH) (replicate n ex_reply_datagram)"
  by (simp add: list_all_iff reply_fits_def ex_reply_datagram_def RAND_MAX_LENGTH_def)

lemma ex_replies_from: "list_all (from_middlebox ref_env ex_ip) (replicate n ex_reply_datagram)"
proof -
  have "carries (client_addr MIDDLEBOX_IP) (client_addr ex_ip) (replicate 12 65)
      (udp_frame ref_env client_mac (ip_str_to_int ex_ip) (replicate 12 65))"
    using client_addr_known [OF ex_ip_known(2)]
    by (intro udp_frame_carries) (simp_all add: client_addr_fields(2) LOCAL_PORT_def TARGET_PORT_def client_mac_def)
  then show ?thesis
    unfolding list_all_iff from_middlebox_def ex_reply_datagram_def by (auto intro!: exI [of _ client_mac] simp: client_mac_def)
qed

lemma ex_buf: "length (replicate 1024 (0 :: byte)) = RAND_MAX_LENGTH"
  by (simp add: RAND_MAX_LENGTH_def)

theorem rand_client_program_runs_witness:
  "(\<exists>c. rand_client_program (ex_sockets ex_device) (\<lambda>_. 0) (Some ex_key_list) [[], ex_device, ex_ip] (replicate 1024 0)
      (replicate 4000 ex_reply_datagram) =
      Inr (0, [Socket, Bind_to_device ex_device, Bind (client_addr ex_ip), Close], Some c) \<and> length (rc_sent c) = 1000) \<and>
   rand_client_program (ex_sockets ex_device) (\<lambda>_. 0) (Some ex_key_list) [[], ex_device, ex_ip] (replicate 1024 0)
      (replicate 3999 ex_reply_datagram) = Inl Hang"
proof -
  have run: "if 4000 \<le> n
    then \<exists>c. rand_client_program (ex_sockets ex_device) (\<lambda>_. 0) (Some ex_key_list) [[], ex_device, ex_ip] (replicate 1024 0)
      (replicate n ex_reply_datagram) =
      Inr (0, [Socket, Bind_to_device ex_device, Bind (client_addr ex_ip), Close], Some c) \<and> length (rc_sent c) = 1000
    else rand_client_program (ex_sockets ex_device) (\<lambda>_. 0) (Some ex_key_list) [[], ex_device, ex_ip] (replicate 1024 0)
      (replicate n ex_reply_datagram) = Inl Hang" for n
    using rand_client_program_runs [OF ex_device_ok ex_sockets_ready [of ex_device ex_ip] ex_key_list_ok(2,1) ex_buf
        ex_replies_fit [of n], of "\<lambda>_. 0" "[]"]
    by (auto split: if_splits simp del: upt_Suc)
  show ?thesis using run [of 4000] run [of 3999] by simp
qed

theorem rand_client_stays_witness:
  "\<exists>c. rand_client_program (ex_sockets ex_device) (\<lambda>_. 0) (Some ex_key_list) [[], ex_device, ex_ip] (replicate 1024 0)
      (replicate 4000 ex_reply_datagram) =
      Inr (0, [Socket, Bind_to_device ex_device, Bind (client_addr ex_ip), Close], Some c) \<and>
    map snd (rc_sent c) = replicate 1000 \<lparr>sin_family = AF_INET, sin_port = to_be16 LOCAL_PORT, sin_addr = to_be32 get_local_ip\<rparr>"
  by (rule rand_client_stays [OF ex_device_ok ex_sockets_ready ex_ip_known(2) ex_key_list_ok(2,1) ex_buf
      ex_replies_fit ex_replies_from]) simp

theorem long_device_name_fails_witness:
  "rand_client_program (ex_sockets (str ''enp0s31f6'')) (\<lambda>_. 0) None [[], str ''enp0s31f6'', ex_ip] [] [] =
     Inr (1, [Socket, Bind_to_device (str ''enp0s31f'')], None)"
proof -
  have "POINTER_SIZE < length (str ''enp0s31f6'')" "cstr (take POINTER_SIZE (str ''enp0s31f6'')) = str ''enp0s31f''"
    by (simp_all add: POINTER_SIZE_def)
  then show ?thesis
    using long_device_name_fails [of "str ''enp0s31f6''" "ex_sockets (str ''enp0s31f6'')" "\<lambda>_. 0" None "[]" ex_ip "[]" "[]"]
    by (simp add: ex_sockets_def del: str_simps)
qed

section \<open>Requests\<close>

definition ex_rand_frame :: "byte list" where
  "ex_rand_frame = request_bytes 0 (str ''gets ab ab ab ab'')"

definition ex_rand_packet :: mbuf where
  "ex_rand_packet = ex_mbuf (ex_headers client_ip (word_of_nat (length ex_rand_frame + 8)) @ ex_rand_frame)"

definition ex_rand_state :: "ref_table app_state" where
  "ex_rand_state = ex_idle\<lparr>mbufs := (mbufs ex_idle)(0x1000 \<mapsto> ex_rand_packet)\<rparr>"

lemma ex_rand_frame: "rand_frame (\<lambda>_. 0) 0 ex_key_list = ex_rand_frame"
  by (simp add: rand_frame_def ex_rand_frame_def picked_def ex_key_list_def numeral_eq_Suc)

lemma ex_headers_carry:
  "carries (client_addr ex_ip) (client_addr MIDDLEBOX_IP) p (ex_headers client_ip (word_of_nat (length p + 8)) @ p)"
  unfolding carries_def
  by (simp add: client_addr_fields(1,2) client_addr_known [OF ex_ip_known(2)] ex_ip_known(3) middlebox_addr)
    (simp add: ex_headers_def rd_def ETHER_TYPE_IPV4_def to_be16_def IPPROTO_UDP_def)

lemma ex_rand_carries: "carries (client_addr ex_ip) (client_addr MIDDLEBOX_IP) ex_rand_frame (mb_data ex_rand_packet)"
  unfolding ex_rand_packet_def ex_mbuf_fields by (rule ex_headers_carry)

theorem rand_request_received_witness:
  "eth_in ref_env 0x1000 ex_rand_state =
    bindr (client_keys ref_env 0x1000 0 (replicate 4 (str ''ab'')) ex_rand_state) (\<lambda>s.
    if unat (outstanding_req s) < MIN_OUTSTANDING_REQ
    then construct_pkt_and_send_to_server ref_env False s else Inr s)"
proof -
  have init: "init_memcached_pkt ref_env 0x1000 ex_rand_state = ex_rand_state"
    by (simp add: init_memcached_pkt_def ex_rand_state_def ex_idle_def)
  have keys: "picked 4 (\<lambda>_. 0) 0 ex_key_list = replicate 4 (str ''ab'')"
    by (simp add: picked_def ex_key_list_def numeral_eq_Suc)
  have "mbufs ex_rand_state 0x1000 = Some ex_rand_packet" by (simp add: ex_rand_state_def)
  moreover have "arp_lookup_mac ex_rand_state (ip_str_to_int ex_ip) \<noteq> None" "ip_str_to_int ex_ip \<noteq> ip_str_to_int TARGET_IP"
    using ex_lookup(2) [of ex_rand_state] by (simp_all add: ex_ip_known(3) ex_rand_state_def client_ip_def target_ip_value)
  ultimately show ?thesis
    using rand_request_received [OF ex_key_list_ok(1), of ex_ip "\<lambda>_. 0" 0 ex_rand_packet ex_rand_state "0x1000" ref_env]
      ex_rand_carries ex_ip_known(2)
    by (simp only: ex_rand_frame init keys simp_thms)
qed

end
