(* ===== verification/Test_Server.thy ===== *)
theory Test_Server
  imports Sockets
begin

text \<open>
  The stub server \<open>deprecated/server.cpp\<close>: it splits what it receives at every \<open>|\<close> and
  sends the parts back to the sender, each with an \<open>a\<close> added. The datagrams that will ever
  arrive are a parameter.
\<close>

definition MAXLINE :: nat where "MAXLINE = 1024"

text \<open>\<open>while (found != npos)\<close>: \<open>received\<close> loses the part and its delimiter.\<close>

function answer_loop :: "byte list \<Rightarrow> byte list \<Rightarrow> byte list" where
  "answer_loop received send =
     (if 124 \<notin> set received then send
      else
        let found = length (takeWhile (\<lambda>c. c \<noteq> 124) received)
        in answer_loop (drop (found + 1) received) (send @ take found received @ str ''a|''))"
  by pat_completeness auto
termination
proof (relation "measure (\<lambda>(received, send). length received)", goal_cases)
  case (2 received send found)
  then show ?case by (cases received) auto
qed simp

declare answer_loop.simps [simp del]

definition server_round :: "byte list option \<Rightarrow> byte list res" where
  "server_round datagram =
     (let n = (case datagram of None \<Rightarrow> -1 | Some d \<Rightarrow> int (min (length d) MAXLINE))
      in bindr (check Out_of_bounds (0 \<le> n \<and> n < int MAXLINE)) (\<lambda>_.
         let send = answer_loop (cstr (the datagram)) []
         in bindr (check Out_of_bounds (length send < MAXLINE * 2)) (\<lambda>_. Inr send)))"

section \<open>The whole program\<close>

definition SERVER_IP :: "byte list" where "SERVER_IP = str ''10.1.0.3''"
definition SERVER_PORT :: u16 where "SERVER_PORT = 8080"
definition DPDK_IP :: "byte list" where "DPDK_IP = str ''10.1.0.2''"
definition DPDK_PORT :: u16 where "DPDK_PORT = 8080"
definition INTERFACE :: "byte list" where "INTERFACE = str ''veth2''"

text \<open>\<open>interface\<close> is an array of \<open>MAXLINE\<close> bytes, so that the whole name is passed.\<close>

definition server_setup :: "socket_env \<Rightarrow> start \<times> sock_call list" where
  "server_setup se =
     (if se_socket se < 0 then (Stopped 1, [Socket])
      else
        let servaddr = fill_sockaddr SERVER_PORT SERVER_IP;
            cliaddr = fill_sockaddr DPDK_PORT DPDK_IP
        in if se_bind se servaddr < 0 then (Stopped 1, [Socket, Bind servaddr])
           else
             let dev = device_name MAXLINE (INTERFACE @ [0])
             in if se_setsockopt se dev \<noteq> 0 then (Stopped 1, [Socket, Bind servaddr, Bind_to_device dev])
                else (Ready cliaddr, [Socket, Bind servaddr, Bind_to_device dev]))"

text \<open>
  \<open>while (true)\<close>: the answers sent and to whom, and how it ends: waiting for a datagram that
  never comes, or undefined behaviour.
\<close>

fun server_loop ::
  "sockaddr_in \<Rightarrow> datagram list \<Rightarrow> (byte list \<times> sockaddr_in) list \<Rightarrow> (byte list \<times> sockaddr_in) list \<times> fault" where
  "server_loop cliaddr [] sent = (sent, Hang)"
| "server_loop cliaddr (d # inbox) sent =
     (case server_round (map_option fst d) of
        Inl f \<Rightarrow> (sent, f)
      | Inr send \<Rightarrow>
          let cliaddr = stored_addr cliaddr d
          in server_loop cliaddr inbox (sent @ [(send, cliaddr)]))"

definition server_program ::
  "socket_env \<Rightarrow> datagram list \<Rightarrow> sock_call list \<times> (int + (byte list \<times> sockaddr_in) list \<times> fault)" where
  "server_program se inbox =
     (case server_setup se of
        (Stopped status, cs) \<Rightarrow> (cs, Inl status)
      | (Ready cliaddr, cs) \<Rightarrow> (cs, Inr (server_loop cliaddr inbox [])))"

section \<open>What it answers\<close>

text \<open>The answer in one expression: every part but the last, with an \<open>a\<close> added.\<close>

definition stub_answer :: "byte list \<Rightarrow> byte list" where
  "stub_answer received = concat (map (\<lambda>p. p @ str ''a|'') (butlast (split_on 124 received)))"

lemma answer_loop_eq: "answer_loop received send = send @ stub_answer received"
proof (induction received send rule: answer_loop.induct)
  case (1 received send)
  show ?case
  proof (cases "124 \<in> set received")
    case False
    then show ?thesis by (subst answer_loop.simps) (simp add: stub_answer_def split_on_free)
  next
    case True
    define p r where "p = takeWhile (\<lambda>c. c \<noteq> 124) received" and "r = drop (length p + 1) received"
    have p: "124 \<notin> set p" by (auto simp: p_def dest: set_takeWhileD)
    have "received = p @ dropWhile (\<lambda>c. c \<noteq> 124) received" by (simp add: p_def)
    moreover have "dropWhile (\<lambda>c. c \<noteq> 124) received \<noteq> []" using True by (auto simp: dropWhile_eq_Nil_conv)
    then have "dropWhile (\<lambda>c. c \<noteq> 124) received = 124 # tl (dropWhile (\<lambda>c. c \<noteq> 124) received)"
      using hd_dropWhile [of "\<lambda>c. c \<noteq> 124" received] by (cases "dropWhile (\<lambda>c. c \<noteq> 124) received") auto
    ultimately obtain t where "received = p @ 124 # t" by metis
    then have rec: "received = p @ 124 # r" by (simp add: r_def)
    have take: "take (length p) received = p" by (simp add: rec)
    have "answer_loop received send = answer_loop r (send @ p @ str ''a|'')"
      using True take by (subst answer_loop.simps) (simp add: Let_def p_def [symmetric] r_def)
    also have "\<dots> = (send @ p @ str ''a|'') @ stub_answer r"
      using "1.IH" [of "length p"] True p_def r_def take by simp
    also have "\<dots> = send @ stub_answer received"
      by (simp add: rec stub_answer_def split_on_append [OF p])
    finally show ?thesis .
  qed
qed

lemma answer_loop_length: "length (answer_loop received send) \<le> length send + 2 * length received"
proof (induction received send rule: answer_loop.induct)
  case (1 received send)
  show ?case
  proof (cases "124 \<in> set received")
    case True
    let ?f = "length (takeWhile (\<lambda>c. c \<noteq> 124) received)"
    have f: "?f < length received" using True by (induction received) auto
    have "answer_loop received send = answer_loop (drop (?f + 1) received) (send @ take ?f received @ str ''a|'')"
      using True by (subst answer_loop.simps) (simp add: Let_def)
    moreover have "length (answer_loop (drop (?f + 1) received) (send @ take ?f received @ str ''a|'')) \<le>
        length (send @ take ?f received @ str ''a|'') + 2 * length (drop (?f + 1) received)"
      using "1.IH" True by simp
    ultimately show ?thesis using f by simp
  qed (subst answer_loop.simps, simp)
qed

text \<open>One round: the answer always fits the send buffer.\<close>

definition receivable :: "datagram \<Rightarrow> bool" where
  "receivable d \<longleftrightarrow> (case d of None \<Rightarrow> False | Some (b, src) \<Rightarrow> length b < MAXLINE)"

lemma server_round_eq:
  "server_round (map_option fst d) =
     (if receivable d then Inr (stub_answer (cstr (fst (the d)))) else Inl Out_of_bounds)"
proof (cases "receivable d")
  case True
  then obtain b src where d: "d = Some (b, src)" "length b < MAXLINE" by (auto simp: receivable_def split: option.splits)
  then have "length (answer_loop (cstr b) []) < MAXLINE * 2"
    using answer_loop_length [of "cstr b" "[]"] length_cstr [of b] by simp
  then show ?thesis using d True by (simp add: server_round_def Let_def answer_loop_eq)
next
  case False
  then show ?thesis
    by (cases d) (auto simp: receivable_def server_round_def Let_def split: prod.splits)
qed

lemma server_loop_eq:
  "server_loop cliaddr inbox sent =
     (sent @ map (\<lambda>d. (stub_answer (cstr (fst (the d))), sender d)) (takeWhile receivable inbox),
      if list_all receivable inbox then Hang else Out_of_bounds)"
proof (induction inbox arbitrary: cliaddr sent)
  case (Cons d inbox)
  have "stored_addr cliaddr d = sender d" if "receivable d"
    using that by (auto simp: receivable_def stored_addr_def sender_def split: option.splits)
  then show ?case using Cons.IH by (simp add: server_round_eq Let_def)
qed simp

lemma server_device: "device_name MAXLINE (INTERFACE @ [0]) = INTERFACE"
  by (simp add: device_name_def MAXLINE_def IFNAMSIZ_def INTERFACE_def)

text \<open>C39: once its socket is set up, the stub server answers every datagram of less than 1024
  bytes to its sender: the parts of its text before a \<open>|\<close>, each with an \<open>a\<close> added, which
  always fit the send buffer. It never ends of itself; an error of \<open>recvfrom\<close> or a datagram
  that fills its buffer makes it write out of bounds.\<close>

theorem server_program_answers:
  assumes "0 \<le> se_socket se" "0 \<le> se_bind se (fill_sockaddr SERVER_PORT SERVER_IP)" "se_setsockopt se INTERFACE = 0"
  shows "server_program se inbox =
     ([Socket, Bind (fill_sockaddr SERVER_PORT SERVER_IP), Bind_to_device INTERFACE],
      Inr (map (\<lambda>d. (stub_answer (cstr (fst (the d))), sender d)) (takeWhile receivable inbox),
        if list_all receivable inbox then Hang else Out_of_bounds))"
  using assms by (simp add: server_program_def server_setup_def server_loop_eq server_device)

theorem server_program_answers_witness:
  "snd (server_program \<lparr>se_socket = 3, se_setsockopt = \<lambda>_. 0, se_bind = \<lambda>_. 0\<rparr>
      [Some (str ''x|yz|w'', zero_sockaddr), None]) =
    Inr ([(str ''xa|yza|'', zero_sockaddr)], Out_of_bounds)"
  by (subst server_program_answers) (simp_all add: receivable_def MAXLINE_def stub_answer_def sender_def)

end
