(* ===== verification/Old_Api.thy ===== *)
theory Old_Api
  imports App_State Client_Tables
begin

text \<open>
  The earlier application layer, \<open>deprecated/api.c\<close>: it copies each payload out of its
  packet, keeps who asked for a key in the tables of \<open>processing.c\<close>, and asks memcached
  for \<open>GROUP_SIZE\<close> keys at a time.

  \<open>GROUP_SIZE\<close>, \<open>MAX_LENGTH\<close> and \<open>struct client_info\<close> are declared nowhere in the
  repository: the sizes are parameters, the struct has the fields the code uses. The other
  constants are those of \<open>api.h\<close>. \<open>init_net_sge\<close> and \<open>strip_keys\<close> are the same text as
  in \<open>middlebox/src/api.c\<close> and have the same model. A local array is the list of the bytes
  written to it; a pointer into it is an offset.
\<close>

section \<open>State\<close>

record client_info =
  ci_req_id :: u16
  ci_src_ip :: u32
  ci_src_port :: u16

record old_state = net_state +
  os_tables :: "client_info proc_state"
  os_ukey :: "nat \<Rightarrow> byte list"
  os_ukey_len :: nat
  os_request_id :: u16

record old_env = net_env +
  oe_proc :: proc_env
  oe_group_size :: nat
  oe_max_length :: nat

section \<open>Payloads\<close>

text \<open>
  \<open>init_send_app_payload\<close> into an array of \<open>MAX_LENGTH\<close> bytes, which it fills from the
  front. The test is made in unsigned arithmetic.
\<close>

definition old_send_payload :: "nat \<Rightarrow> byte list \<Rightarrow> u16 \<Rightarrow> (byte list \<times> u16) option res" where
  "old_send_payload max_length message req_id =
     (if 8 \<le> max_length \<and> max_length - 6 - 2 < length message then Inr None
      else
        let msg_len = word_of_nat (length message) :: u16;
            total_len = 2 + 6 + msg_len + 2;
            temp = to_be16 req_id
        in bindr (check Out_of_bounds (2 + 6 + unat msg_len + 2 \<le> max_length)) (\<lambda>_.
           Inr (Some (temp @ MEMCACHED_HEADER @ take (unat msg_len) message @ MEMCACHED_TAIL, total_len))))"

text \<open>Two helpers the rewritten file kept, line for line.\<close>

definition old_init_net_sge :: "u64 \<Rightarrow> nat \<Rightarrow> old_state \<Rightarrow> old_state res" where
  [simp]: "old_init_net_sge m udph s = init_net_sge m udph s"

definition old_strip_keys :: "byte list \<Rightarrow> u16 \<Rightarrow> byte list list res" where
  [simp]: "old_strip_keys payload payload_len = strip_keys payload payload_len"

text \<open>
  \<open>init_rcv_app_payload\<close>: the bytes copied, with the message at 8, and \<open>msg_len\<close>;
  \<open>None\<close> when the payload is too long. \<open>ap->tail\<close> is not used.
\<close>

definition old_rcv_payload ::
  "'e old_env_scheme \<Rightarrow> u64 \<Rightarrow> nat \<Rightarrow> old_state \<Rightarrow> ((byte list \<times> u16) option \<times> old_state) res" where
  "old_rcv_payload e m udph s =
     bindr (old_init_net_sge m udph s) (\<lambda>s.
     bindr (get_data m (rd_le32 (12 + 8)) s) (\<lambda>len.
     if oe_max_length e < unat len then Inr (None, s)
     else
       let total_len = ucast len :: u16; msg_len = total_len - 2 - 6 - 2
       in bindr (get_data m (rd (udph + 8) (unat total_len)) s) (\<lambda>app_buf.
          Inr (Some (app_buf, msg_len), s))))"

definition old_app_send ::
  "'e old_env_scheme \<Rightarrow> u64 \<Rightarrow> nat \<Rightarrow> byte list \<Rightarrow> u16 \<Rightarrow> u32 \<Rightarrow> old_state \<Rightarrow> old_state res" where
  "old_app_send e m udph message req_id destination_ip s =
     bindr (old_init_net_sge m udph s) (\<lambda>s.
     bindr (old_send_payload (oe_max_length e) message req_id) (\<lambda>ap.
     case ap of
       None \<Rightarrow> Inr (log_event (Free m) s)
     | Some (full_msg, total_len) \<Rightarrow>
         bindr (upd_data m (wr (12 + 8) (to_le32 (ucast total_len))) s) (\<lambda>s.
         bindr (upd_data m (wr (udph + 8) (take (unat total_len) full_msg)) s) (\<lambda>s.
         bindr (udp_send e m 12 destination_ip s) (\<lambda>(_, s). Inr s)))))"

section \<open>Keys\<close>

text \<open>
  \<open>strstr\<close> in a local array of \<open>cap\<close> bytes, of which \<open>mem\<close> have been written: without a
  match or a NUL among them it goes on to bytes never written.
\<close>

definition strstr_buf :: "nat \<Rightarrow> byte list \<Rightarrow> byte list \<Rightarrow> bool res" where
  "strstr_buf cap mem w =
     (if occurs w (cstr mem) then Inr True
      else if 0 \<in> set mem then Inr False
      else Inl (if length mem < cap then Uninit_read else Out_of_bounds))"

text \<open>\<open>key\<close> is printed at the end: it must have been written. \<open>None\<close> is \<open>false\<close>.\<close>

definition old_strip_key_value :: "nat \<Rightarrow> byte list \<Rightarrow> u16 \<Rightarrow> byte list option res" where
  "old_strip_key_value cap mem payload_len =
     bindr (strstr_buf cap mem (str ''VALUE'')) (\<lambda>found.
     if \<not> found then Inr None
     else bindr (key_loop (drop 6 mem) (unat payload_len - 6) []) (\<lambda>raw.
          if raw = [] then Inl Uninit_read else Inr (Some (cstr raw))))"

fun old_construct_loop :: "nat \<Rightarrow> byte list list \<Rightarrow> byte list \<Rightarrow> byte list res" where
  "old_construct_loop cap [] payload = Inr payload"
| "old_construct_loop cap (k # ks) payload =
     bindr (strcat cap payload [32]) (\<lambda>payload.
     bindr (strcat cap payload k) (old_construct_loop cap ks))"

definition old_construct_keys_packet :: "nat \<Rightarrow> byte list list \<Rightarrow> byte list res" where
  "old_construct_keys_packet cap keys =
     bindr (strcat cap [] (str ''gets'')) (old_construct_loop cap keys)"

definition old_ukeys :: "old_state \<Rightarrow> byte list list" where
  "old_ukeys s = map (os_ukey s) [0..<os_ukey_len s]"

definition old_insert_ukey_group :: "'e old_env_scheme \<Rightarrow> byte list \<Rightarrow> old_state \<Rightarrow> old_state res" where
  "old_insert_ukey_group e key s =
     (if list_ex (\<lambda>k. k = key) (old_ukeys s) then Inr s
      else
        bindr (check Out_of_bounds (os_ukey_len s < oe_group_size e \<and> length key < MAX_KEY_LENGTH)) (\<lambda>_.
        Inr (s\<lparr>os_ukey := (os_ukey s)(os_ukey_len s := key), os_ukey_len := os_ukey_len s + 1\<rparr>)))"

section \<open>Replies\<close>

text \<open>The loop over \<open>client_data->array\<close>; a cell never written is \<open>None\<close>.\<close>

fun old_forward ::
  "'e old_env_scheme \<Rightarrow> u64 \<Rightarrow> nat \<Rightarrow> byte list \<Rightarrow> client_info option list \<Rightarrow> old_state \<Rightarrow> old_state res" where
  "old_forward e m udph reply [] s = Inr s"
| "old_forward e m udph reply (c # cs) s =
     (case c of
        None \<Rightarrow> Inl Uninit_read
      | Some c \<Rightarrow>
          bindr (old_app_send e m udph reply (ci_req_id c) (ci_src_ip c) s)
            (old_forward e m udph reply cs))"

definition old_app_server_in :: "'e old_env_scheme \<Rightarrow> u64 \<Rightarrow> nat \<Rightarrow> old_state \<Rightarrow> old_state res" where
  "old_app_server_in e m udph s =
     bindr (old_rcv_payload e m udph s) (\<lambda>(ap, s).
     case ap of
       None \<Rightarrow> Inr (log_event (Free m) s)
     | Some (buf, msg_len) \<Rightarrow>
         bindr (rd_be16 0 buf) (\<lambda>req_id.
         bindr (old_strip_key_value (oe_max_length e - 8) (drop 8 buf) msg_len) (\<lambda>key.
         case key of
           None \<Rightarrow> Inr (log_event (Free m) s)
         | Some key \<Rightarrow>
             bindr (rd 8 (unat msg_len) buf) (\<lambda>reply.
             bindr (check Out_of_bounds (unat msg_len < oe_max_length e)) (\<lambda>_.
             bindr (get_from_map (oe_proc e) key req_id (os_tables s)) (\<lambda>(client_data, T).
             case arrays T client_data of
               None \<Rightarrow> Inl Null_deref
             | Some a \<Rightarrow>
                 let s = s\<lparr>os_tables := T\<rparr>;
                     s = log_event (Refcnt m (sint (word_of_nat (da_used a) - 1 :: u16))) s
                 in bindr (check Out_of_bounds (da_used a \<le> length (da_array a))) (\<lambda>_.
                    old_forward e m udph (cstr reply) (take (da_used a) (da_array a)) s)))))))"

section \<open>Requests\<close>

text \<open>The block that sends a full group.\<close>

definition old_send_group :: "'e old_env_scheme \<Rightarrow> u64 \<Rightarrow> nat \<Rightarrow> old_state \<Rightarrow> old_state res" where
  "old_send_group e m udph s =
     bindr (old_construct_keys_packet (oe_max_length e) (old_ukeys s)) (\<lambda>payload.
     let s = log_event (Refcnt m 1) s
     in bindr (old_app_send e m udph payload (os_request_id s) (ip_str_to_int TARGET_IP) s) (\<lambda>s.
        Inr (s\<lparr>os_request_id := word_of_nat ((unat (os_request_id s) + 1) mod MAX_REQ_ID),
               os_ukey_len := 0\<rparr>)))"

definition old_client_key ::
  "'e old_env_scheme \<Rightarrow> u64 \<Rightarrow> nat \<Rightarrow> client_info \<Rightarrow> byte list \<Rightarrow> old_state \<Rightarrow> old_state res" where
  "old_client_key e m udph client_data key s =
     bindr (insert_client_info_to_map (oe_proc e) key (ucast (os_request_id s)) client_data (os_tables s)) (\<lambda>T.
     bindr (old_insert_ukey_group e key (s\<lparr>os_tables := T\<rparr>)) (\<lambda>s.
     if oe_group_size e \<le> os_ukey_len s then old_send_group e m udph s else Inr s))"

fun old_client_keys ::
  "'e old_env_scheme \<Rightarrow> u64 \<Rightarrow> nat \<Rightarrow> client_info \<Rightarrow> byte list list \<Rightarrow> old_state \<Rightarrow> old_state res" where
  "old_client_keys e m udph client_data [] s = Inr s"
| "old_client_keys e m udph client_data (k # ks) s =
     bindr (old_client_key e m udph client_data k s) (old_client_keys e m udph client_data ks)"

definition old_app_client_in ::
  "'e old_env_scheme \<Rightarrow> u64 \<Rightarrow> nat \<Rightarrow> u32 \<Rightarrow> old_state \<Rightarrow> old_state res" where
  "old_app_client_in e m udph client_address s =
     bindr (old_rcv_payload e m udph s) (\<lambda>(ap, s).
     case ap of
       None \<Rightarrow> Inr (log_event (Free m) s)
     | Some (buf, msg_len) \<Rightarrow>
         let s = s\<lparr>os_tables := initialize_map (oe_proc e) (os_tables s)\<rparr>
         in bindr (old_strip_keys (drop 8 buf) msg_len) (\<lambda>keys.
            bindr (rd_be16 0 buf) (\<lambda>req_id.
            bindr (get_data m (rd_be16 (udph + 2)) s) (\<lambda>dst_port.
            let client_data = \<lparr>ci_req_id = req_id, ci_src_ip = client_address, ci_src_port = dst_port\<rparr>
            in bindr (old_client_keys e m udph client_data keys s) (\<lambda>s.
               Inr (log_event (Free m) s))))))"

end
