(* ===== verification/Old_Behaviour.thy ===== *)
theory Old_Behaviour
  imports Old_Api
begin

text \<open>
  The properties of the earlier application layer: which frames its handlers send, and how they
  change the tables of clients and the group of keys. Packets have the plain 20-byte IP header,
  so the UDP header is at 34 and the payload at 42.
\<close>

section \<open>Packets\<close>

text \<open>A packet with room for \<open>n\<close> bytes of payload, and one that carries a payload.\<close>

definition room :: "old_state \<Rightarrow> u64 \<Rightarrow> nat \<Rightarrow> bool" where
  "room s m n \<longleftrightarrow> (\<exists>b q p. mbufs s m = Some b \<and> mb_data b = q @ p \<and> length q = 42 \<and> n \<le> length p)"

definition carries :: "old_state \<Rightarrow> u64 \<Rightarrow> byte list \<Rightarrow> nat \<Rightarrow> bool" where
  "carries s m body n \<longleftrightarrow>
     (\<exists>b q z. mbufs s m = Some b \<and> mb_data b = q @ body @ z \<and> length q = 42 \<and> n \<le> length body + length z \<and>
        rd_be16 38 q = Inr (word_of_nat (length body + 8))) \<and> 10 \<le> length body \<and> length body \<le> 1472"

lemma roomI: "mbufs s m = Some b \<Longrightarrow> mb_data b = q @ p \<Longrightarrow> length q = 42 \<Longrightarrow> n \<le> length p \<Longrightarrow> room s m n"
  by (auto simp: room_def)

lemma old_send_payload_ok:
  assumes "length msg + 10 \<le> max_length" "length msg \<le> 1462"
  shows "old_send_payload max_length msg rid = Inr (Some (server_body rid msg, word_of_nat (length msg + 10)))"
proof -
  have "unat (word_of_nat (length msg) :: u16) = length msg" using assms(2) by (simp add: unat_small_u16)
  moreover have "2 + 6 + word_of_nat (length msg) + 2 = (word_of_nat (length msg + 10) :: u16)" by simp
  ultimately show ?thesis using assms by (auto simp: old_send_payload_def Let_def server_body_def)
qed

text \<open>One message: the exact frame, and the same room is left for the next one.\<close>

lemma old_app_send_ok:
  assumes env: "unformat_ok e" "tx_live e" and mac: "arp_lookup_mac s dst = Some mac" "length mac = 6"
    and pkt: "room s m n"
    and msg: "length msg \<le> 1462" "length msg + 10 \<le> n" "length msg + 10 \<le> oe_max_length e"
  shows "\<exists>s'. old_app_send e m 34 msg rid dst s = Inr s' \<and> net_only s s' \<and> room s' m n \<and>
     calls (trace s') = calls (trace s) @ [Tx m (udp_frame e mac dst (server_body rid msg))]"
proof -
  let ?body = "server_body rid msg" and ?l = "length msg + 10"
  obtain b q p where b: "mbufs s m = Some b" "mb_data b = q @ p" "length q = 42" "n \<le> length p"
    using pkt by (auto simp: room_def)
  let ?p = "?body @ drop ?l p"
  obtain dl where dl: "rd_be16 38 q = Inr dl" using b(3) by (simp add: rd_be16_ok)
  obtain q1 where q1: "sge_fill m (mb_addr b) 34 (q @ p) = Inr (q1 @ p)" "length q1 = 42" "rd_le64 28 (q1 @ p) = Inr m"
    using sge_fill_ok [OF b(3) dl, of m "mb_addr b" p] by auto
  obtain q2 where q2: "wr 20 (to_le32 (word_of_nat ?l)) (q1 @ p) = Inr (q2 @ p)" "length q2 = 42"
    using wr_in_prefix [of 20 "to_le32 (word_of_nat ?l)" q1 p] q1 by auto
  have body: "wr 42 ?body (q2 @ p) = Inr (q2 @ ?p)" using q2(2) msg(2) b(4) by (simp add: wr_def add.commute)
  have reads: "rd_le64 28 (q2 @ ?p) = Inr m" "rd_le32 20 (q2 @ ?p) = Inr (word_of_nat ?l)"
    using le64.read_after_write_disjoint [OF body, of 28] le32.read_after_write_disjoint [OF body, of 20]
      le64.read_after_write_disjoint [OF q2(1), of 28] le32.read_after_write [OF q2(1)] q1(3)
    by simp_all
  have len: "ucast (word_of_nat ?l :: u16) = (word_of_nat ?l :: u32)" "unat (word_of_nat ?l :: u16) = ?l"
    using ucast_len [of ?l] unat_small_u16 [of ?l] msg(1) by simp_all
  let ?s3 = "set_mbuf m (b\<lparr>mb_data := q2 @ ?p\<rparr>) s"
  have "old_app_send e m 34 msg rid dst s = bindr (udp_send e m 12 dst ?s3) (\<lambda>(_, s). Inr s)"
    using b q1 q2 body msg
    by (simp add: old_app_send_def init_net_sge_def net_simps upd_data_def mbuf_at_def
        old_send_payload_ok len del: of_nat_add)
  also have "udp_send e m 12 dst ?s3 = Inr (0, udp_sent e m (b\<lparr>mb_data := q2 @ ?p\<rparr>) mac dst ?l ?p ?s3)"
    by (rule udp_send_prefix [OF env _ mac(2) _ _ q2(2) reads])
      (use mac msg in \<open>simp_all add: net_simps arp_lookup_mac_def\<close>)
  finally have send: "old_app_send e m 34 msg rid dst s = Inr (udp_sent e m b mac dst ?l ?p s)"
    by (simp add: udp_sent_set_mbuf)
  have take_body: "take ?l ?p = ?body" by simp
  have "calls (trace (udp_sent e m b mac dst ?l ?p s)) = calls (trace s) @ [Tx m (udp_frame e mac dst ?body)]"
    using udp_sent_calls [OF mac(2), of ?l ?p e m b dst s] msg(1) unfolding take_body by simp
  moreover have "room (udp_sent e m b mac dst ?l ?p s) m n"
  proof -
    have "length (udp_frame e mac dst ?body) = ?l + 42" using udp_frame_length [OF mac(2), of e dst ?body] by simp
    then obtain q3 p3 where "udp_frame e mac dst ?body = q3 @ p3" "length q3 = 42" "length p3 = ?l"
      using list_split_at [of 42 "udp_frame e mac dst ?body"] by (metis add_diff_cancel_right' diff_add_inverse le_add2 length_append)
    then show ?thesis
      using b(4) msg(2) udp_sent_fields(1) [of e m b mac dst ?l ?p s]
      by (intro roomI [of _ m "b\<lparr>mb_data := udp_frame e mac dst ?body @ drop ?l ?p, mb_pkt_len := word_of_nat (?l + 42),
        mb_data_len := word_of_nat (?l + 42)\<rparr>" q3 "p3 @ drop ?l ?p"]) (simp_all add: take_body)
  qed
  moreover have "net_only s (udp_sent e m b mac dst ?l ?p s)"
    unfolding net_only_def udp_sent_def sent_state_def set_mbuf_def by (rule exI, rule exI) simp
  ultimately show ?thesis using send by blast
qed

lemma room_same: "mbufs s' = mbufs s \<Longrightarrow> room s' m n = room s m n"
  by (simp add: room_def)

lemma net_only_fields:
  assumes "net_only s (s' :: old_state)"
  shows "os_tables s' = os_tables s" "os_ukey s' = os_ukey s" "os_ukey_len s' = os_ukey_len s"
    "os_request_id s' = os_request_id s" "known_haddrs s' = known_haddrs s" "old_ukeys s' = old_ukeys s"
  using assms by (auto simp: net_only_def old_ukeys_def)

lemma old_rcv_ok:
  assumes "carries s m body n" "length body \<le> oe_max_length e"
  shows "\<exists>M. old_rcv_payload e m 34 s = Inr (Some (body, word_of_nat (length body - 10)), s\<lparr>mbufs := M\<rparr>) \<and>
     room (s\<lparr>mbufs := M\<rparr>) m n"
proof -
  obtain b q z where b: "mbufs s m = Some b" "mb_data b = q @ body @ z" "length q = 42" "n \<le> length body + length z"
    "rd_be16 38 q = Inr (word_of_nat (length body + 8))" and len: "10 \<le> length body" "length body \<le> 1472"
    using assms(1) by (auto simp: carries_def)
  have dl: "ucast (word_of_nat (length body + 8) :: u16) - 8 = (word_of_nat (length body) :: u32)"
    using ucast_len [of "length body + 8"] len(2) by simp
  obtain q1 where q1: "sge_fill m (mb_addr b) 34 (q @ body @ z) = Inr (q1 @ body @ z)" "length q1 = 42"
      "rd_le32 20 (q1 @ body @ z) = Inr (word_of_nat (length body))"
    using sge_fill_ok [OF b(3,5), of m "mb_addr b" "body @ z"] unfolding dl by auto
  have u: "unat (word_of_nat (length body) :: u32) = length body"
    "ucast (word_of_nat (length body) :: u32) = (word_of_nat (length body) :: u16)"
    "unat (word_of_nat (length body) :: u16) = length body"
    using len(2) by (simp_all add: unat_of_nat take_bit_nat_eq_self word_unat_eq_iff unsigned_ucast_eq)
  have ml: "word_of_nat (length body) - 2 - 6 - 2 = (word_of_nat (length body - 10) :: u16)"
    using len(1) by (simp add: of_nat_diff)
  have read: "rd 42 (length body) (q1 @ body @ z) = Inr body" using q1(2) by (simp add: rd_def)
  let ?M = "(mbufs s)(m := Some (b\<lparr>mb_data := q1 @ body @ z\<rparr>))"
  have "old_rcv_payload e m 34 s = Inr (Some (body, word_of_nat (length body - 10)), s\<lparr>mbufs := ?M\<rparr>)"
    using b(1,2) q1 u ml read assms(2)
    by (simp add: old_rcv_payload_def init_net_sge_def upd_data_def mbuf_at_def get_data_def set_mbuf_def Let_def)
  moreover have "room (s\<lparr>mbufs := ?M\<rparr>) m n" by (rule roomI [of _ _ "b\<lparr>mb_data := q1 @ body @ z\<rparr>" q1 "body @ z"]) (use q1(2) b(4) in simp_all)
  ultimately show ?thesis by blast
qed

section \<open>Replies\<close>

definition old_reply :: "u16 \<Rightarrow> byte list \<Rightarrow> byte list \<Rightarrow> byte list" where
  "old_reply rid hdr text = to_be16 rid @ hdr @ text @ MEMCACHED_TAIL"

lemma old_reply_reads:
  assumes "length hdr = 6"
  shows "length (old_reply rid hdr text) = length text + 10" "rd_be16 0 (old_reply rid hdr text) = Inr rid"
    "drop 8 (old_reply rid hdr text) = text @ MEMCACHED_TAIL"
    "rd 8 (length text) (old_reply rid hdr text) = Inr text"
proof -
  show "length (old_reply rid hdr text) = length text + 10" using assms by (simp add: old_reply_def MEMCACHED_TAIL_def)
  show "rd_be16 0 (old_reply rid hdr text) = Inr rid"
    using be16.read_after_write [of 0 rid "[0, 0] @ hdr @ text @ MEMCACHED_TAIL" "old_reply rid hdr text"]
    by (simp add: old_reply_def wr_def)
  show "drop 8 (old_reply rid hdr text) = text @ MEMCACHED_TAIL"
    "rd 8 (length text) (old_reply rid hdr text) = Inr text"
    using assms by (simp_all add: old_reply_def rd_def)
qed

text \<open>A client whose address is known, and the hardware address it is known under.\<close>

definition reachable :: "old_state \<Rightarrow> u32 \<Rightarrow> bool" where
  "reachable s ip \<longleftrightarrow> (\<exists>mac. arp_lookup_mac s ip = Some mac \<and> length mac = 6)"

definition mac_of :: "old_state \<Rightarrow> u32 \<Rightarrow> byte list" where
  "mac_of s ip = the (arp_lookup_mac s ip)"

lemma reachable_same:
  "known_haddrs s' = known_haddrs s \<Longrightarrow> reachable s' ip = reachable s ip"
  "known_haddrs s' = known_haddrs s \<Longrightarrow> mac_of s' ip = mac_of s ip"
  by (simp_all add: reachable_def mac_of_def arp_lookup_mac_def)

definition client_frame :: "'e net_env_scheme \<Rightarrow> old_state \<Rightarrow> u64 \<Rightarrow> byte list \<Rightarrow> client_info \<Rightarrow> event" where
  "client_frame e s m text c = Tx m (udp_frame e (mac_of s (ci_src_ip c)) (ci_src_ip c) (server_body (ci_req_id c) text))"

lemma old_forward_ok:
  assumes "unformat_ok e" "tx_live e" "list_all (\<lambda>c. reachable s (ci_src_ip c)) cs"
    and "room s m n" "length text \<le> 1462" "length text + 10 \<le> n" "length text + 10 \<le> oe_max_length e"
  shows "\<exists>s'. old_forward e m 34 text (map Some cs) s = Inr s' \<and> net_only s s' \<and>
     calls (trace s') = calls (trace s) @ map (client_frame e s m text) cs"
  using assms
proof (induction cs arbitrary: s)
  case (Cons c cs)
  obtain mac where mac: "arp_lookup_mac s (ci_src_ip c) = Some mac" "length mac = 6"
    using Cons.prems(3) by (auto simp: reachable_def)
  from old_app_send_ok [OF Cons.prems(1,2) mac Cons.prems(4-7), of "ci_req_id c"] obtain s1 where
    s1: "old_app_send e m 34 text (ci_req_id c) (ci_src_ip c) s = Inr s1" "net_only s s1" "room s1 m n"
    "calls (trace s1) = calls (trace s) @ [client_frame e s m text c]"
    by (auto simp: client_frame_def mac_of_def mac(1))
  have k: "known_haddrs s1 = known_haddrs s" by (rule net_only_fields [OF s1(2)])
  have "list_all (\<lambda>c. reachable s1 (ci_src_ip c)) cs" using Cons.prems(3) by (simp add: reachable_same [OF k])
  from Cons.IH [OF Cons.prems(1,2) this s1(3) Cons.prems(5-7)] obtain s2 where
    "old_forward e m 34 text (map Some cs) s1 = Inr s2" "net_only s1 s2"
    "calls (trace s2) = calls (trace s1) @ map (client_frame e s1 m text) cs" by blast
  moreover have "client_frame e s1 m text = client_frame e s m text"
    by (simp add: fun_eq_iff client_frame_def reachable_same [OF k])
  ultimately show ?case using s1 net_only_trans [OF s1(2)] by auto
qed simp

lemma old_strip_value:
  assumes "text = str ''VALUE '' @ key @ 32 # r" "0 \<notin> set text" "32 \<notin> set key" "key \<noteq> []"
    and "length key < MAX_KEY_LENGTH" "length text \<le> 1462"
  shows "old_strip_key_value cap (text @ z) (word_of_nat (length text)) = Inr (Some key)"
proof -
  have "cstr (text @ z) = text @ cstr z" by (rule cstr_append) (rule assms(2))
  moreover have "occurs (str ''VALUE'') (text @ cstr z)"
    using occurs_append [of "str ''VALUE''" "[]" "[32] @ key @ 32 # r @ cstr z"] by (simp add: assms(1))
  ultimately have found: "strstr_buf cap (text @ z) (str ''VALUE'') = Inr True" by (simp add: strstr_buf_def)
  have d: "drop 6 (text @ z) = key @ 32 # r @ z" by (simp add: assms(1))
  have u: "unat (word_of_nat (length text) :: u16) = length text" using assms(6) by (simp add: unat_small_u16)
  have "key_loop (key @ 32 # r @ z) (length text - 6) [] = Inr ([] @ key)"
    by (rule key_loop_word) (use assms in simp_all)
  with found d u assms(2,4) show ?thesis by (simp add: old_strip_key_value_def assms(1) cstr_no_nul)
qed

text \<open>The handler up to the table of clients.\<close>

lemma old_server_key:
  assumes "carries s m (old_reply rid hdr text) n" "length hdr = 6" "length text + 10 \<le> oe_max_length e"
    and "text = str ''VALUE '' @ key @ 32 # r" "0 \<notin> set text" "32 \<notin> set key" "key \<noteq> []"
    and "length key < MAX_KEY_LENGTH"
  shows "\<exists>M. room (s\<lparr>mbufs := M\<rparr>) m n \<and> old_app_server_in e m 34 s =
    bindr (get_from_map (oe_proc e) key rid (os_tables s)) (\<lambda>(client_data, T).
    case arrays T client_data of None \<Rightarrow> Inl Null_deref
    | Some a \<Rightarrow>
        bindr (check Out_of_bounds (da_used a \<le> length (da_array a))) (\<lambda>_.
        old_forward e m 34 text (take (da_used a) (da_array a))
          (log_event (Refcnt m (sint (word_of_nat (da_used a) - 1 :: u16))) (s\<lparr>mbufs := M, os_tables := T\<rparr>))))"
proof -
  note reads = old_reply_reads [OF assms(2)]
  have len: "length text \<le> 1462" using assms(1) by (simp add: carries_def reads)
  from old_rcv_ok [OF assms(1), of e] assms(3) obtain M where
    M: "old_rcv_payload e m 34 s = Inr (Some (old_reply rid hdr text, word_of_nat (length text)), s\<lparr>mbufs := M\<rparr>)"
    "room (s\<lparr>mbufs := M\<rparr>) m n" by (auto simp: reads)
  have u: "unat (word_of_nat (length text) :: u16) = length text" using len by (simp add: unat_small_u16)
  have "old_app_server_in e m 34 s =
    bindr (get_from_map (oe_proc e) key rid (os_tables s)) (\<lambda>(client_data, T).
    case arrays T client_data of None \<Rightarrow> Inl Null_deref
    | Some a \<Rightarrow>
        bindr (check Out_of_bounds (da_used a \<le> length (da_array a))) (\<lambda>_.
        old_forward e m 34 text (take (da_used a) (da_array a))
          (log_event (Refcnt m (sint (word_of_nat (da_used a) - 1 :: u16))) (s\<lparr>mbufs := M, os_tables := T\<rparr>))))"
    using M(1) assms(3) old_strip_value [OF assms(4-8) len] u
    by (simp add: old_app_server_in_def reads cstr_no_nul [OF assms(5)] Let_def cong: option.case_cong)
  with M(2) show ?thesis by blast
qed

definition key_hash :: "'e old_env_scheme \<Rightarrow> u16 \<Rightarrow> byte list \<Rightarrow> old_state \<Rightarrow> u32" where
  "key_hash e rid key s = buffer_hash (oe_proc e) (req_key (unat rid) key) (normalized_key (os_tables s))"

text \<open>The clients a reply is sent to: those registered under the hash of its id and key.\<close>

definition waiting_clients :: "'e old_env_scheme \<Rightarrow> u16 \<Rightarrow> byte list \<Rightarrow> old_state \<Rightarrow> client_info list" where
  "waiting_clients e rid key s = clients_at (oe_proc e) (os_tables s) (key_hash e rid key s)"

definition value_reply :: "'e old_env_scheme \<Rightarrow> old_state \<Rightarrow> u64 \<Rightarrow> u16 \<Rightarrow> byte list \<Rightarrow> byte list \<Rightarrow> bool" where
  "value_reply e s m rid key text \<longleftrightarrow>
     (\<exists>hdr r. length hdr = 6 \<and> carries s m (old_reply rid hdr text) (length text + 10) \<and>
        text = str ''VALUE '' @ key @ 32 # r) \<and>
     0 \<notin> set text \<and> 32 \<notin> set key \<and> key \<noteq> [] \<and> length key < MAX_KEY_LENGTH \<and>
     length text + 10 \<le> oe_max_length e \<and> length (req_key (unat rid) key) < pe_max_key (oe_proc e)"

lemma int16_count: "n \<le> 2 ^ 15 \<Longrightarrow> sint (word_of_nat n - 1 :: u16) = int n - 1"
proof -
  assume n: "n \<le> 2 ^ 15"
  have "sint (word_of_nat n - 1 :: u16) = sint (word_of_int (int n - 1) :: u16)" by simp
  also have "\<dots> = int n - 1" using n unfolding signed_of_int by (simp add: signed_take_bit_int_eq_self)
  finally show ?thesis .
qed

lemma value_reply_len: "value_reply e s m rid key text \<Longrightarrow> length text \<le> 1462"
  by (auto simp: value_reply_def carries_def old_reply_reads)

lemma old_server_forwards:
  assumes "unformat_ok e" "tx_live e" "proc_inv (oe_proc e) (os_tables s)"
    and "value_reply e s m rid key text" "waiting_clients e rid key s = cs" "cs \<noteq> []" "length cs \<le> 2 ^ 15"
    and "list_all (\<lambda>c. reachable s (ci_src_ip c)) cs"
  shows "\<exists>s'. old_app_server_in e m 34 s = Inr s' \<and>
    calls (trace s') = calls (trace s) @ Refcnt m (int (length cs) - 1) # map (client_frame e s m text) cs \<and>
    proc_inv (oe_proc e) (os_tables s') \<and> waiting_clients e rid key s' = cs"
proof -
  let ?P = "oe_proc e" and ?T = "os_tables s" and ?t = "req_key (unat rid) key"
  obtain hdr r where msg: "length hdr = 6" "carries s m (old_reply rid hdr text) (length text + 10)"
    "text = str ''VALUE '' @ key @ 32 # r" and k: "0 \<notin> set text" "32 \<notin> set key" "key \<noteq> []"
    "length key < MAX_KEY_LENGTH" "length text + 10 \<le> oe_max_length e" "length ?t < pe_max_key ?P"
    using assms(4) by (auto simp: value_reply_def)
  obtain M where M: "room (s\<lparr>mbufs := M\<rparr>) m (length text + 10)" and run: "old_app_server_in e m 34 s =
    bindr (get_from_map ?P key rid ?T) (\<lambda>(client_data, T).
    case arrays T client_data of None \<Rightarrow> Inl Null_deref
    | Some a \<Rightarrow>
        bindr (check Out_of_bounds (da_used a \<le> length (da_array a))) (\<lambda>_.
        old_forward e m 34 text (take (da_used a) (da_array a))
          (log_event (Refcnt m (sint (word_of_nat (da_used a) - 1 :: u16))) (s\<lparr>mbufs := M, os_tables := T\<rparr>))))"
    using old_server_key [OF msg(2,1) k(5) msg(3) k(1-4)] by blast
  from assms(5,6) obtain p a where p: "map_of (info_entries ?P ?T) (key_hash e rid key s) = Some p"
    "arrays ?T p = Some a" "da_list a = cs"
    by (auto simp: waiting_clients_def clients_at_def split: option.splits)
  have "da_inv a" using assms(3) p by (auto simp: proc_inv_def elim: tables_okD)
  then have a: "take (da_used a) (da_array a) = map Some cs" "da_used a = length cs" "da_used a \<le> length (da_array a)"
    using da_cells [of a] da_list_length [of a] p(3) by (simp_all add: da_inv_def)
  let ?s = "log_event (Refcnt m (int (length cs) - 1)) (s\<lparr>mbufs := M, os_tables := with_key ?t ?T\<rparr>)"
  have "old_app_server_in e m 34 s = old_forward e m 34 text (map Some cs) ?s"
    using get_from_map_spec [OF assms(3) refl k(6)] p(1,2) a int16_count [OF assms(7)]
    by (simp add: run key_hash_def)
  moreover have "list_all (\<lambda>c. reachable ?s (ci_src_ip c)) cs" "room ?s m (length text + 10)"
    using assms(8) M by (simp_all add: reachable_def arp_lookup_mac_def room_def log_event_def)
  ultimately obtain s' where s': "old_app_server_in e m 34 s = Inr s'" "net_only ?s s'"
    "calls (trace s') = calls (trace ?s) @ map (client_frame e ?s m text) cs"
    using old_forward_ok [OF assms(1,2), of ?s cs m "length text + 10" "text"] value_reply_len [OF assms(4)] k(5) by auto
  have "client_frame e ?s m text = client_frame e s m text"
    by (simp add: fun_eq_iff client_frame_def mac_of_def arp_lookup_mac_def log_event_def)
  moreover have T: "os_tables s' = with_key ?t ?T" using net_only_fields(1) [OF s'(2)] by (simp add: log_event_def)
  moreover have "waiting_clients e rid key s' = cs"
    using assms(3,5) k(6) by (simp add: waiting_clients_def key_hash_def T buffer_hash_again proc_inv_def)
  ultimately show ?thesis
    using s'(1,3) proc_inv_with_key [OF assms(3) k(6)] by (simp add: log_event_def)
qed


text \<open>A reply that no client is registered for ends in a NULL dereference.\<close>

theorem old_app_server_in_unknown_crashes:
  assumes "proc_inv (oe_proc e) (os_tables s)" "value_reply e s m rid key text" "waiting_clients e rid key s = []"
  shows "old_app_server_in e m 34 s = Inl Null_deref"
proof -
  let ?t = "req_key (unat rid) key"
  obtain hdr r where msg: "length hdr = 6" "carries s m (old_reply rid hdr text) (length text + 10)"
    "text = str ''VALUE '' @ key @ 32 # r" and k: "0 \<notin> set text" "32 \<notin> set key" "key \<noteq> []"
    "length key < MAX_KEY_LENGTH" "length text + 10 \<le> oe_max_length e" "length ?t < pe_max_key (oe_proc e)"
    using assms(2) by (auto simp: value_reply_def)
  have "get_from_map (oe_proc e) key rid (os_tables s) = Inr (0, with_key ?t (os_tables s))"
    using get_from_map_spec [OF assms(1) refl k(6)] clients_at_empty [OF assms(1)] assms(3)
    by (simp add: waiting_clients_def key_hash_def)
  moreover have "arrays (os_tables s) 0 = None" using assms(1) by (simp add: proc_inv_def tables_ok_def)
  ultimately show ?thesis using old_server_key [OF msg(2,1) k(5) msg(3) k(1-4)] by auto
qed

text \<open>A reply without a value, such as \<open>END\<close>, sends the search for \<open>VALUE\<close> past what was
  copied, into bytes never written.\<close>

theorem old_reply_without_value:
  assumes "length hdr = 6" "carries s m (old_reply rid hdr text) n" "length text + 10 < oe_max_length e"
    and "0 \<notin> set text" "\<not> occurs (str ''VALUE'') (text @ MEMCACHED_TAIL)"
  shows "old_app_server_in e m 34 s = Inl Uninit_read"
proof -
  note reads = old_reply_reads [OF assms(1)]
  have tail: "0 \<notin> set (text @ MEMCACHED_TAIL)" using assms(4) by (simp add: MEMCACHED_TAIL_def)
  have "length (text @ MEMCACHED_TAIL) < oe_max_length e - 8" using assms(3) by (simp add: MEMCACHED_TAIL_def)
  then have "strstr_buf (oe_max_length e - 8) (text @ MEMCACHED_TAIL) (str ''VALUE'') = Inl Uninit_read"
    using assms(5) tail by (simp add: strstr_buf_def cstr_no_nul)
  moreover obtain M where "old_rcv_payload e m 34 s =
      Inr (Some (old_reply rid hdr text, word_of_nat (length text)), s\<lparr>mbufs := M\<rparr>)"
    using old_rcv_ok [OF assms(2), of e] assms(3) by (auto simp: reads)
  ultimately show ?thesis by (simp add: old_app_server_in_def reads old_strip_key_value_def)
qed

section \<open>Requests\<close>

lemma old_construct_loop_eq:
  "length payload < cap \<Longrightarrow> old_construct_loop cap ks payload =
     (if length payload + length (spaced ks) < cap then Inr (payload @ spaced ks) else Inl Out_of_bounds)"
  by (induction ks arbitrary: payload) (auto simp: strcat_def)

lemma old_construct_fits:
  "4 + length (spaced ks) < cap \<Longrightarrow> old_construct_keys_packet cap ks = Inr (str ''gets'' @ spaced ks)"
  by (simp add: old_construct_keys_packet_def strcat_def old_construct_loop_eq)

text \<open>The group holds different keys that fit one request, with a place left.\<close>

definition old_group_ok :: "'e old_env_scheme \<Rightarrow> old_state \<Rightarrow> bool" where
  "old_group_ok e s \<longleftrightarrow> os_ukey_len s < oe_group_size e \<and> distinct (old_ukeys s) \<and>
     unat (os_request_id s) < MAX_REQ_ID"

definition request_fits :: "'e old_env_scheme \<Rightarrow> nat \<Rightarrow> byte list list \<Rightarrow> bool" where
  "request_fits e n ks \<longleftrightarrow>
     length (spaced ks) \<le> 1458 \<and> length (spaced ks) + 14 \<le> n \<and> length (spaced ks) + 14 \<le> oe_max_length e"

lemma old_send_group_ok:
  assumes env: "unformat_ok e" "tx_live e" and mac: "reachable s (ip_str_to_int TARGET_IP)"
    and "room s m n" "request_fits e n (old_ukeys s)"
  shows "\<exists>s'. old_send_group e m 34 s = Inr s' \<and> os_tables s' = os_tables s \<and> known_haddrs s' = known_haddrs s \<and>
     old_ukeys s' = [] \<and> os_ukey_len s' = 0 \<and> room s' m n \<and>
     os_request_id s' = word_of_nat ((unat (os_request_id s) + 1) mod MAX_REQ_ID) \<and>
     calls (trace s') = calls (trace s) @ [Refcnt m 1, Tx m (udp_frame e (mac_of s (ip_str_to_int TARGET_IP))
       (ip_str_to_int TARGET_IP) (server_body (os_request_id s) (str ''gets'' @ spaced (old_ukeys s))))]"
proof -
  let ?dst = "ip_str_to_int TARGET_IP" and ?msg = "str ''gets'' @ spaced (old_ukeys s)" and ?s = "log_event (Refcnt m 1) s"
  have fits: "length ?msg \<le> 1462" "length ?msg + 10 \<le> n" "length ?msg + 10 \<le> oe_max_length e"
    using assms(5) by (simp_all add: request_fits_def)
  obtain mac where mac: "arp_lookup_mac ?s ?dst = Some mac" "length mac = 6" "mac_of s ?dst = mac"
    using mac by (auto simp: reachable_def mac_of_def arp_lookup_mac_def log_event_def)
  have "room ?s m n" using assms(4) by (simp add: room_def log_event_def)
  from old_app_send_ok [OF env mac(1,2) this fits, of "os_request_id s"] obtain s1 where
    s1: "old_app_send e m 34 ?msg (os_request_id s) ?dst ?s = Inr s1" "net_only ?s s1" "room s1 m n"
    "calls (trace s1) = calls (trace ?s) @ [Tx m (udp_frame e mac ?dst (server_body (os_request_id s) ?msg))]" by blast
  have "old_construct_keys_packet (oe_max_length e) (old_ukeys s) = Inr ?msg"
    using assms(5) by (intro old_construct_fits) (simp add: request_fits_def)
  moreover have "os_request_id ?s = os_request_id s" "os_tables ?s = os_tables s" "known_haddrs ?s = known_haddrs s"
    by (simp_all add: log_event_def)
  ultimately show ?thesis
    using s1 mac(3) net_only_fields [OF s1(2)]
    by (simp add: old_send_group_def Let_def log_event_def old_ukeys_def room_def)
qed

lemma old_insert_new:
  assumes "key \<notin> set (old_ukeys s)" "os_ukey_len s < oe_group_size e" "length key < MAX_KEY_LENGTH"
  shows "\<exists>s'. old_insert_ukey_group e key s = Inr s' \<and> old_ukeys s' = old_ukeys s @ [key] \<and>
     os_ukey_len s' = os_ukey_len s + 1 \<and> mbufs s' = mbufs s \<and> trace s' = trace s \<and>
     known_haddrs s' = known_haddrs s \<and> os_tables s' = os_tables s \<and> os_request_id s' = os_request_id s"
  using assms by (simp add: old_insert_ukey_group_def list_ex_iff) (simp add: old_ukeys_def)

lemma old_client_key_ok:
  assumes "unformat_ok e" "tx_live e" "reachable s (ip_str_to_int TARGET_IP)" "room s m n"
    and "proc_inv (oe_proc e) (os_tables s)" "mem_ok (oe_proc e) (os_tables s)" "old_group_ok e s"
    and "key \<notin> set (old_ukeys s)" "length key < MAX_KEY_LENGTH" "request_fits e n (old_ukeys s @ [key])"
    and "length (req_key (unat (os_request_id s)) key) < pe_max_key (oe_proc e)"
  shows "\<exists>s'. old_client_key e m 34 c key s = Inr s' \<and> old_group_ok e s' \<and> known_haddrs s' = known_haddrs s \<and> proc_inv (oe_proc e) (os_tables s') \<and>
     waiting_clients e (os_request_id s) key s' = waiting_clients e (os_request_id s) key s @ [c] \<and>
     (if os_ukey_len s + 1 < oe_group_size e
      then old_ukeys s' = old_ukeys s @ [key] \<and> os_request_id s' = os_request_id s \<and> trace s' = trace s
      else old_ukeys s' = [] \<and> os_request_id s' = word_of_nat ((unat (os_request_id s) + 1) mod MAX_REQ_ID) \<and>
        calls (trace s') = calls (trace s) @ [Refcnt m 1,
          Tx m (udp_frame e (mac_of s (ip_str_to_int TARGET_IP)) (ip_str_to_int TARGET_IP)
            (server_body (os_request_id s) (str ''gets'' @ spaced (old_ukeys s @ [key]))))])"
proof -
  let ?P = "oe_proc e" and ?rid = "os_request_id s"
  let ?t = "req_key (unat ?rid) key" and ?T = "os_tables s" and ?h = "key_hash e ?rid key s"
  from insert_spec [OF assms(5) refl _ assms(6) refl, of "ucast ?rid" key c] assms(11) obtain T where
    T: "insert_client_info_to_map ?P key (ucast ?rid) c ?T = Inr T" "proc_inv ?P T"
    "normalized_key T = nk_after ?t (normalized_key ?T)"
    "clients_at ?P T = (clients_at ?P ?T)(?h := clients_at ?P ?T ?h @ [c])"
    by (auto simp: unat_ucast_16_32 key_hash_def)
  have len: "length ?t < length (normalized_key ?T)" using assms(5,11) by (simp add: proc_inv_def)
  have reg: "waiting_clients e ?rid key s' = waiting_clients e ?rid key s @ [c]" if "os_tables s' = T" for s'
    unfolding waiting_clients_def key_hash_def that T(3) buffer_hash_again [OF len]
    using T(4) by (simp add: key_hash_def)
  let ?s1 = "s\<lparr>os_tables := T\<rparr>"
  have "old_ukeys ?s1 = old_ukeys s" by (simp add: old_ukeys_def)
  with old_insert_new [of key ?s1 e] assms(7-9) obtain s2 where
    s2: "old_insert_ukey_group e key ?s1 = Inr s2" "old_ukeys s2 = old_ukeys s @ [key]" "os_ukey_len s2 = os_ukey_len s + 1"
    "mbufs s2 = mbufs s" "trace s2 = trace s" "known_haddrs s2 = known_haddrs s" "os_tables s2 = T" "os_request_id s2 = ?rid"
    by (auto simp: old_group_ok_def)
  have step: "old_client_key e m 34 c key s =
      (if oe_group_size e \<le> os_ukey_len s + 1 then old_send_group e m 34 s2 else Inr s2)"
    using T(1) s2(1,3) by (simp add: old_client_key_def)
  show ?thesis
  proof (cases "os_ukey_len s + 1 < oe_group_size e")
    case True
    then have "old_group_ok e s2" using s2 assms(7,8) by (simp add: old_group_ok_def)
    with True step s2 T(2) reg [of s2] show ?thesis by (intro exI [of _ s2]) simp
  next
    case False
    have "reachable s2 (ip_str_to_int TARGET_IP)" "room s2 m n" "request_fits e n (old_ukeys s2)"
      unfolding reachable_same(1) [OF s2(6)] room_same [OF s2(4)] s2(2) by (rule assms(3,4,10))+
    from old_send_group_ok [OF assms(1,2) this] obtain s3 where
      s3: "old_send_group e m 34 s2 = Inr s3" "os_tables s3 = os_tables s2" "old_ukeys s3 = []" "os_ukey_len s3 = 0" "known_haddrs s3 = known_haddrs s2"
      "os_request_id s3 = word_of_nat ((unat (os_request_id s2) + 1) mod MAX_REQ_ID)"
      "calls (trace s3) = calls (trace s2) @ [Refcnt m 1, Tx m (udp_frame e (mac_of s2 (ip_str_to_int TARGET_IP))
         (ip_str_to_int TARGET_IP) (server_body (os_request_id s2) (str ''gets'' @ spaced (old_ukeys s2))))]"
      by blast
    have "unat (word_of_nat ((unat ?rid + 1) mod MAX_REQ_ID) :: u16) < MAX_REQ_ID"
      by (simp add: unat_of_nat MAX_REQ_ID_def take_bit_nat_eq_self)
    then have "old_group_ok e s3" using s3 s2(8) assms(7) by (simp add: old_group_ok_def)
    moreover have "calls (trace s3) = calls (trace s) @ [Refcnt m 1, Tx m (udp_frame e (mac_of s (ip_str_to_int TARGET_IP))
         (ip_str_to_int TARGET_IP) (server_body ?rid (str ''gets'' @ spaced (old_ukeys s @ [key]))))]"
      unfolding s3(7) s2(2,5,8) reachable_same(2) [OF s2(6)] ..
    moreover have "old_client_key e m 34 c key s = Inr s3" using step s3(1) False by simp
    moreover have "os_tables s3 = T" "os_request_id s3 = word_of_nat ((unat ?rid + 1) mod MAX_REQ_ID)"
      unfolding s3(2,6) s2(7,8) by (rule refl)+
    ultimately show ?thesis using False s3(3,5) s2(6) T(2) reg [of s3] by (intro exI [of _ s3]) simp
  qed
qed

text \<open>A key new to the group: its client is registered under the current id, and the key
  waits; the key that fills the group is sent with all that waited, in order, as one request,
  and the next group starts under the next id.\<close>

theorem old_client_key_collects:
  assumes "unformat_ok e" "tx_live e" "reachable s (ip_str_to_int TARGET_IP)" "room s m n"
    and "proc_inv (oe_proc e) (os_tables s)" "mem_ok (oe_proc e) (os_tables s)" "old_group_ok e s"
    and "key \<notin> set (old_ukeys s)" "length key < MAX_KEY_LENGTH" "request_fits e n (old_ukeys s @ [key])"
    and "length (req_key (unat (os_request_id s)) key) < pe_max_key (oe_proc e)"
  shows "\<exists>s'. old_client_key e m 34 c key s = Inr s' \<and> old_group_ok e s' \<and> proc_inv (oe_proc e) (os_tables s') \<and>
     waiting_clients e (os_request_id s) key s' = waiting_clients e (os_request_id s) key s @ [c] \<and>
     (if os_ukey_len s + 1 < oe_group_size e
      then old_ukeys s' = old_ukeys s @ [key] \<and> os_request_id s' = os_request_id s \<and> trace s' = trace s
      else old_ukeys s' = [] \<and> os_request_id s' = word_of_nat ((unat (os_request_id s) + 1) mod MAX_REQ_ID) \<and>
        calls (trace s') = calls (trace s) @ [Refcnt m 1,
          Tx m (udp_frame e (mac_of s (ip_str_to_int TARGET_IP)) (ip_str_to_int TARGET_IP)
            (server_body (os_request_id s) (str ''gets'' @ spaced (old_ukeys s @ [key]))))])"
  using old_client_key_ok [OF assms] by blast

section \<open>A request and its reply\<close>

lemma old_client_keys_single: "old_client_keys e m udph c [k] s = old_client_key e m udph c k s"
  by (simp add: bindr_def split: sum.split)

text \<open>The words of a request, as a client writes them.\<close>

definition key_words :: "byte list list \<Rightarrow> bool" where
  "key_words ks \<longleftrightarrow> ks \<noteq> [] \<and> length ks \<le> MAX_KEY_PER_PACKET \<and>
     list_all (\<lambda>k. 0 \<notin> set k \<and> 32 \<notin> set k \<and> k \<noteq> [] \<and> length k < MAX_KEY_LENGTH) ks"

definition old_request :: "old_state \<Rightarrow> u64 \<Rightarrow> u16 \<Rightarrow> byte list list \<Rightarrow> nat \<Rightarrow> bool" where
  "old_request s m crid ks n \<longleftrightarrow> key_words ks \<and>
     (\<exists>hdr. length hdr = 6 \<and> carries s m (old_reply crid hdr (str ''gets'' @ spaced ks)) n)"

lemma strip_key_words:
  assumes "key_words ks" "unat n = length (str ''gets'' @ spaced ks)"
  shows "strip_keys ((str ''gets'' @ spaced ks) @ r) n = Inr ks"
proof -
  obtain t ts where ks: "ks = t # ts" using assms(1) by (cases ks) (auto simp: key_words_def)
  have "strip_keys (str ''gets'' @ spaced (t # ts) @ r) n = Inr (fill_keys [] (t # ts))"
    by (rule strip_keys_words) (use assms in \<open>auto simp: key_words_def ks list_all_iff\<close>)
  moreover have "fill_keys [] (t # ts) = t # ts"
    by (rule fill_keys_words) (use assms(1) in \<open>auto simp: key_words_def ks list_all_iff\<close>)
  ultimately show ?thesis by (simp only: ks append_assoc)
qed

lemma old_app_client_in_keys:
  assumes "old_request s m crid ks n" "length (spaced ks) + 14 \<le> oe_max_length e"
  shows "\<exists>M port. room (s\<lparr>mbufs := M\<rparr>) m n \<and> old_app_client_in e m 34 a s =
    bindr (old_client_keys e m 34 \<lparr>ci_req_id = crid, ci_src_ip = a, ci_src_port = port\<rparr> ks
      (s\<lparr>mbufs := M, os_tables := initialize_map (oe_proc e) (os_tables s)\<rparr>)) (\<lambda>s. Inr (log_event (Free m) s))"
proof -
  define msg where "msg = str ''gets'' @ spaced ks"
  let ?T = "initialize_map (oe_proc e) (os_tables s)"
  obtain hdr where hdr: "length hdr = 6" "carries s m (old_reply crid hdr msg) n" and k: "key_words ks"
    using assms(1) by (auto simp: old_request_def msg_def)
  note reads = old_reply_reads [OF hdr(1)]
  have len: "length msg \<le> 1462" "length msg = length (spaced ks) + 4" using hdr(2) by (simp_all add: carries_def reads msg_def)
  have "length (old_reply crid hdr msg) \<le> oe_max_length e" using assms(2) len(2) by (simp add: reads)
  from old_rcv_ok [OF hdr(2) this] obtain M where
    M: "old_rcv_payload e m 34 s = Inr (Some (old_reply crid hdr msg, word_of_nat (length msg)), s\<lparr>mbufs := M\<rparr>)"
    "room (s\<lparr>mbufs := M\<rparr>) m n" by (auto simp: reads)
  have "unat (word_of_nat (length msg) :: u16) = length msg" using len(1) by (simp add: unat_small_u16)
  then have keys: "strip_keys (msg @ MEMCACHED_TAIL) (word_of_nat (length msg)) = Inr ks"
    using strip_key_words [OF k] by (simp add: msg_def)
  obtain b q p where b: "M m = Some b" "mb_data b = q @ p" "length q = 42" using M(2) by (auto simp: room_def)
  obtain port where port: "rd_be16 36 (mb_data b) = Inr port"
    using rd_be16_ok [of 36 q] b(2,3) by (auto simp: rd_be16_def rd_append_left)
  have "old_app_client_in e m 34 a s =
    bindr (old_client_keys e m 34 \<lparr>ci_req_id = crid, ci_src_ip = a, ci_src_port = port\<rparr> ks
      (s\<lparr>mbufs := M, os_tables := ?T\<rparr>)) (\<lambda>s. Inr (log_event (Free m) s))"
    unfolding old_app_client_in_def M(1) using keys b(1) port
    by (simp add: reads Let_def get_data_def mbuf_at_def bindr_def cong: sum.case_cong split: sum.split)
  with M(2) show ?thesis by blast
qed

text \<open>The device and the allocator do their part, memcached is known, the group is in order.\<close>

definition old_ready :: "'e old_env_scheme \<Rightarrow> old_state \<Rightarrow> bool" where
  "old_ready e s \<longleftrightarrow> unformat_ok e \<and> tx_live e \<and> reachable s (ip_str_to_int TARGET_IP) \<and> old_group_ok e s \<and>
     (let T = initialize_map (oe_proc e) (os_tables s) in proc_inv (oe_proc e) T \<and> mem_ok (oe_proc e) T)"

definition old_request_frame :: "'e old_env_scheme \<Rightarrow> old_state \<Rightarrow> u64 \<Rightarrow> byte list list \<Rightarrow> event" where
  "old_request_frame e s m ks = Tx m (udp_frame e (mac_of s (ip_str_to_int TARGET_IP)) (ip_str_to_int TARGET_IP)
     (server_body (os_request_id s) (str ''gets'' @ spaced ks)))"

lemma old_request_sent:
  assumes "old_ready e s" "old_request s m crid [key] (length key + 15)" "key \<notin> set (old_ukeys s)"
    and "os_ukey_len s + 1 = oe_group_size e" "request_fits e (length key + 15) (old_ukeys s @ [key])"
    and "length (req_key (unat (os_request_id s)) key) < pe_max_key (oe_proc e)"
    and T: "T = initialize_map (oe_proc e) (os_tables s)"
  shows "\<exists>s' port. old_app_client_in e m 34 a s = Inr s' \<and> known_haddrs s' = known_haddrs s \<and>
     proc_inv (oe_proc e) (os_tables s') \<and> old_ukeys s' = [] \<and>
     waiting_clients e (os_request_id s) key s' =
       waiting_clients e (os_request_id s) key (s\<lparr>os_tables := T\<rparr>) @ [\<lparr>ci_req_id = crid, ci_src_ip = a, ci_src_port = port\<rparr>] \<and>
     calls (trace s') = calls (trace s) @ [Refcnt m 1, old_request_frame e s m (old_ukeys s @ [key]), Free m]"
proof -
  let ?dst = "ip_str_to_int TARGET_IP"
  have ready: "unformat_ok e" "tx_live e" "reachable s ?dst" "old_group_ok e s"
    "proc_inv (oe_proc e) T" "mem_ok (oe_proc e) T"
    using assms(1) by (simp_all add: old_ready_def Let_def T)
  have "length (spaced [key]) + 14 \<le> oe_max_length e" using assms(5) by (simp add: request_fits_def length_spaced)
  from old_app_client_in_keys [OF assms(2) this, of a] obtain M port where
    M: "room (s\<lparr>mbufs := M\<rparr>) m (length key + 15)" and run: "old_app_client_in e m 34 a s =
      bindr (old_client_key e m 34 \<lparr>ci_req_id = crid, ci_src_ip = a, ci_src_port = port\<rparr> key
        (s\<lparr>mbufs := M, os_tables := T\<rparr>)) (\<lambda>s. Inr (log_event (Free m) s))"
    unfolding T old_client_keys_single by blast
  let ?s = "s\<lparr>mbufs := M, os_tables := T\<rparr>" and ?c = "\<lparr>ci_req_id = crid, ci_src_ip = a, ci_src_port = port\<rparr>"
  have same: "old_ukeys ?s = old_ukeys s" "mac_of ?s ?dst = mac_of s ?dst" "os_request_id ?s = os_request_id s"
    by (simp_all add: old_ukeys_def mac_of_def arp_lookup_mac_def)
  have "reachable ?s ?dst" "room ?s m (length key + 15)" "proc_inv (oe_proc e) (os_tables ?s)"
    "mem_ok (oe_proc e) (os_tables ?s)" "old_group_ok e ?s"
    using ready M by (simp_all add: reachable_def arp_lookup_mac_def room_def old_group_ok_def old_ukeys_def)
  moreover have "length key < MAX_KEY_LENGTH" using assms(2) by (simp add: old_request_def key_words_def)
  ultimately obtain s1 where s1: "old_client_key e m 34 ?c key ?s = Inr s1" "known_haddrs s1 = known_haddrs s"
    "proc_inv (oe_proc e) (os_tables s1)" "old_ukeys s1 = []"
    "waiting_clients e (os_request_id s) key s1 = waiting_clients e (os_request_id s) key ?s @ [?c]"
    "calls (trace s1) = calls (trace s) @ [Refcnt m 1, old_request_frame e s m (old_ukeys s @ [key])]"
    using old_client_key_ok [OF ready(1,2), of ?s m "length key + 15" key ?c] assms(3-6)
    unfolding same old_request_frame_def by auto
  have "waiting_clients e rid key ?s = waiting_clients e rid key (s\<lparr>os_tables := T\<rparr>)" for rid
    by (simp add: waiting_clients_def key_hash_def)
  with s1 run show ?thesis
    by (intro exI [of _ "log_event (Free m) s1"] exI [of _ port])
      (simp add: log_event_def waiting_clients_def key_hash_def old_ukeys_def)
qed

text \<open>C13: end to end: a request whose key fills the group is sent to memcached with the keys
  that waited, and the reply to it goes to the clients already registered for it, then to this
  one, each under its own id.\<close>

theorem old_request_reply_roundtrip:
  assumes "old_ready e s" "old_request s m crid [key] (length key + 15)" "key \<notin> set (old_ukeys s)"
    and "os_ukey_len s + 1 = oe_group_size e" "request_fits e (length key + 15) (old_ukeys s @ [key])"
    and "length (req_key (unat (os_request_id s)) key) < pe_max_key (oe_proc e)"
    and "waiting_clients e (os_request_id s) key (s\<lparr>os_tables := initialize_map (oe_proc e) (os_tables s)\<rparr>) = cs"
      "length cs < 2 ^ 15" "list_all (\<lambda>c. reachable s (ci_src_ip c)) cs" "reachable s a"
    and "old_app_client_in e m 34 a s = Inr s1" "t = s1\<lparr>mbufs := M\<rparr>" "value_reply e t m' (os_request_id s) key text"
  shows "\<exists>s2 port. old_app_server_in e m' 34 t = Inr s2 \<and>
    calls (trace s1) = calls (trace s) @ [Refcnt m 1, old_request_frame e s m (old_ukeys s @ [key]), Free m] \<and>
    calls (trace s2) = calls (trace s1) @ Refcnt m' (int (length cs)) #
      map (client_frame e s m' text) (cs @ [\<lparr>ci_req_id = crid, ci_src_ip = a, ci_src_port = port\<rparr>])"
proof -
  have env: "unformat_ok e" "tx_live e" using assms(1) by (simp_all add: old_ready_def)
  from old_request_sent [OF assms(1-6) refl, of a] assms(7,11) obtain port where
    s1: "known_haddrs s1 = known_haddrs s" "proc_inv (oe_proc e) (os_tables s1)"
    "waiting_clients e (os_request_id s) key s1 = cs @ [\<lparr>ci_req_id = crid, ci_src_ip = a, ci_src_port = port\<rparr>]"
    "calls (trace s1) = calls (trace s) @ [Refcnt m 1, old_request_frame e s m (old_ukeys s @ [key]), Free m]"
    by auto
  let ?cs = "cs @ [\<lparr>ci_req_id = crid, ci_src_ip = a, ci_src_port = port\<rparr>]"
  have t: "known_haddrs t = known_haddrs s" "os_tables t = os_tables s1" "trace t = trace s1"
    using s1(1) by (simp_all add: assms(12))
  have "proc_inv (oe_proc e) (os_tables t)" "waiting_clients e (os_request_id s) key t = ?cs"
    using s1(2,3) t(2) by (simp_all add: waiting_clients_def key_hash_def)
  moreover have "list_all (\<lambda>c. reachable t (ci_src_ip c)) ?cs" "length ?cs \<le> 2 ^ 15" "?cs \<noteq> []"
    using assms(8-10) unfolding reachable_same(1) [OF t(1)] by simp_all
  ultimately obtain s2 where "old_app_server_in e m' 34 t = Inr s2"
    "calls (trace s2) = calls (trace t) @ Refcnt m' (int (length ?cs) - 1) # map (client_frame e t m' text) ?cs"
    using old_server_forwards [OF env _ assms(13)] by blast
  moreover have "client_frame e t m' text = client_frame e s m' text"
    by (simp add: fun_eq_iff client_frame_def reachable_same [OF t(1)])
  ultimately show ?thesis using s1(4) t(3) by auto
qed

section \<open>The earlier and the current helpers\<close>

lemma strstr_buf_found: "strstr_buf cap mem w = Inr True \<longleftrightarrow> strstr mem w = Inr True"
  by (simp add: strstr_buf_def strstr_def)


end
