(* ===== verification/Old_Invariant.thy ===== *)
theory Old_Invariant
  imports Old_Behaviour
begin

text \<open>
  The earlier application layer over any sequence of packets: the tables of clients and the
  group of keys stay well formed in every reachable state, and a request of ordinary sizes is
  served in each of them without a fault.
\<close>

section \<open>The tables grow slowly\<close>

text \<open>Memory is granted, and \<open>malloc\<close> finds a block not in use while few are.\<close>

definition alloc_ok :: "proc_env \<Rightarrow> bool" where
  "alloc_ok e \<longleftrightarrow> pe_key_addr e \<noteq> 0 \<and> 0 < pe_max_key e \<and> (\<forall>n. pe_grants e n) \<and> (\<forall>n. pe_calloc e n) \<and>
     (\<forall>U. card U \<le> put_limit \<longrightarrow> pe_malloc e (\<lambda>p. p \<in> U) \<notin> insert 0 U)"

definition tables_grown :: "proc_env \<Rightarrow> nat \<Rightarrow> 'c proc_state \<Rightarrow> bool" where
  "tables_grown e n T \<longleftrightarrow> proc_inv e T \<and> counter_map T \<noteq> None \<and> card (dom (arrays T)) \<le> n \<and>
     (\<forall>m. client_info_map T = Some m \<longrightarrow> hm_count m \<le> n \<and> hm_capacity m \<le> max 20 (4 * n))"

lemma tables_grown_mem:
  assumes "alloc_ok e" "tables_grown e n T" "n < put_limit"
  shows "mem_ok e T"
proof -
  have "pe_malloc e (\<lambda>p. p \<in> dom (arrays T)) \<notin> insert 0 (dom (arrays T))"
    using assms by (auto simp: alloc_ok_def tables_grown_def)
  moreover have "(\<lambda>p. p \<in> dom (arrays T)) = (\<lambda>p. arrays T p \<noteq> None)" by auto
  moreover have "can_grow (pe_calloc e) m" if "client_info_map T = Some m" for m
    using that assms over_load_capacity [of m] by (auto simp: alloc_ok_def tables_grown_def can_grow_def put_limit_def)
  ultimately show ?thesis using assms(1) by (auto simp: mem_ok_def alloc_ok_def)
qed

lemma insert_grown:
  assumes "alloc_ok e" "tables_grown e n T" "n < put_limit" "length (req_key (unat r) key) < pe_max_key e"
  shows "\<exists>T'. insert_client_info_to_map e key r c T = Inr T' \<and> tables_grown e (Suc n) T'"
proof -
  have inv: "proc_inv e T" using assms(2) by (simp add: tables_grown_def)
  from insert_spec [OF inv refl assms(4) tables_grown_mem [OF assms(1-3)] refl] obtain T' p where
    T': "insert_client_info_to_map e key r c T = Inr T'" "proc_inv e T'" "grows T T'"
    "dom (arrays T') \<subseteq> insert p (dom (arrays T))" "counter_map T' = counter_map T" by blast
  have "card (dom (arrays T')) \<le> card (insert p (dom (arrays T)))" by (rule card_mono [OF _ T'(4)]) simp
  also have "\<dots> \<le> Suc n" using assms(2) card_insert_le_m1 [of "Suc n" "dom (arrays T)" p] by (simp add: tables_grown_def)
  finally have "card (dom (arrays T')) \<le> Suc n" .
  moreover have "hm_count m' \<le> Suc n \<and> hm_capacity m' \<le> max 20 (4 * Suc n)" if new: "client_info_map T' = Some m'" for m'
  proof -
    obtain m where m: "client_info_map T = Some m" "m' = m \<or> hm_count m' \<le> hm_count m + 1 \<and>
        hm_capacity m' = (if over_load m then 2 * hm_capacity m else hm_capacity m)"
      using T'(3) new assms(2) by (fastforce simp: grows_def tables_grown_def proc_inv_def)
    then have "hm_count m \<le> n" "hm_capacity m \<le> max 20 (4 * n)" using assms(2) by (simp_all add: tables_grown_def)
    with m(2) over_load_capacity [of m] show ?thesis by (cases "over_load m") auto
  qed
  ultimately show ?thesis using T' assms(2) by (auto simp: tables_grown_def)
qed

lemma insert_grows:
  assumes "alloc_ok e" "tables_grown e n T" "n < put_limit" "insert_client_info_to_map e key r c T = Inr T'"
  shows "tables_grown e (Suc n) T'"
proof -
  have "length (req_key (unat r) key) < pe_max_key e"
    using assms(4) by (auto simp: insert_client_info_to_map_def sprint_req_key_def bindr_eq_Inr)
  from insert_grown [OF assms(1-3) this, of c] assms(4) show ?thesis by auto
qed

lemma tables_grown_mono: "tables_grown e n T \<Longrightarrow> n \<le> k \<Longrightarrow> tables_grown e k T"
  by (auto simp: tables_grown_def)

text \<open>A lookup touches the key buffer only.\<close>

lemma normalize_key_length:
  "normalize_key k T = Inr T' \<Longrightarrow> \<exists>b. T' = T\<lparr>normalized_key := b\<rparr> \<and> length b = length (normalized_key T)"
  by (auto simp: normalize_key_def memset_def bindr_eq_Inr dest!: wr_length)

lemma get_from_map_keeps:
  assumes "get_from_map e key r T = Inr (p, T')"
  shows "\<exists>b. T' = T\<lparr>normalized_key := b\<rparr> \<and> length b = length (normalized_key T)"
proof -
  obtain t where "normalize_key t T = Inr T'"
    using assms by (auto simp: get_from_map_def bindr_eq_Inr split: option.splits)
  then show ?thesis by (rule normalize_key_length)
qed

definition or_new :: "proc_env \<Rightarrow> hashmap option \<Rightarrow> hashmap" where
  "or_new e m = (case m of None \<Rightarrow> hashmap_create (pe_calloc e) | Some m \<Rightarrow> m)"

lemma initialize_map_eq:
  "initialize_map e T = T\<lparr>client_info_map := Some (or_new e (client_info_map T)), counter_map := Some (or_new e (counter_map T))\<rparr>"
  by (cases T) (auto simp: initialize_map_def or_new_def Let_def split: option.splits)

lemma or_new_Some [simp]: "or_new e (Some m) = m"
  by (simp add: or_new_def)

lemma tables_grown_key:
  assumes "length b = length (normalized_key T)"
  shows "tables_grown e n (T\<lparr>normalized_key := b\<rparr>) = tables_grown e n T"
    "initialize_map e (T\<lparr>normalized_key := b\<rparr>) = (initialize_map e T)\<lparr>normalized_key := b\<rparr>"
  using assms by (simp_all add: tables_grown_def proc_inv_def info_entries_def initialize_map_eq)

lemma initialize_map_again [simp]: "initialize_map e (initialize_map e T) = initialize_map e T"
  by (simp add: initialize_map_eq)

lemma initialize_map_length [simp]: "normalized_key (initialize_map e T) = normalized_key T"
  by (simp add: initialize_map_eq)

lemma initialize_map_id: "proc_inv e T \<Longrightarrow> counter_map T \<noteq> None \<Longrightarrow> initialize_map e T = T"
  by (cases T) (auto simp: initialize_map_eq proc_inv_def)

lemma start_grown:
  assumes "alloc_ok e"
  shows "tables_grown e 0 (initialize_map e (proc_start e :: 'c proc_state))"
proof -
  let ?T = "initialize_map e (proc_start e :: 'c proc_state)"
  have e: "pe_key_addr e \<noteq> 0" "0 < pe_max_key e" "pe_calloc e 20" using assms by (simp_all add: alloc_ok_def)
  have "client_info_map ?T = Some (hashmap_create (pe_calloc e))" "arrays ?T = (\<lambda>_. None)" "counter_map ?T \<noteq> None"
    by (simp_all add: initialize_map_def proc_start_def)
  with initialize_map_spec(1) [OF e] show ?thesis
    using sh.create_spec(3,4) [of "pe_calloc e"] e(3) by (simp add: tables_grown_def)
qed

section \<open>The handlers\<close>

definition old_core :: "'e old_env_scheme \<Rightarrow> nat \<Rightarrow> old_state \<Rightarrow> bool" where
  "old_core e n s \<longleftrightarrow> tables_grown (oe_proc e) n (os_tables s) \<and> old_group_ok e s"

text \<open>The tables are created by the first request.\<close>

definition old_inv :: "'e old_env_scheme \<Rightarrow> nat \<Rightarrow> old_state \<Rightarrow> bool" where
  "old_inv e n s \<longleftrightarrow> tables_grown (oe_proc e) n (initialize_map (oe_proc e) (os_tables s)) \<and> old_group_ok e s"

lemma old_core_inv: "old_core e n s \<Longrightarrow> old_inv e n s"
  by (auto simp: old_core_def old_inv_def tables_grown_def initialize_map_id)

lemma old_inv_cong:
  "os_tables s' = os_tables s \<Longrightarrow> os_ukey_len s' = os_ukey_len s \<Longrightarrow> os_ukey s' = os_ukey s \<Longrightarrow>
     os_request_id s' = os_request_id s \<Longrightarrow> old_inv e n s' = old_inv e n s \<and> old_core e n s' = old_core e n s"
  by (simp add: old_inv_def old_core_def old_group_ok_def old_ukeys_def)

lemma old_inv_net: "net_only s s' \<Longrightarrow> old_inv e n s' = old_inv e n s \<and> old_core e n s' = old_core e n s"
  by (intro old_inv_cong net_only_fields)

lemma net_only_old_rcv [net_frame]: "old_rcv_payload e m udph s = Inr (ap, s') \<Longrightarrow> net_only s s'"
  by (auto simp: old_rcv_payload_def bindr_eq_Inr Let_def split: if_splits intro: net_only_init_net_sge)

lemma net_only_old_app_send [net_frame]:
  assumes "old_app_send e m udph msg rid dst s = Inr s'"
  shows "net_only s s'"
proof -
  obtain s1 and ap :: "(byte list \<times> u16) option" where s1: "init_net_sge m udph s = Inr s1" and rest: "(case ap of
       None \<Rightarrow> Inr (log_event (Free m) s1)
     | Some (full_msg, total_len) \<Rightarrow>
         bindr (upd_data m (wr 20 (to_le32 (ucast total_len))) s1) (\<lambda>s.
         bindr (upd_data m (wr (udph + 8) (take (unat total_len) full_msg)) s) (\<lambda>s.
         bindr (udp_send e m 12 dst s) (\<lambda>(_, s). Inr s)))) = Inr s'"
    using assms by (auto simp: old_app_send_def bindr_eq_Inr)
  have "net_only s1 s'"
    using rest by (auto simp: bindr_eq_Inr split: option.splits
        intro: net_only_trans [OF net_only_upd_data net_only_trans [OF net_only_upd_data net_only_udp_send]])
  with net_only_init_net_sge [OF s1] show ?thesis by (rule net_only_trans)
qed

lemma net_only_old_forward [net_frame]: "old_forward e m udph reply cs s = Inr s' \<Longrightarrow> net_only s s'"
  by (induction cs arbitrary: s)
    (auto simp: bindr_eq_Inr split: option.splits intro: net_only_trans [OF net_only_old_app_send])

lemma next_id_less: "unat (word_of_nat (n mod MAX_REQ_ID) :: u16) < MAX_REQ_ID"
proof -
  have "n mod MAX_REQ_ID < MAX_REQ_ID" by (rule mod_less_divisor) (simp add: MAX_REQ_ID_def)
  moreover from this have "n mod MAX_REQ_ID < 2 ^ 16" by (simp add: MAX_REQ_ID_def)
  ultimately show ?thesis by (simp add: unat_of_nat take_bit_nat_eq_self)
qed

lemma old_client_key_keeps:
  assumes "alloc_ok (oe_proc e)" "old_core e n s" "n < put_limit" "old_client_key e m udph c key s = Inr s'"
  shows "old_core e (Suc n) s'"
proof -
  obtain T s1 where T: "insert_client_info_to_map (oe_proc e) key (ucast (os_request_id s)) c (os_tables s) = Inr T"
    and s1: "old_insert_ukey_group e key (s\<lparr>os_tables := T\<rparr>) = Inr s1"
    and s': "(if oe_group_size e \<le> os_ukey_len s1 then old_send_group e m udph s1 else Inr s1) = Inr s'"
    using assms(4) by (auto simp: old_client_key_def bindr_eq_Inr)
  have tab: "tables_grown (oe_proc e) (Suc n) T" using assms(2) insert_grows [OF assms(1) _ assms(3) T] by (simp add: old_core_def)
  have g: "old_group_ok e s" using assms(2) by (simp add: old_core_def)
  have s1': "os_tables s1 = T" "distinct (old_ukeys s1)" "os_request_id s1 = os_request_id s"
    using s1 g by (auto simp: old_insert_ukey_group_def old_group_ok_def old_ukeys_def bindr_eq_Inr list_ex_iff split: if_splits)
  show ?thesis
  proof (cases "oe_group_size e \<le> os_ukey_len s1")
    case True
    then obtain msg rid s2 where s2: "old_app_send e m udph msg rid (ip_str_to_int TARGET_IP) (log_event (Refcnt m 1) s1) = Inr s2"
      "s' = s2\<lparr>os_request_id := word_of_nat ((unat (os_request_id s2) + 1) mod MAX_REQ_ID), os_ukey_len := 0\<rparr>"
      using s' by (auto simp: old_send_group_def bindr_eq_Inr Let_def)
    have "os_tables s2 = T" using net_only_fields(1) [OF net_only_old_app_send [OF s2(1)]] s1'(1) by (simp add: log_event_def)
    with s2(2) g tab show ?thesis by (simp add: old_core_def old_group_ok_def old_ukeys_def next_id_less)
  next
    case False
    with s' s1' g tab show ?thesis by (simp add: old_core_def old_group_ok_def)
  qed
qed

lemma old_client_keys_keep:
  assumes "alloc_ok (oe_proc e)" "old_core e n s" "n + length ks \<le> put_limit" "old_client_keys e m udph c ks s = Inr s'"
  shows "old_core e (n + length ks) s'"
  using assms(2-)
proof (induction ks arbitrary: n s)
  case (Cons k ks)
  then obtain s1 where s1: "old_client_key e m udph c k s = Inr s1" "old_client_keys e m udph c ks s1 = Inr s'"
    by (auto simp: bindr_eq_Inr)
  have "old_core e (Suc n) s1" by (rule old_client_key_keeps [OF assms(1) Cons.prems(1) _ s1(1)]) (use Cons.prems(2) in simp)
  from Cons.IH [OF this _ s1(2)] Cons.prems(2) show ?case by simp
qed simp

lemma strip_loop_count:
  "strip_loop mem n buffer j keys = Inr ks \<Longrightarrow> length keys \<le> MAX_KEY_PER_PACKET \<Longrightarrow> length ks \<le> MAX_KEY_PER_PACKET"
  by (induction mem n buffer j keys rule: strip_loop.induct)
    (auto simp: put_key_def bindr_eq_Inr split: if_splits option.splits)

lemma strip_keys_count: "strip_keys mem n = Inr ks \<Longrightarrow> length ks \<le> MAX_KEY_PER_PACKET"
  by (auto simp: strip_keys_def bindr_eq_Inr intro: strip_loop_count)

lemma old_core_mono: "old_core e n s \<Longrightarrow> n \<le> k \<Longrightarrow> old_core e k s"
  by (auto simp: old_core_def intro: tables_grown_mono)

lemma old_app_client_in_keeps:
  assumes "alloc_ok (oe_proc e)" "old_inv e n s" "n + MAX_KEY_PER_PACKET \<le> put_limit" "old_app_client_in e m udph a s = Inr s'"
  shows "old_inv e (n + MAX_KEY_PER_PACKET) s'"
proof -
  obtain ap s1 where s1: "old_rcv_payload e m udph s = Inr (ap, s1)"
    using assms(4) by (auto simp: old_app_client_in_def bindr_eq_Inr)
  have inv: "old_inv e n s1" using assms(2) old_inv_net [OF net_only_old_rcv [OF s1], of e n] by simp
  show ?thesis
  proof (cases ap)
    case None
    then have "s' = log_event (Free m) s1" using assms(4) s1 by (simp add: old_app_client_in_def)
    with old_inv_net [OF net_only_log, of e n "Free m" s1] inv have "old_inv e n s'" by simp
    then show ?thesis by (auto simp: old_inv_def intro: tables_grown_mono)
  next
    case (Some x)
    let ?s = "s1\<lparr>os_tables := initialize_map (oe_proc e) (os_tables s1)\<rparr>"
    obtain ks c s2 where k: "length ks \<le> MAX_KEY_PER_PACKET" "old_client_keys e m udph c ks ?s = Inr s2" "s' = log_event (Free m) s2"
      using assms(4) s1 Some
      by (cases x) (auto simp: old_app_client_in_def bindr_eq_Inr Let_def dest: strip_keys_count)
    have "old_core e n ?s" using inv by (simp add: old_core_def old_inv_def old_group_ok_def old_ukeys_def)
    from old_client_keys_keep [OF assms(1) this _ k(2)] k(1) assms(3) have "old_core e (n + MAX_KEY_PER_PACKET) s2"
      by (auto intro: old_core_mono)
    then have "old_inv e (n + MAX_KEY_PER_PACKET) s2" by (rule old_core_inv)
    then show ?thesis using old_inv_net [OF net_only_log, of e _ "Free m" s2] k(3) by simp
  qed
qed

lemma old_app_server_in_keeps:
  assumes "old_inv e n s" "old_app_server_in e m udph s = Inr s'"
  shows "old_inv e n s'"
proof -
  obtain ap s1 where s1: "old_rcv_payload e m udph s = Inr (ap, s1)"
    using assms(2) by (auto simp: old_app_server_in_def bindr_eq_Inr)
  have inv: "old_inv e n s1" using assms(1) old_inv_net [OF net_only_old_rcv [OF s1], of e n] by simp
  have "s' = log_event (Free m) s1 \<or> (\<exists>p T r. (\<exists>key rid. get_from_map (oe_proc e) key rid (os_tables s1) = Inr (p, T)) \<and>
      net_only (log_event r (s1\<lparr>os_tables := T\<rparr>)) s')"
    using assms(2) s1
    by (fastforce simp: old_app_server_in_def bindr_eq_Inr Let_def split: option.splits intro: net_only_old_forward)
  then show ?thesis
  proof (elim disjE exE conjE)
    assume "s' = log_event (Free m) s1"
    with inv old_inv_net [OF net_only_log, of e n "Free m" s1] show ?thesis by simp
  next
    fix p T r key rid
    assume T: "get_from_map (oe_proc e) key rid (os_tables s1) = Inr (p, T)"
      and net: "net_only (log_event r (s1\<lparr>os_tables := T\<rparr>)) s'"
    obtain b where b: "T = (os_tables s1)\<lparr>normalized_key := b\<rparr>" "length b = length (normalized_key (os_tables s1))"
      using get_from_map_keeps [OF T] by blast
    have "old_inv e n (s1\<lparr>os_tables := T\<rparr>)"
      using inv b by (simp add: old_inv_def tables_grown_key old_group_ok_def old_ukeys_def)
    with old_inv_net [OF net_only_trans [OF net_only_log net], of e n] show ?thesis by simp
  qed
qed

section \<open>Reachable states\<close>

text \<open>
  The states after \<open>k\<close> requests: packets come and go as the device and the buffer pool
  please, and a handler runs on any packet, at any offset.
\<close>

inductive old_reach :: "old_env \<Rightarrow> nat \<Rightarrow> old_state \<Rightarrow> bool" for e where
  start: "os_tables s = proc_start (oe_proc e) \<Longrightarrow> os_ukey_len s = 0 \<Longrightarrow> os_request_id s = 0 \<Longrightarrow> old_reach e 0 s"
| packets: "old_reach e k s \<Longrightarrow> old_reach e k (s\<lparr>mbufs := M\<rparr>)"
| request: "old_reach e k s \<Longrightarrow> old_app_client_in e m udph a s = Inr s' \<Longrightarrow> old_reach e (Suc k) s'"
| reply: "old_reach e k s \<Longrightarrow> old_app_server_in e m udph s = Inr s' \<Longrightarrow> old_reach e k s'"

lemma old_reach_inv:
  assumes "old_reach e k s" "alloc_ok (oe_proc e)" "0 < oe_group_size e" "k * MAX_KEY_PER_PACKET \<le> put_limit"
  shows "old_inv e (k * MAX_KEY_PER_PACKET) s"
  using assms(1,4)
proof (induction rule: old_reach.induct)
  case (start s)
  then show ?case
    using start_grown [OF assms(2)] assms(3) by (simp add: old_inv_def old_group_ok_def old_ukeys_def MAX_REQ_ID_def)
next
  case (packets k s M)
  then show ?case using old_inv_cong [of "s\<lparr>mbufs := M\<rparr>" s e] by simp
next
  case (request k s m udph a s')
  then have "old_inv e (k * MAX_KEY_PER_PACKET) s" by simp
  from old_app_client_in_keeps [OF assms(2) this _ request.hyps(2)] request.prems show ?case by (simp add: add.commute)
next
  case (reply k s m udph s')
  then show ?case by (blast intro: old_app_server_in_keeps)
qed

text \<open>C14: after any requests and replies, up to about 740000 requests, the group holds different
  keys and is not full, the next id is below \<open>MAX_REQ_ID\<close>, and the tables of clients are well
  formed: a sound hash map, every entry leading to an array of its own with a client in it.\<close>

theorem old_reach_invariant:
  assumes "old_reach e k s" "alloc_ok (oe_proc e)" "0 < oe_group_size e" "k * MAX_KEY_PER_PACKET \<le> put_limit"
  shows "distinct (old_ukeys s) \<and> os_ukey_len s < oe_group_size e \<and> unat (os_request_id s) < MAX_REQ_ID \<and>
    proc_inv (oe_proc e) (initialize_map (oe_proc e) (os_tables s))"
  using old_reach_inv [OF assms] by (simp add: old_inv_def old_group_ok_def tables_grown_def)

section \<open>Ordinary requests are served\<close>

text \<open>Sizes under which no array overflows: keys of at most \<open>l\<close> bytes.\<close>

definition sizes_ok :: "'e old_env_scheme \<Rightarrow> nat \<Rightarrow> bool" where
  "sizes_ok e l \<longleftrightarrow> oe_group_size e * (l + 1) \<le> 1458 \<and> oe_group_size e * (l + 1) + 14 \<le> oe_max_length e \<and>
     l < MAX_KEY_LENGTH \<and> l + 6 < pe_max_key (oe_proc e)"

definition short_keys :: "nat \<Rightarrow> byte list list \<Rightarrow> bool" where
  "short_keys l ks \<longleftrightarrow> list_all (\<lambda>k. length k \<le> l) ks"

lemma length_req_key:
  assumes "length key \<le> l"
  shows "length (req_key (unat (r :: u16)) key) \<le> l + 6"
proof -
  have "unat r < 2 ^ LENGTH(16)" by (rule unsigned_less)
  then have "unat r < 10 ^ 5" by simp
  then have "length (dec (unat r)) \<le> 5" by (rule length_dec) simp
  then show ?thesis using assms length_cstr [of key] by (simp add: req_key_def str_def)
qed

lemma length_short_keys: "short_keys l ks \<Longrightarrow> length (spaced ks) \<le> length ks * (l + 1)"
  by (induction ks) (auto simp: short_keys_def)

lemma old_client_key_served:
  assumes env: "unformat_ok e" "tx_live e" "alloc_ok (oe_proc e)" "sizes_ok e l" and target: "reachable s (ip_str_to_int TARGET_IP)"
    and s: "old_core e n s" "n < put_limit" "room s m 1472" "short_keys l (old_ukeys s)" "length key \<le> l"
  shows "\<exists>s'. old_client_key e m 34 c key s = Inr s' \<and> old_core e (Suc n) s' \<and> known_haddrs s' = known_haddrs s \<and>
     room s' m 1472 \<and> short_keys l (old_ukeys s')"
proof -
  have size: "length key < MAX_KEY_LENGTH" "length (req_key (unat (os_request_id s)) key) < pe_max_key (oe_proc e)"
    using env(4) s(5) length_req_key [OF s(5), of "os_request_id s"] by (simp_all add: sizes_ok_def)
  have core: "tables_grown (oe_proc e) n (os_tables s)" "old_group_ok e s" using s(1) by (simp_all add: old_core_def)
  obtain T where T: "insert_client_info_to_map (oe_proc e) key (ucast (os_request_id s)) c (os_tables s) = Inr T"
    using insert_grown [OF env(3) core(1) s(2), of "ucast (os_request_id s)" key c] size(2) by (auto simp: unat_ucast_16_32)
  let ?s1 = "s\<lparr>os_tables := T\<rparr>"
  have same: "old_ukeys ?s1 = old_ukeys s" by (simp add: old_ukeys_def)
  have "\<exists>s'. old_client_key e m 34 c key s = Inr s' \<and> known_haddrs s' = known_haddrs s \<and>
     room s' m 1472 \<and> short_keys l (old_ukeys s')"
  proof (cases "key \<in> set (old_ukeys s)")
    case True
    then have "old_insert_ukey_group e key ?s1 = Inr ?s1" by (simp add: old_insert_ukey_group_def same list_ex_iff)
    then have "old_client_key e m 34 c key s = Inr ?s1" using T core(2) by (simp add: old_client_key_def old_group_ok_def)
    then show ?thesis using s(3,4) same room_same [of ?s1 s] by simp
  next
    case False
    obtain s2 where s2: "old_insert_ukey_group e key ?s1 = Inr s2" "old_ukeys s2 = old_ukeys s @ [key]"
      "os_ukey_len s2 = os_ukey_len s + 1" "mbufs s2 = mbufs s" "known_haddrs s2 = known_haddrs s"
      using old_insert_new [of key ?s1 e] False core(2) size(1) same by (auto simp: old_group_ok_def)
    have step: "old_client_key e m 34 c key s =
        (if oe_group_size e \<le> os_ukey_len s + 1 then old_send_group e m 34 s2 else Inr s2)"
      using T s2(1,3) by (simp add: old_client_key_def)
    have short: "short_keys l (old_ukeys s2)" "room s2 m 1472" "reachable s2 (ip_str_to_int TARGET_IP)"
      using s(3-5) target room_same [OF s2(4)] reachable_same(1) [OF s2(5)] by (simp_all add: s2(2) short_keys_def)
    have "length (old_ukeys s2) \<le> oe_group_size e" using s2(3) core(2) by (simp add: old_ukeys_def old_group_ok_def)
    then have "length (old_ukeys s2) * (l + 1) \<le> oe_group_size e * (l + 1)" by (rule mult_le_mono1)
    then have "request_fits e 1472 (old_ukeys s2)"
      using length_short_keys [OF short(1)] env(4) by (simp add: request_fits_def sizes_ok_def)
    from old_send_group_ok [OF env(1,2) short(3,2) this] obtain s3 where
      "old_send_group e m 34 s2 = Inr s3" "known_haddrs s3 = known_haddrs s2" "old_ukeys s3 = []" "room s3 m 1472" by blast
    with step short s2(5) show ?thesis by (cases "oe_group_size e \<le> os_ukey_len s + 1") (auto simp: short_keys_def)
  qed
  with old_client_key_keeps [OF env(3) s(1,2)] show ?thesis by blast
qed

lemma old_client_keys_served:
  assumes env: "unformat_ok e" "tx_live e" "alloc_ok (oe_proc e)" "sizes_ok e l"
    and "reachable s (ip_str_to_int TARGET_IP)" "old_core e n s" "n + length ks \<le> put_limit" "room s m 1472"
    and "short_keys l (old_ukeys s)" "short_keys l ks"
  shows "\<exists>s'. old_client_keys e m 34 c ks s = Inr s' \<and> old_core e (n + length ks) s' \<and>
     known_haddrs s' = known_haddrs s \<and> short_keys l (old_ukeys s')"
  using assms(5-)
proof (induction ks arbitrary: n s)
  case (Cons k ks)
  have "n < put_limit" "length k \<le> l" using Cons.prems(3,6) by (simp_all add: short_keys_def)
  from old_client_key_served [OF env Cons.prems(1,2) this(1) Cons.prems(4,5) this(2), of c] obtain s1 where
    s1: "old_client_key e m 34 c k s = Inr s1" "old_core e (Suc n) s1" "known_haddrs s1 = known_haddrs s"
    "room s1 m 1472" "short_keys l (old_ukeys s1)" by blast
  have "reachable s1 (ip_str_to_int TARGET_IP)" using Cons.prems(1) reachable_same(1) [OF s1(3)] by simp
  from Cons.IH [OF this s1(2) _ s1(4,5)] Cons.prems(3,6) s1 show ?case by (auto simp: short_keys_def)
qed simp

lemma old_request_ok:
  assumes "unformat_ok e" "tx_live e" "alloc_ok (oe_proc e)" "sizes_ok e l" "0 < oe_group_size e"
    and "old_reach e k s" "k * MAX_KEY_PER_PACKET + length ks \<le> put_limit" "short_keys l (old_ukeys s)"
    and "reachable s (ip_str_to_int TARGET_IP)" "old_request s m crid ks 1472" "short_keys l ks"
    and "length (spaced ks) + 14 \<le> oe_max_length e"
  shows "\<exists>s'. old_app_client_in e m 34 a s = Inr s' \<and> old_reach e (Suc k) s' \<and> short_keys l (old_ukeys s') \<and>
    reachable s' (ip_str_to_int TARGET_IP)"
proof -
  let ?T = "initialize_map (oe_proc e) (os_tables s)"
  from old_app_client_in_keys [OF assms(10,12), of a] obtain M port where
    M: "room (s\<lparr>mbufs := M\<rparr>) m 1472" and run: "old_app_client_in e m 34 a s =
      bindr (old_client_keys e m 34 \<lparr>ci_req_id = crid, ci_src_ip = a, ci_src_port = port\<rparr> ks
        (s\<lparr>mbufs := M, os_tables := ?T\<rparr>)) (\<lambda>s. Inr (log_event (Free m) s))" by blast
  let ?s = "s\<lparr>mbufs := M, os_tables := ?T\<rparr>"
  have "old_inv e (k * MAX_KEY_PER_PACKET) s" using old_reach_inv [OF assms(6,3,5)] assms(7) by simp
  then have "old_core e (k * MAX_KEY_PER_PACKET) ?s" by (simp add: old_core_def old_inv_def old_group_ok_def old_ukeys_def)
  moreover have "reachable ?s (ip_str_to_int TARGET_IP)" "room ?s m 1472" "short_keys l (old_ukeys ?s)"
    using assms(8,9) M by (simp_all add: reachable_def arp_lookup_mac_def room_def old_ukeys_def)
  ultimately obtain s1 where s1: "old_client_keys e m 34 \<lparr>ci_req_id = crid, ci_src_ip = a, ci_src_port = port\<rparr> ks ?s = Inr s1"
    "known_haddrs s1 = known_haddrs s" "short_keys l (old_ukeys s1)"
    using old_client_keys_served [OF assms(1-4), of ?s "k * MAX_KEY_PER_PACKET" ks m] assms(7,11) by auto
  let ?s' = "log_event (Free m) s1"
  have "old_app_client_in e m 34 a s = Inr ?s'" using run s1(1) by simp
  moreover have "reachable ?s' (ip_str_to_int TARGET_IP)" "short_keys l (old_ukeys ?s')"
    using assms(9) s1(2,3) by (simp_all add: reachable_def arp_lookup_mac_def log_event_def old_ukeys_def)
  ultimately show ?thesis using old_reach.request [OF assms(6)] by blast
qed

text \<open>C15: in every reachable state a request of short keys, whatever its keys and however often
  they occur, is served without a fault, and leaves short keys waiting: so is the next.\<close>

theorem old_request_served:
  assumes "unformat_ok e" "tx_live e" "alloc_ok (oe_proc e)" "sizes_ok e l" "0 < oe_group_size e"
    and "old_reach e k s" "k * MAX_KEY_PER_PACKET + length ks \<le> put_limit" "short_keys l (old_ukeys s)"
    and "reachable s (ip_str_to_int TARGET_IP)" "old_request s m crid ks 1472" "short_keys l ks"
    and "length (spaced ks) + 14 \<le> oe_max_length e"
  shows "\<exists>s'. old_app_client_in e m 34 a s = Inr s' \<and> old_reach e (Suc k) s' \<and> short_keys l (old_ukeys s') \<and>
    reachable s' (ip_str_to_int TARGET_IP)"
  by (rule old_request_ok [OF assms])

end
