(* ===== verification/Old_Examples.thy ===== *)
theory Old_Examples
  imports Old_Invariant Examples Map_Examples
begin

text \<open>
  The properties of the earlier application layer on the network of \<open>Examples\<close>, with groups of
  one key and the key tables of \<open>Map_Examples\<close>.
\<close>

definition ex_old_env :: old_env where
  "ex_old_env = \<lparr>unformat_addr = unformat_addr ref_env, raw_cksum = raw_cksum ref_env, tx_burst = tx_burst ref_env,
     tx_fuel = tx_fuel ref_env, oe_proc = ex_proc, oe_group_size = 1, oe_max_length = 1472\<rparr>"

lemma ex_old_env_ok: "unformat_ok ex_old_env" "tx_live ex_old_env"
  "oe_proc ex_old_env = ex_proc" "oe_group_size ex_old_env = 1" "oe_max_length ex_old_env = 1472"
  using ref_unformat_ok ref_tx_live by (simp_all add: ex_old_env_def unformat_ok_def tx_live_def)

definition ex_packet :: "u32 \<Rightarrow> u16 \<Rightarrow> byte list \<Rightarrow> mbuf" where
  "ex_packet src rid t = ex_mbuf (ex_headers src (word_of_nat (length t + 18)) @ old_reply rid [0, 0, 0, 1, 0, 0] t)"

definition ex_old :: old_state where
  "ex_old = \<lparr>mbufs = [0x1000 \<mapsto> ex_packet client_ip 7 (str ''gets ab''),
       0x3000 \<mapsto> ex_packet (ip_str_to_int TARGET_IP) 0 (str ''VALUE ab 0 1''),
       0x4000 \<mapsto> ex_packet (ip_str_to_int TARGET_IP) 0 (str ''END'')],
     trace = [], known_haddrs = ex_table, arp_count = 2,
     os_tables = initialize_map ex_proc (proc_start ex_proc), os_ukey = \<lambda>_. [], os_ukey_len = 0, os_request_id = 0\<rparr>"

lemma ex_old_fields [simp]:
  "mbufs ex_old 0x1000 = Some (ex_packet client_ip 7 (str ''gets ab''))"
  "mbufs ex_old 0x3000 = Some (ex_packet (ip_str_to_int TARGET_IP) 0 (str ''VALUE ab 0 1''))"
  "mbufs ex_old 0x4000 = Some (ex_packet (ip_str_to_int TARGET_IP) 0 (str ''END''))"
  "known_haddrs ex_old = ex_table" "os_tables ex_old = initialize_map ex_proc (proc_start ex_proc)"
  "os_ukey_len ex_old = 0" "os_request_id ex_old = 0" "old_ukeys ex_old = []" "trace ex_old = []"
  by (simp_all add: ex_old_def old_ukeys_def)

lemmas ex_old_tables = ex_started [OF ex_old_fields(5)]

lemma ex_carries:
  assumes "mbufs s a = Some (ex_packet src rid t)" "length t \<le> 1462" "n \<le> length t + 10"
  shows "carries s a (old_reply rid [0, 0, 0, 1, 0, 0] t) n"
  unfolding carries_def
  by (intro conjI exI [of _ "ex_packet src rid t"] exI [of _ "ex_headers src (word_of_nat (length t + 18))"] exI [of _ "[]"])
    (use assms in \<open>simp_all add: old_reply_reads ex_packet_def add.commute\<close>)

lemma ex_reachable:
  "known_haddrs s = ex_table \<Longrightarrow> reachable s (ip_str_to_int TARGET_IP)"
  "known_haddrs s = ex_table \<Longrightarrow> reachable s client_ip"
  by (simp_all add: reachable_def ex_lookup)

lemma ex_old_ready: "old_group_ok ex_old_env ex_old" "old_ready ex_old_env ex_old"
proof -
  show g: "old_group_ok ex_old_env ex_old" by (simp add: old_group_ok_def ex_old_env_ok MAX_REQ_ID_def)
  show "old_ready ex_old_env ex_old"
    using g ex_old_env_ok(1,2) ex_reachable(1) [OF ex_old_fields(4)] ex_old_tables(1,3,5)
    by (simp add: old_ready_def ex_old_env_ok(3))
qed

lemma ex_old_fits:
  "length (req_key (unat (os_request_id ex_old)) (str ''ab'')) < pe_max_key (oe_proc ex_old_env)"
  "request_fits ex_old_env 17 (old_ukeys ex_old @ [str ''ab''])" "length (str ''ab'') < MAX_KEY_LENGTH"
  using ex_fits(1) by (simp_all add: ex_old_env_ok request_fits_def MAX_KEY_LENGTH_def)

lemma ex_none_waits: "waiting_clients ex_old_env rid k ex_old = []"
  unfolding waiting_clients_def ex_old_env_ok(3) by (rule ex_old_tables(2))

lemma ex_value: "mbufs s 0x3000 = mbufs ex_old 0x3000 \<Longrightarrow> value_reply ex_old_env s 0x3000 0 (str ''ab'') (str ''VALUE ab 0 1'')"
  unfolding value_reply_def
  by (intro conjI exI [of _ "[0, 0, 0, 1, 0, 0]"] exI [of _ "str ''0 1''"] ex_carries [of _ _ "ip_str_to_int TARGET_IP"])
    (use ex_fits(1) in \<open>simp_all add: MAX_KEY_LENGTH_def ex_old_env_ok\<close>)

lemma ex_old_room: "room ex_old 0x1000 17"
  by (rule roomI [OF ex_old_fields(1), of "ex_headers client_ip (word_of_nat (length (str ''gets ab'') + 18))"
      "old_reply 7 [0, 0, 0, 1, 0, 0] (str ''gets ab'')"]) (simp_all add: ex_packet_def old_reply_reads)

lemma ex_registered:
  obtains T where "proc_inv ex_proc T" "waiting_clients ex_old_env 0 (str ''ab'') (ex_old\<lparr>os_tables := T\<rparr>) =
    [\<lparr>ci_req_id = 7, ci_src_ip = client_ip, ci_src_port = 8080\<rparr>]"
proof -
  let ?c = "\<lparr>ci_req_id = 7, ci_src_ip = client_ip, ci_src_port = 8080\<rparr>"
  have "proc_inv (oe_proc ex_old_env) (os_tables ex_old)" "mem_ok (oe_proc ex_old_env) (os_tables ex_old)"
    using ex_old_tables(1,3) by (simp_all add: ex_old_env_ok)
  moreover have "str ''ab'' \<notin> set (old_ukeys ex_old)" by simp
  ultimately obtain s' where "proc_inv (oe_proc ex_old_env) (os_tables s')"
    "waiting_clients ex_old_env (os_request_id ex_old) (str ''ab'') s' = waiting_clients ex_old_env (os_request_id ex_old) (str ''ab'') ex_old @ [?c]"
    using old_client_key_ok [OF ex_old_env_ok(1,2) ex_reachable(1) [OF ex_old_fields(4)] ex_old_room _ _ ex_old_ready(1) _ ex_old_fits(3,2,1), of ?c]
    by blast
  then show thesis
    by (intro that [of "os_tables s'"]) (simp_all add: ex_started(2) [OF refl] ex_old_env_ok(3) waiting_clients_def key_hash_def)
qed

theorem old_app_server_in_unknown_crashes_witness:
  "old_app_server_in ex_old_env 0x3000 34 ex_old = Inl Null_deref"
  by (rule old_app_server_in_unknown_crashes [OF _ ex_value [OF refl] ex_none_waits])
    (simp only: ex_old_env_ok ex_old_tables(1))

theorem old_reply_without_value_witness:
  "old_app_server_in ex_old_env 0x4000 34 ex_old = Inl Uninit_read"
  by (rule old_reply_without_value [OF _ ex_carries [of _ _ "ip_str_to_int TARGET_IP" 0 "str ''END''" 13]])
    (simp_all add: ex_old_env_ok MEMCACHED_TAIL_def)


theorem old_client_key_collects_witness:
  "\<exists>s' f. old_client_key ex_old_env 0x1000 34 \<lparr>ci_req_id = 7, ci_src_ip = client_ip, ci_src_port = 8080\<rparr> (str ''ab'') ex_old = Inr s' \<and>
     calls (trace s') = [Refcnt 0x1000 1, Tx 0x1000 f] \<and> os_request_id s' = 1"
proof -
  have "proc_inv (oe_proc ex_old_env) (os_tables ex_old)" "mem_ok (oe_proc ex_old_env) (os_tables ex_old)"
    using ex_old_tables(1,3) by (simp_all add: ex_old_env_ok)
  moreover have "str ''ab'' \<notin> set (old_ukeys ex_old)" by simp
  ultimately show ?thesis
    using old_client_key_collects [OF ex_old_env_ok(1,2) ex_reachable(1) [OF ex_old_fields(4)] ex_old_room _ _ ex_old_ready(1) _ ex_old_fits(3,2,1),
      of "\<lparr>ci_req_id = 7, ci_src_ip = client_ip, ci_src_port = 8080\<rparr>"]
    by (auto simp: ex_old_env_ok MAX_REQ_ID_def simp del: str_simps)
qed

theorem old_request_reply_roundtrip_witness:
  "\<exists>s1 s2 f g. old_app_client_in ex_old_env 0x1000 34 client_ip ex_old = Inr s1 \<and>
     old_app_server_in ex_old_env 0x3000 34 (s1\<lparr>mbufs := mbufs ex_old\<rparr>) = Inr s2 \<and>
     calls (trace s2) = [Refcnt 0x1000 1, f, Free 0x1000, Refcnt 0x3000 0, g]"
proof -
  have req: "old_request ex_old 0x1000 7 [str ''ab''] (length (str ''ab'') + 15)"
    unfolding old_request_def
    by (intro conjI exI [of _ "[0, 0, 0, 1, 0, 0]"] ex_carries [of _ _ client_ip])
      (simp_all add: key_words_def MAX_KEY_LENGTH_def MAX_KEY_PER_PACKET_def)
  have fits: "request_fits ex_old_env (length (str ''ab'') + 15) (old_ukeys ex_old @ [str ''ab''])"
    using ex_old_fits(2) by simp
  have new: "str ''ab'' \<notin> set (old_ukeys ex_old)" "os_ukey_len ex_old + 1 = oe_group_size ex_old_env"
    by (simp_all add: ex_old_env_ok)
  obtain s1 where s1: "old_app_client_in ex_old_env 0x1000 34 client_ip ex_old = Inr s1"
    using old_request_sent [OF ex_old_ready(2) req new fits ex_old_fits(1) refl] by blast
  have "ex_old\<lparr>os_tables := initialize_map (oe_proc ex_old_env) (os_tables ex_old)\<rparr> = ex_old"
    using ex_old_tables(5) by (simp add: ex_old_env_ok(3))
  then have none: "waiting_clients ex_old_env (os_request_id ex_old) (str ''ab'')
      (ex_old\<lparr>os_tables := initialize_map (oe_proc ex_old_env) (os_tables ex_old)\<rparr>) = []"
    by (simp only: ex_none_waits)
  have v: "value_reply ex_old_env (s1\<lparr>mbufs := mbufs ex_old\<rparr>) 0x3000 (os_request_id ex_old) (str ''ab'') (str ''VALUE ab 0 1'')"
    unfolding ex_old_fields(7) by (rule ex_value) simp
  from old_request_reply_roundtrip [OF ex_old_ready(2) req new fits ex_old_fits(1) none _ _ ex_reachable(2) s1 refl v]
  obtain s2 port where "old_app_server_in ex_old_env 0x3000 34 (s1\<lparr>mbufs := mbufs ex_old\<rparr>) = Inr s2"
    "calls (trace s2) = [Refcnt 0x1000 1, old_request_frame ex_old_env ex_old 0x1000 (old_ukeys ex_old @ [str ''ab'']), Free 0x1000,
       Refcnt 0x3000 0, client_frame ex_old_env ex_old 0x3000 (str ''VALUE ab 0 1'')
         \<lparr>ci_req_id = 7, ci_src_ip = client_ip, ci_src_port = port\<rparr>]" by (auto simp del: str_simps)
  with s1 show ?thesis by blast
qed

section \<open>Any number of requests\<close>

text \<open>An allocator that looks for the first free address, and groups of two keys.\<close>

definition ex_malloc :: "(u64 \<Rightarrow> bool) \<Rightarrow> u64" where
  "ex_malloc taken = (case find (\<lambda>p. \<not> taken p) (map word_of_nat [1..<put_limit + 2]) of None \<Rightarrow> 0 | Some p \<Rightarrow> p)"

lemma ex_malloc_free:
  assumes "card U \<le> put_limit"
  shows "ex_malloc (\<lambda>p. p \<in> U) \<notin> insert 0 U"
proof -
  let ?ps = "map word_of_nat [1..<put_limit + 2] :: u64 list"
  have small: "unat (word_of_nat k :: u64) = k" if "k < put_limit + 2" for k
    using that by (simp add: unat_of_nat take_bit_nat_eq_self put_limit_def)
  have "inj_on (word_of_nat :: nat \<Rightarrow> u64) (set [1..<put_limit + 2])"
    by (rule inj_on_inverseI [of _ unat], rule small) (simp only: set_upt atLeastLessThan_iff)
  then have "card (set ?ps) = put_limit + 1" by (subst distinct_card) (simp_all add: distinct_map)
  then have "\<not> set ?ps \<subseteq> U" using assms card_mono [of U "set ?ps"] by auto
  then obtain p where "find (\<lambda>p. p \<notin> U) ?ps = Some p" by (cases "find (\<lambda>p. p \<notin> U) ?ps") (auto simp: find_None_iff)
  moreover from this have "p \<in> set ?ps" "p \<notin> U" unfolding find_Some_iff by (metis nth_mem)+
  moreover from this obtain k where "1 \<le> k" "k < put_limit + 2" "p = word_of_nat k" by (auto simp del: upt_Suc)
  ultimately show ?thesis using small [of k] by (auto simp: ex_malloc_def)
qed

definition ex_many_env :: old_env where
  "ex_many_env = ex_old_env\<lparr>oe_proc := ex_proc\<lparr>pe_malloc := ex_malloc, pe_max_key := 64\<rparr>, oe_group_size := 2\<rparr>"

lemma ex_many_env_ok: "unformat_ok ex_many_env" "tx_live ex_many_env" "alloc_ok (oe_proc ex_many_env)"
  "sizes_ok ex_many_env 10" "0 < oe_group_size ex_many_env"
proof -
  show "unformat_ok ex_many_env" "tx_live ex_many_env"
    using ex_old_env_ok(1,2) by (simp_all add: ex_many_env_def unformat_ok_def tx_live_def)
  have "ex_malloc (\<lambda>p. p \<in> U) \<notin> insert 0 U" if "card U \<le> put_limit" for U by (rule ex_malloc_free [OF that])
  then show "alloc_ok (oe_proc ex_many_env)" by (simp add: alloc_ok_def ex_many_env_def) (simp add: ex_proc_def)
  show "sizes_ok ex_many_env 10" "0 < oe_group_size ex_many_env"
    by (simp_all add: sizes_ok_def ex_many_env_def ex_old_env_def MAX_KEY_LENGTH_def)
qed

definition ex_many :: old_state where
  "ex_many = ex_old\<lparr>mbufs := [0x1000 \<mapsto> ex_mbuf (ex_headers client_ip 30 @ old_reply 7 [0, 0, 0, 1, 0, 0] (str ''gets'' @ spaced [str ''ab'', str ''c'', str ''ab'']) @ replicate 1472 0)],
     os_tables := proc_start (oe_proc ex_many_env)\<rparr>"

lemma ex_many_start: "old_reach ex_many_env 0 ex_many"
  by (rule old_reach.start) (simp_all add: ex_many_def)

lemma ex_many_request:
  "old_request ex_many 0x1000 7 [str ''ab'', str ''c'', str ''ab''] 1472" "short_keys 10 [str ''ab'', str ''c'', str ''ab'']"
  "length (spaced [str ''ab'', str ''c'', str ''ab'']) + 14 \<le> oe_max_length ex_many_env"
  "reachable ex_many (ip_str_to_int TARGET_IP)" "short_keys 10 (old_ukeys ex_many)"
  "0 * MAX_KEY_PER_PACKET + length [str ''ab'', str ''c'', str ''ab''] \<le> put_limit"
proof -
  let ?t = "str ''gets'' @ spaced [str ''ab'', str ''c'', str ''ab'']"
  have "carries ex_many 0x1000 (old_reply 7 [0, 0, 0, 1, 0, 0] ?t) 1472"
    unfolding carries_def
    by (intro conjI, rule exI [of _ "the (mbufs ex_many 0x1000)"], rule exI [of _ "ex_headers client_ip 30"], rule exI [of _ "replicate 1472 0"])
      (simp_all add: ex_many_def old_reply_reads)
  then show "old_request ex_many 0x1000 7 [str ''ab'', str ''c'', str ''ab''] 1472"
    unfolding old_request_def
    by (intro conjI exI [of _ "[0, 0, 0, 1, 0, 0]"]) (simp_all add: key_words_def MAX_KEY_LENGTH_def MAX_KEY_PER_PACKET_def)
  show "reachable ex_many (ip_str_to_int TARGET_IP)" by (rule ex_reachable) (simp add: ex_many_def)
qed (simp_all add: short_keys_def ex_many_env_def ex_old_env_def ex_many_def put_limit_def old_ukeys_def ex_old_def)

theorem old_request_served_witness:
  "\<exists>s'. old_app_client_in ex_many_env 0x1000 34 client_ip ex_many = Inr s' \<and> old_reach ex_many_env (Suc 0) s'"
  using old_request_served [OF ex_many_env_ok ex_many_start ex_many_request(6,5,4,1,2,3), of client_ip] by blast

theorem old_reach_invariant_witness:
  "\<exists>s. old_reach ex_many_env (Suc 0) s \<and> distinct (old_ukeys s) \<and> os_ukey_len s < 2"
proof -
  obtain s where s: "old_reach ex_many_env (Suc 0) s"
    using old_request_ok [OF ex_many_env_ok ex_many_start ex_many_request(6,5,4,1,2,3), of client_ip] by blast
  have "Suc 0 * MAX_KEY_PER_PACKET \<le> put_limit" by (simp add: MAX_KEY_PER_PACKET_def put_limit_def)
  from old_reach_invariant [OF s ex_many_env_ok(3,5) this] s show ?thesis by (auto simp: ex_many_env_def)
qed

end
