(* ===== verification/Old_Client.thy ===== *)
theory Old_Client
  imports Bursts
begin

text \<open>
  The first client, \<open>client/old_client.cpp\<close>: it sends the message of its command line as it
  is, four times, and prints four datagrams, fifty times over. The datagrams that will ever
  arrive, with their senders, are a parameter.
\<close>

definition OLD_MAXLINE :: nat where "OLD_MAXLINE = 1024"
definition OLD_BURST_SIZE :: nat where "OLD_BURST_SIZE = 4"
definition OLD_BURST_NUMBER :: nat where "OLD_BURST_NUMBER = 50"

record old_client =
  oc_server :: sockaddr_in       \<comment> \<open>\<open>servaddr\<close>\<close>
  oc_sent :: "(byte list \<times> sockaddr_in) list"
  oc_shown :: "byte list list"
  oc_inbox :: "datagram list"

fun old_send_loop :: "nat \<Rightarrow> byte list \<Rightarrow> old_client \<Rightarrow> old_client" where
  "old_send_loop 0 msg c = c"
| "old_send_loop (Suc n) msg c = old_send_loop n msg (c\<lparr>oc_sent := oc_sent c @ [(cstr msg, oc_server c)]\<rparr>)"

text \<open>\<open>buffer[n] = 0\<close>, then the text is printed.\<close>

definition old_show :: "byte list option \<Rightarrow> byte list res" where
  "old_show datagram =
     (let n = (case datagram of None \<Rightarrow> -1 | Some d \<Rightarrow> int (min (length d) OLD_MAXLINE))
      in bindr (check Out_of_bounds (0 \<le> n \<and> n < int OLD_MAXLINE)) (\<lambda>_.
         Inr (cstr (take (nat n) (the datagram)))))"

fun old_receive_loop :: "nat \<Rightarrow> old_client \<Rightarrow> old_client res" where
  "old_receive_loop 0 c = Inr c"
| "old_receive_loop (Suc n) c =
     (case oc_inbox c of
        [] \<Rightarrow> Inl Hang
      | d # inbox \<Rightarrow>
          bindr (old_show (map_option fst d)) (\<lambda>t.
          old_receive_loop n
            (c\<lparr>oc_inbox := inbox, oc_server := stored_addr (oc_server c) d, oc_shown := oc_shown c @ [t]\<rparr>)))"

fun old_burst_loop :: "nat \<Rightarrow> byte list \<Rightarrow> old_client \<Rightarrow> old_client res" where
  "old_burst_loop 0 msg c = Inr c"
| "old_burst_loop (Suc n) msg c =
     bindr (old_receive_loop OLD_BURST_SIZE (old_send_loop OLD_BURST_SIZE msg c)) (old_burst_loop n msg)"

definition old_client_main :: "byte list \<Rightarrow> sockaddr_in \<Rightarrow> datagram list \<Rightarrow> old_client res" where
  "old_client_main msg servaddr inbox =
     old_burst_loop OLD_BURST_NUMBER msg \<lparr>oc_server = servaddr, oc_sent = [], oc_shown = [], oc_inbox = inbox\<rparr>"

text \<open>The status \<open>main\<close> ends with, the calls it made on its socket, and what the client did.\<close>

definition old_client_program ::
  "socket_env \<Rightarrow> byte list list \<Rightarrow> datagram list \<Rightarrow> (int \<times> sock_call list \<times> old_client option) res" where
  "old_client_program se argv inbox =
     (case client_setup 4 se argv of
        (Stopped status, cs) \<Rightarrow> Inr (status, cs, None)
      | (Ready servaddr, cs) \<Rightarrow>
          bindr (old_client_main (argv ! 3) servaddr inbox) (\<lambda>c. Inr (0, cs @ [Close], Some c)))"

section \<open>What it does\<close>

text \<open>The datagram that can be printed, and its text.\<close>

definition showable :: "datagram \<Rightarrow> bool" where
  "showable d \<longleftrightarrow> (case d of None \<Rightarrow> False | Some (b, src) \<Rightarrow> length b < OLD_MAXLINE)"

definition old_text :: "datagram \<Rightarrow> byte list" where "old_text d = cstr (fst (the d))"

lemma old_show_ok: "showable d \<Longrightarrow> old_show (map_option fst d) = Inr (old_text d)"
  by (auto simp: showable_def old_show_def old_text_def split: option.splits)

lemma old_send_loop_eq: "old_send_loop n msg c = c\<lparr>oc_sent := oc_sent c @ replicate n (cstr msg, oc_server c)\<rparr>"
  by (induction n arbitrary: c) (simp_all add: replicate_app_Cons_same)

lemma old_receive_loop_eq:
  "list_all showable (oc_inbox c) \<Longrightarrow> old_receive_loop n c =
     (if n \<le> length (oc_inbox c)
      then Inr (c\<lparr>oc_server := foldl stored_addr (oc_server c) (take n (oc_inbox c)),
        oc_inbox := drop n (oc_inbox c), oc_shown := oc_shown c @ map old_text (take n (oc_inbox c))\<rparr>)
      else Inl Hang)"
proof (induction n arbitrary: c)
  case (Suc n)
  then show ?case by (cases "oc_inbox c") (simp_all add: old_show_ok)
qed simp

interpretation first: request_bursts "\<lambda>n. old_burst_loop n msg" "\<lambda>c. c" 4 "\<lambda>_. replicate 4 (cstr msg)" 0
    "\<lambda>_. True" "\<lambda>_. 0" oc_server oc_inbox oc_sent oc_shown showable old_text for msg
  by unfold_locales
    (auto simp: OLD_BURST_SIZE_def old_send_loop_eq old_receive_loop_eq showable_def intro!: exI)

text \<open>The first client, as a whole: it sends its message 200 times, four times to the middlebox
  and then each time to the sender of the last datagram it printed, and ends exactly when 200
  datagrams arrive.\<close>

theorem old_client_program_runs:
  assumes "client_setup 4 se [prog, dev, ip, msg] = (Ready servaddr, cs)" "list_all showable inbox"
  shows "if 200 \<le> length inbox
    then \<exists>c. old_client_program se [prog, dev, ip, msg] inbox = Inr (0, cs @ [Close], Some c) \<and>
      oc_sent c = concat (map (\<lambda>i. replicate 4 (cstr msg,
        if i = 0 then servaddr else sender (inbox ! (4 * i - 1)))) [0..<50]) \<and>
      oc_shown c = map old_text (take 200 inbox)
    else old_client_program se [prog, dev, ip, msg] inbox = Inl Hang"
proof -
  let ?c = "\<lparr>oc_server = servaddr, oc_sent = [], oc_shown = [], oc_inbox = inbox\<rparr>"
  have c: "oc_server ?c = servaddr" "oc_inbox ?c = inbox" "oc_sent ?c = []" "oc_shown ?c = []" by simp_all
  show ?thesis
    using first.run [of ?c 50 msg, unfolded c] assms
    by (auto simp: old_client_program_def old_client_main_def OLD_BURST_NUMBER_def split: if_splits simp del: upt_Suc)
qed

end
