(* ===== verification/Packet_Text.thy ===== *)
theory Packet_Text
  imports Packet
begin

text \<open>
  The rest of \<open>middlebox/src/utils.c\<close>: hardware addresses read from text
  (\<open>str_to_eth_addr\<close>) and the line \<open>pkt_dump\<close> prints of a packet.
\<close>

section \<open>Hexadecimal numbers\<close>

definition is_hex :: "byte \<Rightarrow> bool" where
  "is_hex b \<longleftrightarrow> is_digit b \<or> (65 \<le> b \<and> b \<le> 70) \<or> (97 \<le> b \<and> b \<le> 102)"

definition hex_digit_val :: "byte \<Rightarrow> nat" where
  "hex_digit_val b = (if is_digit b then unat b - 48 else if b \<le> 70 then unat b - 55 else unat b - 87)"

definition hex_val :: "byte list \<Rightarrow> nat" where
  "hex_val bs = foldl (\<lambda>a b. 16 * a + hex_digit_val b) 0 bs"

text \<open>The prefix \<open>0x\<close> counts as a digit 0 when no digit follows, as glibc reads it.\<close>

definition scan_prefix :: "byte list \<Rightarrow> bool \<times> byte list" where
  "scan_prefix s = (case s of
       z # x # r \<Rightarrow> if z = 48 \<and> (x = 120 \<or> x = 88) then (True, r) else (False, s)
     | _ \<Rightarrow> (False, s))"

definition scan_hhx :: "byte list \<Rightarrow> (byte \<times> byte list) option" where
  "scan_hhx s =
     (let (neg, r) = scan_sign (dropWhile is_space s);
          (prefix, r) = scan_prefix r;
          ds = takeWhile is_hex r
      in if ds = [] \<and> \<not> prefix then None
         else Some (ucast (strtoul_val neg (hex_val ds)), dropWhile is_hex r))"

text \<open>\<open>printf("%hhx")\<close>: small letters, no leading zero.\<close>

definition print_hex_digit :: "nat \<Rightarrow> byte" where
  "print_hex_digit d = (if d < 10 then word_of_nat (48 + d) else word_of_nat (87 + d))"

definition print_hhx :: "byte \<Rightarrow> byte list" where
  "print_hhx b =
     (if unat b < 16 then [print_hex_digit (unat b)]
      else [print_hex_digit (unat b div 16), print_hex_digit (unat b mod 16)])"

section \<open>Operations\<close>

definition sscanf_mac :: "byte list \<Rightarrow> byte list option" where
  "sscanf_mac s = do {
     (a, s) \<leftarrow> scan_hhx s;
     s \<leftarrow> scan_lit 58 s;
     (b, s) \<leftarrow> scan_hhx s;
     s \<leftarrow> scan_lit 58 s;
     (c, s) \<leftarrow> scan_hhx s;
     s \<leftarrow> scan_lit 58 s;
     (d, s) \<leftarrow> scan_hhx s;
     s \<leftarrow> scan_lit 58 s;
     (e, s) \<leftarrow> scan_hhx s;
     s \<leftarrow> scan_lit 58 s;
     (f, s) \<leftarrow> scan_hhx s;
     Some [a, b, c, d, e, f]
   }"

text \<open>The return value and the six bytes at \<open>dst\<close>, which a failed call leaves alone.\<close>

definition str_to_eth_addr :: "byte list \<Rightarrow> byte list \<Rightarrow> int \<times> byte list" where
  "str_to_eth_addr src dst =
     (case sscanf_mac (cstr src) of
        None \<Rightarrow> (- sint EINVAL, dst)
      | Some tmp \<Rightarrow> (0, tmp))"

definition pkt_dump :: "byte list \<Rightarrow> byte list res" where
  "pkt_dump pkt =
     bindr (rd 0 6 pkt) (\<lambda>dst_mac.
     bindr (rd 6 6 pkt) (\<lambda>src_mac.
     bindr (rd_le32 (14 + 12) pkt) (\<lambda>src_addr.
     bindr (rd_le32 (14 + 16) pkt) (\<lambda>dst_addr.
     Inr (str ''DST MAC: '' @ concat (map (\<lambda>b. print_hhx b @ [32]) dst_mac) @
          str '' SRC MAC: '' @ concat (map (\<lambda>b. print_hhx b @ [32]) src_mac) @
          str ''SRC IP: '' @ ip_addr_to_str src_addr @ [32] @
          str ''DST IP: '' @ ip_addr_to_str dst_addr @ [32] @ [10])))))"

section \<open>Properties\<close>

lemma less_16_cases:
  "d < 16 \<Longrightarrow> d \<in> {0, 1, 2, 3, 4, 5, 6, 7, 8, 9, 10, 11, 12, 13, 14, 15 :: nat}"
  by (simp add: less_Suc_eq numeral_eq_Suc)

lemma hex_digit_ok:
  assumes "d < 16"
  shows "is_hex (hex_digit d)" "hex_digit_val (hex_digit d) = d" "\<not> is_space (hex_digit d)"
    "hex_digit d \<noteq> 43" "hex_digit d \<noteq> 45" "hex_digit d \<noteq> 120" "hex_digit d \<noteq> 88" "hex_digit d \<noteq> 0"
  using less_16_cases [OF assms]
  by (auto simp: hex_digit_def is_hex_def is_digit_def hex_digit_val_def is_space_def)

lemma scan_hhx_byte:
  assumes "r = [] \<or> \<not> is_hex (hd r)"
  shows "scan_hhx (hex_byte b @ r) = Some (b, r)"
proof -
  let ?h = "unat b div 16" and ?l = "unat b mod 16"
  have h: "?h < 16" "?l < 16" using unat_byte_less [of b] by (simp_all add: less_mult_imp_div_less)
  note H = hex_digit_ok [OF h(1)] and L = hex_digit_ok [OF h(2)]
  have tail: "takeWhile is_hex r = []" "dropWhile is_hex r = r" using assms by (cases r; simp)+
  have "hex_val [hex_digit ?h, hex_digit ?l] = unat b" by (simp add: hex_val_def H(2) L(2))
  moreover have "ucast (word_of_nat (unat b) :: u64) = b"
    by (simp add: word_unat_eq_iff unsigned_ucast_eq unat_of_nat take_bit_word_eq_self)
  ultimately show ?thesis
    using H L tail unat_byte_less [of b]
    by (simp add: scan_hhx_def hex_byte_def scan_sign_def scan_prefix_def strtoul_val_def Let_def)
qed

lemma not_hex_colon [simp]: "\<not> is_hex 58"
  by (simp add: is_hex_def is_digit_def)

lemma list_of_6:
  assumes "length xs = 6"
  obtains a b c d e f where "xs = [a, b, c, d, e, f]"
  using assms by (auto simp: length_Suc_conv numeral_eq_Suc)

lemma hex_byte_no_nul: "0 \<notin> set (hex_byte b)"
proof -
  have "unat b div 16 < 16" "unat b mod 16 < 16" using unat_byte_less [of b] by (simp_all add: less_mult_imp_div_less)
  from this [THEN hex_digit_ok(8)] show ?thesis by (auto simp: hex_byte_def)
qed

lemma mac_text_no_nul: "0 \<notin> set (mac_text bs)"
  by (induction bs rule: mac_text.induct) (simp_all add: hex_byte_no_nul)

text \<open>Reading the text of a hardware address gives the address back.\<close>

theorem str_to_eth_addr_mac_text:
  assumes "length mac = 6"
  shows "str_to_eth_addr (mac_text mac) dst = (0, mac)"
proof -
  obtain a b c d e f where mac: "mac = [a, b, c, d, e, f]" using assms by (rule list_of_6)
  have "sscanf_mac (mac_text mac) = Some mac"
    using scan_hhx_byte [of "[]" f] by (simp add: mac sscanf_mac_def scan_hhx_byte)
  then show ?thesis using mac_text_no_nul [of mac] by (simp add: str_to_eth_addr_def cstr_no_nul)
qed

lemma of_le_octets: "of_le [a, b, c, d] = RTE_IPV4 d c b a"
  by (simp add: RTE_IPV4_def of_le_def)

text \<open>The addresses \<open>pkt_dump\<close> prints have their octets in reverse: it prints the network-order
  fields as if they were in host order.\<close>

theorem pkt_dump_reverses_addresses:
  assumes "length dst_mac = 6" "length src_mac = 6" "length h = 14"
  shows "pkt_dump (dst_mac @ src_mac @ h @ to_be32 (RTE_IPV4 a b c d) @ to_be32 (RTE_IPV4 a' b' c' d') @ r) =
    Inr (str ''DST MAC: '' @ concat (map (\<lambda>b. print_hhx b @ [32]) dst_mac) @
         str '' SRC MAC: '' @ concat (map (\<lambda>b. print_hhx b @ [32]) src_mac) @
         str ''SRC IP: '' @ ip_addr_to_str (RTE_IPV4 d c b a) @ [32] @
         str ''DST IP: '' @ ip_addr_to_str (RTE_IPV4 d' c' b' a') @ [32] @ [10])"
  using assms by (simp add: pkt_dump_def rd_le32_def rd_def of_le_octets)

end
