(* ===== verification/Requests.thy ===== *)
theory Requests
  imports Behaviour "HOL-Library.Multiset"
begin

text \<open>
  Requests of several keys: every key of a request waits under its own signature with a packet
  of its own, the packet itself for the first key and a copy from the small pool for each other
  one; the replies may come in any order.
\<close>

section \<open>Copies of a client's packet\<close>

text \<open>The small pool (\<open>config.h\<close>) and the room its buffers have beyond DPDK's default headroom.\<close>

definition SMALL_MBUFS_SIZE :: nat where "SMALL_MBUFS_SIZE = 256"
definition NUM_SMALL_MBUFS :: nat where "NUM_SMALL_MBUFS = 1000"
definition RTE_PKTMBUF_HEADROOM :: nat where "RTE_PKTMBUF_HEADROOM = 128"

text \<open>
  A packet that fits one buffer of the small pool is copied into one new buffer, as long as the
  pool has any.
\<close>

definition small_copies :: "('h, 'e) app_env_scheme \<Rightarrow> bool" where
  "small_copies e \<longleftrightarrow>
     (\<forall>M m b. M m = Some b \<longrightarrow> unat (mb_pkt_len b) + RTE_PKTMBUF_HEADROOM \<le> SMALL_MBUFS_SIZE \<longrightarrow>
        finite (dom M) \<longrightarrow> card (dom M) < NUM_SMALL_MBUFS \<longrightarrow>
        (\<exists>c b'. pktmbuf_copy e Small_mbuf_pool m M = (c, M(c := Some b')) \<and> c \<noteq> 0 \<and> M c = None \<and>
           mb_next b' = 0 \<and> take (unat (mb_pkt_len b)) (mb_data b') = take (unat (mb_pkt_len b)) (mb_data b)))"

lemma rd_take:
  assumes "take n a = take n b" "off + k \<le> n" "rd off k a = Inr x"
  shows "rd off k b = Inr x"
proof -
  have "off + k \<le> length a" "x = take k (drop off a)" using assms(3) by (auto simp: rd_def split: if_splits)
  moreover have "min n (length a) = min n (length b)" using arg_cong [OF assms(1), of length] by (simp add: min.commute)
  then have "off + k \<le> length b" using \<open>off + k \<le> length a\<close> assms(2) by linarith
  moreover have "k \<le> n - off" using assms(2) by simp
  then have "take k (drop off a) = take k (drop off b)"
    using arg_cong [OF assms(1), of "\<lambda>x. take k (drop off x)"] by (simp add: drop_take min_absorb1)
  ultimately show ?thesis by (simp add: rd_def)
qed

text \<open>A client's packet of ordinary size, not linked to another.\<close>

definition small_packet :: "'z net_state_scheme \<Rightarrow> u64 \<Rightarrow> u16 \<Rightarrow> u32 \<Rightarrow> byte list \<Rightarrow> bool" where
  "small_packet s m rid src mac \<longleftrightarrow>
     (\<exists>b. waiting s m b rid src mac \<and> mb_next b = 0 \<and> 44 \<le> unat (mb_pkt_len b) \<and>
        unat (mb_pkt_len b) + RTE_PKTMBUF_HEADROOM \<le> SMALL_MBUFS_SIZE)"

lemma small_packet_other:
  assumes "mbufs s' m = mbufs s m" "known_haddrs s' = known_haddrs s"
  shows "small_packet s' m rid src mac = small_packet s m rid src mac"
  by (simp add: small_packet_def waiting_other [OF assms])

lemma waiting_copy:
  assumes "waiting s m b rid src mac" "take n (mb_data b) = take n (mb_data b')" "44 \<le> n"
    and "mbufs s' c = Some b'" "c \<noteq> 0" "known_haddrs s' = known_haddrs s"
  shows "waiting s' c b' rid src mac"
proof -
  note copied = rd_take [OF assms(2)]
  obtain ihl dl where w: "rd 14 1 (mb_data b) = Inr [ihl]" "ihl AND 0x0f = 5"
    "rd_be16 38 (mb_data b) = Inr dl" "8 \<le> unat dl" "unat dl \<le> 1480"
    "rd_be16 42 (mb_data b) = Inr rid" "rd_be32 26 (mb_data b) = Inr src"
    "arp_lookup_mac s src = Some mac" "length mac = 6"
    using assms(1) by (auto simp: waiting_def)
  have "rd_be16 38 (mb_data b') = Inr dl" "rd_be16 42 (mb_data b') = Inr rid" "rd_be32 26 (mb_data b') = Inr src"
    using w(3,6,7) assms(3) copied [of 38 2] copied [of 42 2] copied [of 26 4]
    by (force simp: rd_be16_def rd_be32_def bindr_eq_Inr)+
  moreover have "rd 14 1 (mb_data b') = Inr [ihl]" by (rule copied [OF _ w(1)]) (use assms(3) in simp)
  moreover have "arp_lookup_mac s' src = Some mac" using w(8) assms(6) by (simp add: arp_lookup_mac_def)
  ultimately show ?thesis using w assms(4,5) unfolding waiting_def by blast
qed

text \<open>The buffer a key of the request is registered with.\<close>

lemma key_buffer_ok:
  assumes e: "small_copies e" and m: "small_packet s m rid src mac"
    and room: "finite (dom (mbufs s))" "card (dom (mbufs s)) < NUM_SMALL_MBUFS"
  shows "\<exists>c M. key_buffer e i m (mbufs s) = (c, M) \<and> (if i = 0 then c = m else mbufs s c = None) \<and>
     (\<forall>a. a \<noteq> c \<longrightarrow> M a = mbufs s a) \<and> M m = mbufs s m \<and> M c \<noteq> None \<and>
     chain (s\<lparr>mbufs := M\<rparr>) c [(c, rid, src, mac)] \<and>
     finite (dom M) \<and> card (dom M) \<le> Suc (card (dom (mbufs s)))"
proof -
  obtain b where b: "waiting s m b rid src mac" "mb_next b = 0" "44 \<le> unat (mb_pkt_len b)"
    "unat (mb_pkt_len b) + RTE_PKTMBUF_HEADROOM \<le> SMALL_MBUFS_SIZE" "mbufs s m = Some b"
    using m by (auto simp: small_packet_def waiting_def)
  show ?thesis
  proof (cases "i = 0")
    case True
    then show ?thesis
      using b room by (intro exI [of _ m] exI [of _ "mbufs s"]) (auto simp: key_buffer_def)
  next
    case False
    obtain c b' where c: "pktmbuf_copy e Small_mbuf_pool m (mbufs s) = (c, (mbufs s)(c := Some b'))" "c \<noteq> 0"
      "mbufs s c = None" "mb_next b' = 0" "take (unat (mb_pkt_len b)) (mb_data b') = take (unat (mb_pkt_len b)) (mb_data b)"
      using e b(4,5) room unfolding small_copies_def by meson
    let ?M = "(mbufs s)(c := Some b')"
    have "waiting (s\<lparr>mbufs := ?M\<rparr>) c b' rid src mac"
      by (rule waiting_copy [OF b(1) c(5) [symmetric] b(3)]) (simp_all add: c(2))
    then have "chain (s\<lparr>mbufs := ?M\<rparr>) c [(c, rid, src, mac)]" using c(4) by auto
    then show ?thesis
      using False c(1,3) b(5) room
      by (intro exI [of _ c] exI [of _ ?M]) (auto simp: key_buffer_def card_insert_le_m1 card_insert_if)
  qed
qed

section \<open>Places in the queue\<close>

text \<open>The next \<open>n\<close> places to be given away hold none of the signatures \<open>P\<close>.\<close>

definition spared :: "nat \<Rightarrow> byte list set \<Rightarrow> 'h app_state \<Rightarrow> bool" where
  "spared n P s \<longleftrightarrow> (\<forall>j < n. LRU_queue s ((LRU_ptr s + j) mod MAP_ENTRIES) \<notin> P)"

lemma spared_fresh: "P \<inter> LRU_queue s ` {..<MAP_ENTRIES} = {} \<Longrightarrow> spared n P s"
  by (auto simp: spared_def MAP_ENTRIES_def)

lemma spared_step:
  assumes "spared (Suc n) P s" "Suc n \<le> MAP_ENTRIES" "LRU_ptr s < MAP_ENTRIES"
    and t: "LRU_queue t = (LRU_queue s)(LRU_ptr s := x)" "LRU_ptr t = (LRU_ptr s + 1) mod MAP_ENTRIES"
  shows "LRU_queue s (LRU_ptr s) \<notin> P" "spared n P t"
proof -
  show "LRU_queue s (LRU_ptr s) \<notin> P" using assms(1,3) by (auto simp: spared_def dest: spec [of _ 0])
  have "(LRU_ptr s + Suc j) mod MAP_ENTRIES \<noteq> LRU_ptr s" if "j < n" for j
    using that assms(2,3) by (cases "LRU_ptr s + Suc j < MAP_ENTRIES") (simp_all add: mod_if, linarith)
  moreover have "LRU_queue s ((LRU_ptr s + Suc j) mod MAP_ENTRIES) \<notin> P" if "j < n" for j
    using assms(1) [unfolded spared_def, rule_format, of "Suc j"] that by simp
  ultimately show "spared n P t" by (simp add: spared_def t mod_add_left_eq mod_Suc_eq)
qed

section \<open>Collecting the keys of a request\<close>

definition merge_keys :: "byte list list \<Rightarrow> byte list list \<Rightarrow> byte list list" where
  "merge_keys us ks = fold (\<lambda>k us. if k \<in> set us then us else us @ [k]) ks us"

lemma merge_keys_simps [simp]:
  "merge_keys us [] = us"
  "merge_keys us (k # ks) = merge_keys (if k \<in> set us then us else us @ [k]) ks"
  by (simp_all add: merge_keys_def)

lemma set_merge_keys: "set (merge_keys us ks) = set us \<union> set ks"
  by (induction ks arbitrary: us) auto

lemma merge_keys_new: "distinct (us @ ks) \<Longrightarrow> merge_keys us ks = us @ ks"
  by (induction ks arbitrary: us) auto

lemma merge_keys_len: "request_text_len (merge_keys us ks) \<le> request_text_len (us @ ks)"
proof (induction ks arbitrary: us)
  case (Cons k ks)
  show ?case
    using Cons.IH [of us] Cons.IH [of "us @ [k]"] by (auto simp: request_text_len_def)
qed simp

text \<open>A signature one client waits under, with a packet that is not linked to another.\<close>

definition waits_alone ::
  "('h, 'e) app_env_scheme \<Rightarrow> 'h app_state \<Rightarrow> byte list \<Rightarrow> u64 \<Rightarrow> u16 \<Rightarrow> u32 \<Rightarrow> byte list \<Rightarrow> bool" where
  "waits_alone e s sig c rid src mac \<longleftrightarrow>
     (\<exists>slot. hash_lookup_data e (client_pkts s) sig = Some (slot, c) \<and> slot < MAP_ENTRIES \<and>
        pkt_counts s slot = 1) \<and> chain s c [(c, rid, src, mac)]"

text \<open>What the loop over the keys leaves of the state it starts in.\<close>

definition collected :: "'h app_state \<Rightarrow> 'h app_state \<Rightarrow> bool" where
  "collected s t \<longleftrightarrow> request_id t = request_id s \<and> known_haddrs t = known_haddrs s \<and>
     memcached_pkt t = memcached_pkt s \<and> outstanding_req t = outstanding_req s \<and>
     (\<forall>a. mbufs s a \<noteq> None \<longrightarrow> mbufs t a = mbufs s a) \<and>
     (\<forall>i. pkt_counts t i = pkt_counts s i \<or> pkt_counts t i = 1)"

lemma collected_trans: "collected s t \<Longrightarrow> collected t u \<Longrightarrow> collected s u"
  unfolding collected_def by (intro conjI allI; metis)

lemma waits_alone_collected:
  assumes "waits_alone e s sig c rid src mac" "collected s t"
    and "hash_lookup_data e (client_pkts t) sig = hash_lookup_data e (client_pkts s) sig"
  shows "waits_alone e t sig c rid src mac"
proof -
  have "mbufs t c = mbufs s c" using assms(1,2) by (auto simp: waits_alone_def collected_def waiting_def)
  then have "chain t c [(c, rid, src, mac)] = chain s c [(c, rid, src, mac)]"
    using assms(2) by (intro chain_other) (simp_all add: collected_def)
  moreover obtain slot where "hash_lookup_data e (client_pkts s) sig = Some (slot, c)" "slot < MAP_ENTRIES"
    "pkt_counts s slot = 1" using assms(1) by (auto simp: waits_alone_def)
  moreover from this have "pkt_counts t slot = 1" using assms(2) by (metis collected_def)
  ultimately show ?thesis
    using assms(1,3) by (auto simp: waits_alone_def)
qed

lemma group_open:
  assumes grp: "if k \<in> set (ukeys s) then group_inv t else group_pending t"
      "ukeys t = (if k \<in> set (ukeys s) then ukeys s else ukeys s @ [k])"
    and fits: "request_text_len (ukeys s @ [k]) \<le> MAX_PAYLOAD_LEN"
  shows "\<not> group_full t"
proof -
  have "group_base t" "unat (ukey_len t) \<le> 600"
    using grp(1) group_inv_len [of t] group_pending_len [of t]
    by (auto simp: group_inv_def group_pending_def split: if_splits)
  then have "group_full t \<longleftrightarrow> MAX_PAYLOAD_LEN < request_text_len (ukeys t)"
    by (simp add: group_full_iff request_text_len_def del: length_ukeys)
  moreover have "request_text_len (ukeys t) \<le> request_text_len (ukeys s @ [k])"
    by (simp add: grp(2) request_text_len_def del: length_ukeys)
  ultimately show ?thesis using fits by linarith
qed

lemma client_key_collects:
  assumes env: "hash_ok e" "small_copies e" and m: "small_packet s m rid src mac"
    and inv: "lru_inv e s" "group_inv s"
    and k: "key_ok k" "length k \<le> 1400" and fits: "request_text_len (ukeys s @ [k]) \<le> MAX_PAYLOAD_LEN"
    and new: "hash_lookup_data e (client_pkts s) (signature (request_id s) k) = None"
    and queue: "spared (Suc n) P s" "Suc n \<le> MAP_ENTRIES"
    and room: "finite (dom (mbufs s))" "card (dom (mbufs s)) < NUM_SMALL_MBUFS"
  shows "\<exists>t c. client_key e m i k s = Inr t \<and> lru_inv e t \<and> group_inv t \<and> ukeys t = merge_keys (ukeys s) [k] \<and>
     collected s t \<and> waits_alone e t (signature (request_id s) k) c rid src mac \<and>
     (if i = 0 then c = m else mbufs s c = None) \<and> mbufs t c \<noteq> None \<and>
     calls (trace t) = calls (trace s) @ evicted e s \<and> spared n P t \<and>
     LRU_queue s (LRU_ptr s) \<notin> P \<and>
     (\<forall>k'. k' \<noteq> signature (request_id s) k \<longrightarrow> hash_lookup_data e (client_pkts t) k' =
        (if k' = LRU_queue s (LRU_ptr s) then None else hash_lookup_data e (client_pkts s) k')) \<and>
     finite (dom (mbufs t)) \<and> card (dom (mbufs t)) \<le> Suc (card (dom (mbufs s)))"
proof -
  obtain c M where c: "key_buffer e i m (mbufs s) = (c, M)" "if i = 0 then c = m else mbufs s c = None"
    "\<forall>a. a \<noteq> c \<longrightarrow> M a = mbufs s a" "M m = mbufs s m" "M c \<noteq> None"
    "chain (s\<lparr>mbufs := M\<rparr>) c [(c, rid, src, mac)]" "finite (dom M)" "card (dom M) \<le> Suc (card (dom (mbufs s)))"
    using key_buffer_ok [OF env(2) m room] by blast
  obtain t slot where step: "client_key e m i k s =
       (if group_full t then construct_pkt_and_send_to_server e True t else Inr t)"
    and grp: "if k \<in> set (ukeys s) then group_inv t else group_pending t"
      "ukeys t = (if k \<in> set (ukeys s) then ukeys s else ukeys s @ [k])"
    and t: "request_id t = request_id s"
      "calls (trace t) = calls (trace s) @ evicted e s" "slot < MAP_ENTRIES" "pkt_counts t slot = 1"
      "hash_lookup_data e (client_pkts t) (signature (request_id s) k) = Some (slot, c)"
      "\<forall>k'. k' \<noteq> signature (request_id s) k \<longrightarrow> hash_lookup_data e (client_pkts t) k' =
        (if k' = LRU_queue s (LRU_ptr s) then None else hash_lookup_data e (client_pkts s) k')"
      "\<forall>i. i \<noteq> slot \<longrightarrow> pkt_counts t i = pkt_counts s i"
    and q: "LRU_queue t = (LRU_queue s)(LRU_ptr s := signature (request_id s) k)"
      "LRU_ptr t = (LRU_ptr s + 1) mod MAP_ENTRIES" "lru_inv e t"
    and same: "mbufs t = M" "known_haddrs t = known_haddrs s" "memcached_pkt t = memcached_pkt s"
      "outstanding_req t = outstanding_req s"
    using client_key_adds [OF env(1) inv k(1) signature_fits [OF k(2)] new c(1)] by blast
  have open_: "\<not> group_full t" by (rule group_open [OF grp fits])
  then have run: "client_key e m i k s = Inr t" "group_inv t"
    using step grp(1) group_pending_inv by (auto split: if_splits)
  have "LRU_ptr s < MAP_ENTRIES" using inv(1) by (simp add: lru_inv_def)
  note sp = spared_step [OF queue this q(1,2)]
  have "chain t c [(c, rid, src, mac)]"
    using c(6) by (subst chain_other [of _ t "s\<lparr>mbufs := M\<rparr>"]) (simp_all add: same)
  then have "waits_alone e t (signature (request_id s) k) c rid src mac"
    using t(3-5) by (auto simp: waits_alone_def)
  moreover have "collected s t"
    unfolding collected_def using t(1,4,7) same c(2-4) by (metis)
  ultimately show ?thesis
    using run q(3) grp(2) c t(2,6) sp same(1) by (intro exI [of _ t] exI [of _ c]) auto
qed

lemma small_packet_collected: "small_packet s m rid src mac \<Longrightarrow> collected s t \<Longrightarrow> small_packet t m rid src mac"
  by (subst small_packet_other [of t m s]) (auto simp: collected_def small_packet_def waiting_def)

lemma client_keys_collect:
  assumes env: "hash_ok e" "small_copies e"
    and "small_packet s m rid src mac" "lru_inv e s" "group_inv s"
    and "distinct ks" "\<forall>k \<in> set ks. key_ok k \<and> length k \<le> 1400"
    and "request_text_len (ukeys s @ ks) \<le> MAX_PAYLOAD_LEN"
    and P: "signature (request_id s) ` set ks \<subseteq> P"
    and "\<forall>k \<in> set ks. hash_lookup_data e (client_pkts s) (signature (request_id s) k) = None"
    and "spared (length ks) P s" "length ks \<le> MAP_ENTRIES"
    and "finite (dom (mbufs s))" "card (dom (mbufs s)) + length ks \<le> NUM_SMALL_MBUFS"
  shows "\<exists>t heads evs. client_keys e m i ks s = Inr t \<and> lru_inv e t \<and> group_inv t \<and>
     ukeys t = merge_keys (ukeys s) ks \<and> collected s t \<and>
     finite (dom (mbufs t)) \<and> card (dom (mbufs t)) \<le> card (dom (mbufs s)) + length ks \<and>
     calls (trace t) = calls (trace s) @ evs \<and>
     (\<forall>ev \<in> set evs. \<exists>k p c. hash_lookup_data e (client_pkts s) k = Some (p, c) \<and> k \<notin> P \<and> ev = Free c) \<and>
     (\<forall>k \<in> set ks. waits_alone e t (signature (request_id s) k) (heads k) rid src mac \<and>
        (if i = 0 \<and> k = hd ks then heads k = m else mbufs s (heads k) = None)) \<and> inj_on heads (set ks) \<and>
     (\<forall>k. hash_lookup_data e (client_pkts t) k = hash_lookup_data e (client_pkts s) k \<or>
        k \<notin> P \<and> hash_lookup_data e (client_pkts t) k = None \<or> k \<in> signature (request_id s) ` set ks)"
  using assms(3-)
proof (induction ks arbitrary: s i)
  case Nil
  then show ?case by (intro exI [of _ s] exI [of _ "\<lambda>_. 0"] exI [of _ "[]"]) (simp add: collected_def)
next
  case (Cons k ks)
  let ?id = "request_id s" and ?old = "LRU_queue s (LRU_ptr s)"
  have k: "key_ok k" "length k \<le> 1400" "request_text_len (ukeys s @ [k]) \<le> MAX_PAYLOAD_LEN"
    "hash_lookup_data e (client_pkts s) (signature ?id k) = None"
    "spared (Suc (length ks)) P s" "Suc (length ks) \<le> MAP_ENTRIES" "card (dom (mbufs s)) < NUM_SMALL_MBUFS"
    using Cons.prems by (simp_all add: request_text_len_def del: length_ukeys)
  obtain t c where t: "client_key e m i k s = Inr t" "lru_inv e t" "group_inv t" "ukeys t = merge_keys (ukeys s) [k]"
    "collected s t" "waits_alone e t (signature ?id k) c rid src mac" "if i = 0 then c = m else mbufs s c = None"
    "mbufs t c \<noteq> None" "calls (trace t) = calls (trace s) @ evicted e s" "spared (length ks) P t" "?old \<notin> P"
    "\<forall>k'. k' \<noteq> signature ?id k \<longrightarrow> hash_lookup_data e (client_pkts t) k' =
        (if k' = ?old then None else hash_lookup_data e (client_pkts s) k')"
    "finite (dom (mbufs t))" "card (dom (mbufs t)) \<le> Suc (card (dom (mbufs s)))"
    using client_key_collects [OF env Cons.prems(1-3) k(1-6) Cons.prems(11) k(7), of i] by metis
  have id: "request_id t = ?id" using t(5) by (simp add: collected_def)
  have other: "signature ?id k' \<noteq> signature ?id k" if "k' \<in> set ks" for k'
    using that Cons.prems(4) signature_inj by fastforce
  have fits: "request_text_len (ukeys t @ ks) \<le> MAX_PAYLOAD_LEN"
    using Cons.prems(6) by (auto simp: t(4) request_text_len_def simp del: length_ukeys)
  have new: "\<forall>k' \<in> set ks. hash_lookup_data e (client_pkts t) (signature (request_id t) k') = None"
    using Cons.prems(8) t(12) other by (simp add: id)
  have P: "signature (request_id t) ` set ks \<subseteq> P" using Cons.prems(7) by (simp add: id)
  have room: "card (dom (mbufs t)) + length ks \<le> NUM_SMALL_MBUFS" "length ks \<le> MAP_ENTRIES"
    using Cons.prems(10,12) t(14) by simp_all
  from Cons.IH [OF small_packet_collected [OF Cons.prems(1) t(5)] t(2,3) _ _ fits P new t(10) room(2) t(13) room(1), of "Suc i"]
  obtain u heads evs where u: "client_keys e m (Suc i) ks t = Inr u" "lru_inv e u" "group_inv u"
    "ukeys u = merge_keys (ukeys t) ks" "collected t u" "calls (trace u) = calls (trace t) @ evs"
    "\<forall>ev \<in> set evs. \<exists>k p c. hash_lookup_data e (client_pkts t) k = Some (p, c) \<and> k \<notin> P \<and> ev = Free c"
    "\<forall>k \<in> set ks. waits_alone e u (signature ?id k) (heads k) rid src mac \<and> mbufs t (heads k) = None"
    "inj_on heads (set ks)"
    "\<forall>k. hash_lookup_data e (client_pkts u) k = hash_lookup_data e (client_pkts t) k \<or>
        k \<notin> P \<and> hash_lookup_data e (client_pkts u) k = None \<or> k \<in> signature ?id ` set ks"
    and dom_u: "finite (dom (mbufs u))" "card (dom (mbufs u)) \<le> card (dom (mbufs t)) + length ks"
    using Cons.prems(4,5) unfolding id by auto
  let ?evs = "evicted e s @ evs"
  define hs where "hs = heads(k := c)"
  have "k \<notin> set ks" using Cons.prems(4) by simp
  have keep: "mbufs s a = None" if "mbufs t a = None" for a using that t(5) by (metis collected_def)
  have sigk: "signature ?id k \<in> P" "signature ?id k \<notin> signature ?id ` set ks"
    using Cons.prems(7) other by (simp, metis image_iff)
  then have "hash_lookup_data e (client_pkts u) (signature ?id k) = hash_lookup_data e (client_pkts t) (signature ?id k)"
    using u(10) by metis
  then have "waits_alone e u (signature ?id k) c rid src mac" by (rule waits_alone_collected [OF t(6) u(5)])
  then have heads: "\<forall>k' \<in> set (k # ks). waits_alone e u (signature ?id k') (hs k') rid src mac \<and>
      (if i = 0 \<and> k' = hd (k # ks) then hs k' = m else mbufs s (hs k') = None)"
    using u(8) t(7) keep \<open>k \<notin> set ks\<close> by (auto simp: hs_def split: if_splits)
  have inj: "inj_on hs (set (k # ks))"
    using u(8,9) t(8) \<open>k \<notin> set ks\<close> by (auto simp: inj_on_def hs_def)
  have "\<exists>k p c. hash_lookup_data e (client_pkts s) k = Some (p, c) \<and> k \<notin> P \<and> ev = Free c" if "ev \<in> set ?evs" for ev
  proof (cases "ev \<in> set evs")
    case True
    then obtain k' p d where "hash_lookup_data e (client_pkts t) k' = Some (p, d)" "k' \<notin> P" "ev = Free d" using u(7) by blast
    then show ?thesis using t(12) sigk(1) by (metis option.distinct(1))
  next
    case False
    then have "ev \<in> set (evicted e s)" using that by simp
    then obtain p d where "hash_lookup_data e (client_pkts s) ?old = Some (p, d)" "ev = Free d"
      by (cases "hash_lookup_data e (client_pkts s) ?old") (auto simp: evicted_def)
    then show ?thesis using t(11) by blast
  qed
  moreover have "\<forall>k'. hash_lookup_data e (client_pkts u) k' = hash_lookup_data e (client_pkts s) k' \<or>
        k' \<notin> P \<and> hash_lookup_data e (client_pkts u) k' = None \<or> k' \<in> signature ?id ` set (k # ks)"
    using u(10) t(11,12) by (simp only: list.set image_insert insert_iff) metis
  ultimately show ?case
    using t(1,4,9,14) u(1-4,6) dom_u collected_trans [OF t(5) u(5)] heads inj
    by (intro exI [of _ u] exI [of _ hs] exI [of _ ?evs]) (simp add: bindr_eq_Inr)
qed

section \<open>A request of several keys\<close>

lemma server_ready_collected:
  assumes "server_ready s mac" "collected s t"
  shows "server_ready t mac"
proof -
  have "mbufs t (memcached_pkt s) = mbufs s (memcached_pkt s)"
    using assms by (auto simp: server_ready_def collected_def)
  then show ?thesis using assms by (simp add: server_ready_def collected_def arp_lookup_mac_def)
qed

text \<open>The hypotheses on a request: new words, with buffers to copy the packet for each.\<close>

definition new_request ::
  "('h, 'e) app_env_scheme \<Rightarrow> 'h app_state \<Rightarrow> u64 \<Rightarrow> u16 \<Rightarrow> u32 \<Rightarrow> byte list \<Rightarrow> byte list list \<Rightarrow> bool" where
  "new_request e s m crid src mac ks \<longleftrightarrow>
     (\<exists>z. request_at s m crid (str ''gets'' @ spaced ks) z) \<and> small_packet s m crid src mac \<and>
     (\<exists>b. mbufs s m = Some b \<and> 56 + length (spaced ks) \<le> unat (mb_pkt_len b)) \<and>
     ks \<noteq> [] \<and> distinct ks \<and> list_all key_text ks \<and>
     request_text_len (ukeys s @ ks) < MAX_PAYLOAD_LEN \<and>
     list_all (\<lambda>k. signature (request_id s) k \<notin> LRU_queue s ` {..<MAP_ENTRIES}) ks \<and>
     finite (dom (mbufs s)) \<and> card (dom (mbufs s)) + length ks \<le> NUM_SMALL_MBUFS \<and>
     memcached_pkt s \<noteq> 0 \<and> m \<noteq> memcached_pkt s"

lemma new_request_keys:
  assumes "new_request e s m crid src mac ks"
  shows "length ks \<le> 72" "\<forall>k \<in> set ks. key_text k \<and> key_ok k \<and> length k \<le> 1400"
proof -
  have "length (spaced ks) \<le> 72"
    using assms by (auto simp: new_request_def small_packet_def waiting_def RTE_PKTMBUF_HEADROOM_def SMALL_MBUFS_SIZE_def)
  then have sum: "sum_list (map length ks) + length ks \<le> 72" by (simp add: length_spaced)
  then show "length ks \<le> 72" by simp
  show "\<forall>k \<in> set ks. key_text k \<and> key_ok k \<and> length k \<le> 1400"
    using assms sum member_le_sum_list [of _ "map length ks"]
    by (fastforce simp: new_request_def list_all_iff key_text_def key_ok_def)
qed

lemma request_words:
  assumes "request_at s m crid (str ''gets'' @ spaced ks) z" "ks \<noteq> []" "\<forall>k \<in> set ks. key_text k" "length ks \<le> 72"
  shows "strip_keys ((str ''gets'' @ spaced ks) @ r) (word_of_nat (length (str ''gets'' @ spaced ks))) = Inr ks"
proof -
  obtain t ts where ks: "ks = t # ts" using assms(2) by (cases ks) auto
  have "length (str ''gets'' @ spaced ks) \<le> 1462" using assms(1) by (simp add: request_at_def)
  then have "unat (word_of_nat (length (str ''gets'' @ spaced ks)) :: u16) = length (str ''gets'') + length (spaced (t # ts))"
    by (subst unat_small_u16) (simp_all add: ks)
  from strip_keys_words [OF _ _ _ _ this, of r] show ?thesis
    using assms(3,4) fill_keys_words [of ks "[]"]
    by (fastforce simp: ks key_text_def MAX_KEY_PER_PACKET_def)
qed

text \<open>After the loop: the keys are collected, each client waits alone, only old clients are dropped.\<close>

lemma request_collected:
  assumes env: "hash_ok e" "small_copies e" and inv: "lru_inv e s" "group_inv s"
    and req: "new_request e s m crid src mac ks"
  shows "\<exists>t heads evs. app_client_in e m 34 a s =
       (if unat (outstanding_req s) < MIN_OUTSTANDING_REQ then construct_pkt_and_send_to_server e False t else Inr t) \<and>
     lru_inv e t \<and> group_inv t \<and> ukeys t = merge_keys (ukeys s) ks \<and> collected s t \<and>
     finite (dom (mbufs t)) \<and> card (dom (mbufs t)) \<le> card (dom (mbufs s)) + length ks \<and>
     calls (trace t) = calls (trace s) @ map Free evs \<and>
     (\<forall>c \<in> set evs. \<exists>k p. hash_lookup_data e (client_pkts s) k = Some (p, c)) \<and>
     (\<forall>k \<in> set ks. waits_alone e t (signature (request_id s) k) (heads k) crid src mac \<and>
        (heads k = m \<or> mbufs s (heads k) = None)) \<and> heads (hd ks) = m \<and> inj_on heads (set ks)"
proof -
  obtain z where r: "request_at s m crid (str ''gets'' @ spaced ks) z" "small_packet s m crid src mac" "ks \<noteq> []" "distinct ks"
    "request_text_len (ukeys s @ ks) < MAX_PAYLOAD_LEN" "finite (dom (mbufs s))"
    "card (dom (mbufs s)) + length ks \<le> NUM_SMALL_MBUFS" "memcached_pkt s \<noteq> 0"
    and fresh: "\<forall>k \<in> set ks. signature (request_id s) k \<notin> LRU_queue s ` {..<MAP_ENTRIES}"
    using req by (auto simp: new_request_def list_all_iff)
  note keys = new_request_keys [OF req]
  let ?P = "signature (request_id s) ` set ks"
  have new: "\<forall>k \<in> set ks. hash_lookup_data e (client_pkts s) (signature (request_id s) k) = None"
    using fresh inv(1) unfolding lru_inv_def hash_keys_def by blast
  have queue: "spared (length ks) ?P s" by (rule spared_fresh) (use fresh in auto)
  have "length ks \<le> MAP_ENTRIES" using keys(1) by (simp add: MAP_ENTRIES_def)
  from client_keys_collect [OF env r(2) inv r(4) _ _ subset_refl new queue this r(6,7), of 0]
  obtain t heads evs where t: "client_keys e m 0 ks s = Inr t" "lru_inv e t" "group_inv t"
    "ukeys t = merge_keys (ukeys s) ks" "collected s t" "calls (trace t) = calls (trace s) @ evs"
    "\<forall>ev \<in> set evs. \<exists>k p c. hash_lookup_data e (client_pkts s) k = Some (p, c) \<and> k \<notin> ?P \<and> ev = Free c"
    "\<forall>k \<in> set ks. waits_alone e t (signature (request_id s) k) (heads k) crid src mac \<and>
        (if k = hd ks then heads k = m else mbufs s (heads k) = None)" "inj_on heads (set ks)"
    and dom_t: "finite (dom (mbufs t))" "card (dom (mbufs t)) \<le> card (dom (mbufs s)) + length ks"
    using keys(2) r(5) by auto
  define freed where "freed = map (\<lambda>ev. case ev of Free c \<Rightarrow> c | _ \<Rightarrow> 0) evs"
  have freed: "evs = map Free freed" "\<forall>c \<in> set freed. \<exists>k p. hash_lookup_data e (client_pkts s) k = Some (p, c)"
    using t(7) by (auto simp: freed_def intro!: map_idI [symmetric]) fastforce+
  have "mbufs (init_memcached_pkt e m s) m = mbufs s m" "init_memcached_pkt e m s = s"
    using r(8) by (simp_all add: init_memcached_pkt_def)
  then have "app_client_in e m 34 a s =
      (if unat (outstanding_req s) < MIN_OUTSTANDING_REQ then construct_pkt_and_send_to_server e False t else Inr t)"
    using app_client_in_reads [OF r(1), of e a] request_words [OF r(1,3) _ keys(1)] keys(2) t(1,5)
    by (simp add: collected_def)
  moreover have "hd ks \<in> set ks" using r(3) by simp
  then have "heads (hd ks) = m" using t(8) by auto
  moreover have "\<forall>k \<in> set ks. waits_alone e t (signature (request_id s) k) (heads k) crid src mac \<and>
      (heads k = m \<or> mbufs s (heads k) = None)" using t(8) by metis
  ultimately show ?thesis
    using t(2-6,9) dom_t freed by (intro exI [of _ t] exI [of _ heads] exI [of _ freed]) auto
qed

lemma waits_alone_after:
  assumes "waits_alone e s sig c rid src mac" "mbufs t c = mbufs s c" "known_haddrs t = known_haddrs s"
    and "pkt_counts t = pkt_counts s" "hash_lookup_data e (client_pkts t) sig = hash_lookup_data e (client_pkts s) sig"
  shows "waits_alone e t sig c rid src mac"
  using assms chain_other [of "[(c, rid, src, mac)]" t s c] by (simp add: waits_alone_def)

lemma request_merged:
  assumes env: "unformat_ok e" "tx_live e" "hash_ok e" "small_copies e" and inv: "lru_inv e s" "group_inv s"
    and req: "new_request e s m crid src mac ks" and ready: "server_ready s smac"
  shows "\<exists>s' heads evs. app_client_in e m 34 a s = Inr s' \<and> lru_inv e s' \<and> group_inv s' \<and>
     known_haddrs s' = known_haddrs s \<and>
     finite (dom (mbufs s')) \<and> card (dom (mbufs s')) \<le> card (dom (mbufs s)) + length ks \<and>
     calls (trace s') = calls (trace s) @ map Free evs @
       (if unat (outstanding_req s) < MIN_OUTSTANDING_REQ
        then [Refcnt (memcached_pkt s) 1,
          Tx (memcached_pkt s) (request_frame e smac (request_id s) (merge_keys (ukeys s) ks))] else []) \<and>
     ukeys s' = (if unat (outstanding_req s) < MIN_OUTSTANDING_REQ then [] else merge_keys (ukeys s) ks) \<and>
     (\<forall>c \<in> set evs. \<exists>k p. hash_lookup_data e (client_pkts s) k = Some (p, c)) \<and>
     (\<forall>k \<in> set ks. waits_alone e s' (signature (request_id s) k) (heads k) crid src mac) \<and>
     heads (hd ks) = m \<and> inj_on heads (set ks)"
proof -
  obtain t heads evs where run: "app_client_in e m 34 a s =
       (if unat (outstanding_req s) < MIN_OUTSTANDING_REQ then construct_pkt_and_send_to_server e False t else Inr t)"
    and t: "lru_inv e t" "group_inv t" "ukeys t = merge_keys (ukeys s) ks" "collected s t"
     "calls (trace t) = calls (trace s) @ map Free evs"
     "\<forall>c \<in> set evs. \<exists>k p. hash_lookup_data e (client_pkts s) k = Some (p, c)"
     "\<forall>k \<in> set ks. waits_alone e t (signature (request_id s) k) (heads k) crid src mac \<and>
        (heads k = m \<or> mbufs s (heads k) = None)" "heads (hd ks) = m" "inj_on heads (set ks)"
    and dom_t: "finite (dom (mbufs t))" "card (dom (mbufs t)) \<le> card (dom (mbufs s)) + length ks"
    using request_collected [OF env(3,4) inv req, of a] by blast
  have same: "request_id t = request_id s" "known_haddrs t = known_haddrs s" "memcached_pkt t = memcached_pkt s"
    using t(4) by (simp_all add: collected_def)
  show ?thesis
  proof (cases "unat (outstanding_req s) < MIN_OUTSTANDING_REQ")
    case False
    then show ?thesis
      using run t same(2) dom_t by (intro exI [of _ t] exI [of _ heads] exI [of _ evs]) simp
  next
    case True
    have ne: "ukeys t \<noteq> []" using req set_merge_keys [of "ukeys s" ks] by (auto simp: t(3) new_request_def)
    have base: "group_base t" "unat (ukey_len t) \<le> 600"
      using t(2) group_inv_len [OF t(2)] by (simp_all add: group_inv_def)
    have fits: "request_text_len (sent_keys False t) < MAX_PAYLOAD_LEN"
      using req merge_keys_len [of "ukeys s" ks] by (simp add: sent_keys_def t(3) new_request_def)
    obtain s' where s': "construct_pkt_and_send_to_server e False t = Inr s'"
      "calls (trace s') = calls (trace t) @ [Refcnt (memcached_pkt t) 1,
         Tx (memcached_pkt t) (request_frame e smac (request_id t) (sent_keys False t))]"
      "ukeys s' = kept_keys False t" "group_inv s'" "client_pkts s' = client_pkts t" "LRU_queue s' = LRU_queue t"
      "LRU_ptr s' = LRU_ptr t" "pkt_counts s' = pkt_counts t" "known_haddrs s' = known_haddrs t"
      "\<forall>a. a \<noteq> memcached_pkt t \<longrightarrow> mbufs s' a = mbufs t a"
      and ready': "server_ready s' smac" "server_ready t smac" "memcached_pkt s' = memcached_pkt t"
      using server_ready_collected [OF ready t(4)] construct_sends [OF env(1,2) server_ready_collected [OF ready t(4)] base(1) ne base(2) fits] by auto
    have "heads k \<noteq> memcached_pkt s" if "k \<in> set ks" for k
      using that t(7) req ready by (auto simp: new_request_def server_ready_def)
    then have "\<forall>k \<in> set ks. waits_alone e s' (signature (request_id s) k) (heads k) crid src mac"
      using t(7) s'(5,8-10) same(3) waits_alone_after [of e t _ _ crid src mac s'] by metis
    moreover have "dom (mbufs s') = dom (mbufs t)"
    proof (rule set_eqI)
      fix a show "a \<in> dom (mbufs s') \<longleftrightarrow> a \<in> dom (mbufs t)"
        using ready' s'(10) by (cases "a = memcached_pkt t") (auto simp: server_ready_def)
    qed
    moreover have "lru_inv e s'" using t(1) s'(5-7) by (simp add: lru_inv_def)
    ultimately show ?thesis
      using run True s' t(3,5,6,8,9) same dom_t
      by (intro exI [of _ s'] exI [of _ heads] exI [of _ evs]) (simp add: sent_keys_def kept_keys_def)
  qed
qed

text \<open>C6: a request of several new keys joins the group of waiting keys; each key waits under its
  own signature with a packet of its own, the request's packet for the first key and a copy for
  every other one; when memcached has room, the whole group leaves as one frame, otherwise
  nothing is sent; the only packets released are of clients that made room in the queue.\<close>

theorem app_client_in_merges:
  assumes "unformat_ok e" "tx_live e" "hash_ok e" "small_copies e" "lru_inv e s" "group_inv s"
    and "new_request e s m crid src mac ks" "server_ready s smac"
  shows "\<exists>s' heads evs. app_client_in e m 34 a s = Inr s' \<and> lru_inv e s' \<and> group_inv s' \<and>
     calls (trace s') = calls (trace s) @ map Free evs @
       (if unat (outstanding_req s) < MIN_OUTSTANDING_REQ
        then [Refcnt (memcached_pkt s) 1,
          Tx (memcached_pkt s) (request_frame e smac (request_id s) (merge_keys (ukeys s) ks))] else []) \<and>
     ukeys s' = (if unat (outstanding_req s) < MIN_OUTSTANDING_REQ then [] else merge_keys (ukeys s) ks) \<and>
     (\<forall>c \<in> set evs. \<exists>k p. hash_lookup_data e (client_pkts s) k = Some (p, c)) \<and>
     (\<forall>k \<in> set ks. waits_alone e s' (signature (request_id s) k) (heads k) crid src mac) \<and>
     heads (hd ks) = m \<and> inj_on heads (set ks)"
  using request_merged [OF assms, of a] by blast

section \<open>Replies in any order\<close>

text \<open>A one-packet reply for a key: what a client gets of it is \<open>y\<close>, after its own id.\<close>

definition answers :: "u16 \<Rightarrow> byte list \<Rightarrow> byte list \<Rightarrow> mbuf \<Rightarrow> bool" where
  "answers rid key y rb \<longleftrightarrow>
     (\<exists>q seq rsv r z. mb_data rb = q @ to_be16 rid @ y @ z \<and> length q = 42 \<and> length rsv = 2 \<and>
        y = reply_body seq 1 rsv (str ''VALUE '' @ key @ 32 # r) \<and> 2 \<le> length r \<and>
        length (str ''VALUE '' @ key @ 32 # r) \<le> 1464 \<and>
        rd_be16 38 q = Inr (word_of_nat (length (str ''VALUE '' @ key @ 32 # r) + 16)))"

text \<open>Packets that arrive one after another and are handled as replies.\<close>

primrec serve_replies ::
  "('h, 'e) app_env_scheme \<Rightarrow> (u64 \<times> mbuf) list \<Rightarrow> 'h app_state \<Rightarrow> 'h app_state res" where
  "serve_replies e [] s = Inr s"
| "serve_replies e (r # rs) s =
     bindr (app_server_in e (fst r) 34 (s\<lparr>mbufs := (mbufs s)(fst r := Some (snd r))\<rparr>)) (serve_replies e rs)"

lemma answer_delivered:
  assumes env: "unformat_ok e" "tx_live e" "hash_ok e" "1 \<le> chain_fuel e"
    and r: "answers rid k y rb" "key_text k" "length k \<le> 1400" "unat rid < MAX_REQ_ID"
    and w: "waits_alone e s (signature rid k) c crid src mac" "c \<noteq> m" and idle: "ukey_len s = 0"
  shows "\<exists>s'. app_server_in e m 34 (s\<lparr>mbufs := (mbufs s)(m := Some rb)\<rparr>) = Inr s' \<and>
     calls (trace s') = calls (trace s) @
       [Refcnt m 1, Tx m (udp_frame e mac src (to_be16 crid @ y)), Free m, Free c] \<and>
     client_pkts s' = hash_del_key e (client_pkts s) (signature rid k) \<and> pkt_counts s' = pkt_counts s \<and>
     ukey_len s' = 0 \<and> known_haddrs s' = known_haddrs s \<and> (\<forall>a. a \<noteq> m \<longrightarrow> mbufs s' a = mbufs s a)"
proof -
  let ?t = "s\<lparr>mbufs := (mbufs s)(m := Some rb)\<rparr>" and ?w = "[(c, crid, src, mac)]"
  obtain q seq rsv x z where b: "mb_data rb = q @ to_be16 rid @ y @ z" "length q = 42" "length rsv = 2"
    "y = reply_body seq 1 rsv (str ''VALUE '' @ k @ 32 # x)" "2 \<le> length x"
    "length (str ''VALUE '' @ k @ 32 # x) \<le> 1464"
    "rd_be16 38 q = Inr (word_of_nat (length (str ''VALUE '' @ k @ 32 # x) + 16))"
    using r(1) unfolding answers_def by blast
  have reply: "reply_at ?t m rid seq 1 rsv (str ''VALUE '' @ k @ 32 # x) z"
    unfolding reply_at_def
    by (intro conjI exI [of _ rb] exI [of _ q]) (use b in \<open>simp_all add: reply_body_def del: str_simps\<close>)
  obtain slot where slot: "hash_lookup_data e (client_pkts s) (signature rid k) = Some (slot, c)" "slot < MAP_ENTRIES"
    "pkt_counts s slot = 1" "chain s c ?w" using w(1) by (auto simp: waits_alone_def)
  have "chain ?t c ?w = chain s c ?w" by (rule chain_other) (simp_all add: w(2))
  with slot(4) have ch: "chain ?t c ?w" by simp
  have found: "hash_lookup_data e (client_pkts ?t) (signature rid k) = Some (slot, c)" by (simp add: slot(1))
  have "\<forall>x \<in> set ?w. fst x \<noteq> m" "length ?w \<le> chain_fuel e" "ukey_len ?t = 0"
    using w(2) env(4) idle by simp_all
  from first_reply_delivered [OF env(1,2) reply refl r(2) b(5) signature_fits [OF r(3)] found ch this(1,2) slot(2) r(4) this(3)]
  show ?thesis using slot(3) by (auto simp: b(4) reply_frames_def simp del: str_simps)
qed

lemma serve_replies_deliver:
  assumes env: "unformat_ok e" "tx_live e" "hash_ok e" "1 \<le> chain_fuel e" and rid: "unat rid < MAX_REQ_ID"
    and "\<forall>(k, y, m, rb) \<in> set rs. answers rid k y rb \<and> key_text k \<and> length k \<le> 1400"
    and "distinct (map fst rs)" "\<forall>k \<in> set (map fst rs). waits_alone e s (signature rid k) (heads k) crid src mac"
    and "\<forall>k \<in> set (map fst rs). \<forall>(k', y, m, rb) \<in> set rs. heads k \<noteq> m" and "ukey_len s = 0"
  shows "\<exists>s'. serve_replies e (map (\<lambda>(k, y, r). r) rs) s = Inr s' \<and>
     calls (trace s') = calls (trace s) @ concat (map (\<lambda>(k, y, m, rb).
       [Refcnt m 1, Tx m (udp_frame e mac src (to_be16 crid @ y)), Free m, Free (heads k)]) rs) \<and>
     (\<forall>sig. hash_lookup_data e (client_pkts s') sig =
        (if sig \<in> signature rid ` set (map fst rs) then None else hash_lookup_data e (client_pkts s) sig))"
  using assms(6-)
proof (induction rs arbitrary: s)
  case Nil
  then show ?case by simp
next
  case (Cons r rs)
  obtain k y m rb where r: "r = (k, y, m, rb)" by (metis surj_pair)
  have one: "answers rid k y rb" "key_text k" "length k \<le> 1400" "heads k \<noteq> m"
    "waits_alone e s (signature rid k) (heads k) crid src mac"
    using Cons.prems(1,3,4) unfolding r by simp_all
  from answer_delivered [OF env one(1-3) rid one(5,4) Cons.prems(5)] obtain s1 where
    s1: "app_server_in e m 34 (s\<lparr>mbufs := (mbufs s)(m := Some rb)\<rparr>) = Inr s1"
     "calls (trace s1) = calls (trace s) @
       [Refcnt m 1, Tx m (udp_frame e mac src (to_be16 crid @ y)), Free m, Free (heads k)]"
     "client_pkts s1 = hash_del_key e (client_pkts s) (signature rid k)" "pkt_counts s1 = pkt_counts s"
     "ukey_len s1 = 0" "known_haddrs s1 = known_haddrs s" "\<forall>a. a \<noteq> m \<longrightarrow> mbufs s1 a = mbufs s a"
    by blast
  have lookup: "hash_lookup_data e (client_pkts s1) sig =
      (if sig = signature rid k then None else hash_lookup_data e (client_pkts s) sig)" for sig
    using hash_del_same [OF env(3)] hash_del_other [OF env(3)] by (simp add: s1(3))
  have "waits_alone e s1 (signature rid k') (heads k') crid src mac" if k': "k' \<in> set (map fst rs)" for k'
  proof (rule waits_alone_after [OF _ _ s1(6,4)])
    have "k' \<noteq> k" using k' Cons.prems(2) unfolding r by auto
    then have "signature rid k' \<noteq> signature rid k" using signature_inj by blast
    then show "hash_lookup_data e (client_pkts s1) (signature rid k') = hash_lookup_data e (client_pkts s) (signature rid k')"
      by (simp add: lookup)
    show "waits_alone e s (signature rid k') (heads k') crid src mac" using k' Cons.prems(3) by auto
    show "mbufs s1 (heads k') = mbufs s (heads k')" using k' Cons.prems(4) s1(7) by (auto simp: r)
  qed
  moreover have "\<forall>(k, y, m, rb) \<in> set rs. answers rid k y rb \<and> key_text k \<and> length k \<le> 1400" "distinct (map fst rs)"
    "\<forall>k \<in> set (map fst rs). \<forall>(k', y, m, rb) \<in> set rs. heads k \<noteq> m"
    using Cons.prems(1,2,4) by auto
  ultimately obtain s2 where s2: "serve_replies e (map (\<lambda>(k, y, r). r) rs) s1 = Inr s2"
    "calls (trace s2) = calls (trace s1) @ concat (map (\<lambda>(k, y, m, rb).
       [Refcnt m 1, Tx m (udp_frame e mac src (to_be16 crid @ y)), Free m, Free (heads k)]) rs)"
    "\<forall>sig. hash_lookup_data e (client_pkts s2) sig =
        (if sig \<in> signature rid ` set (map fst rs) then None else hash_lookup_data e (client_pkts s1) sig)"
    using Cons.IH [of s1] s1(5) by blast
  then show ?case using s1(1,2) by (intro exI [of _ s2]) (auto simp: r lookup)
qed

lemma request_replies:
  assumes env: "unformat_ok e" "tx_live e" "hash_ok e" "small_copies e" "1 \<le> chain_fuel e"
    and inv: "lru_inv e s" "group_inv s" and req: "new_request e s m crid src mac ks" "server_ready s smac"
    and room: "unat (outstanding_req s) < MIN_OUTSTANDING_REQ" and run: "app_client_in e m 34 a s = Inr s1"
    and replies: "mset (map fst rs) = mset ks"
      "\<forall>(k, y, m', rb) \<in> set rs. answers (request_id s) k y rb \<and> mbufs s1 m' = None"
  shows "\<exists>s2 heads. serve_replies e (map (\<lambda>(k, y, r). r) rs) s1 = Inr s2 \<and> inj_on heads (set ks) \<and>
     calls (trace s2) = calls (trace s1) @ concat (map (\<lambda>(k, y, m', rb).
       [Refcnt m' 1, Tx m' (udp_frame e mac src (to_be16 crid @ y)), Free m', Free (heads k)]) rs) \<and>
     (\<forall>k \<in> set ks. hash_lookup_data e (client_pkts s2) (signature (request_id s) k) = None)"
proof -
  obtain heads where s1: "ukeys s1 = []" "inj_on heads (set ks)"
    "\<forall>k \<in> set ks. waits_alone e s1 (signature (request_id s) k) (heads k) crid src mac"
    using request_merged [OF env(1-4) inv req, of a] run room by auto
  have "ukey_len s1 = 0" using length_ukeys [of s1] by (simp add: s1(1) unat_eq_0 del: length_ukeys)
  have keys: "set (map fst rs) = set ks" "distinct (map fst rs)"
    using replies(1) req(1) mset_eq_setD [OF replies(1)] mset_eq_imp_distinct_iff [OF replies(1)] by (simp_all add: new_request_def)
  have rid: "unat (request_id s) < MAX_REQ_ID" using inv(2) by (simp add: group_inv_def group_base_def)
  have texts: "\<forall>(k, y, m', rb) \<in> set rs. answers (request_id s) k y rb \<and> key_text k \<and> length k \<le> 1400"
    using replies(2) new_request_keys(2) [OF req(1)] keys(1) by force
  have "mbufs s1 (heads k) \<noteq> None" if "k \<in> set ks" for k
    using s1(3) that by (auto simp: waits_alone_def waiting_def)
  then have "\<forall>k \<in> set (map fst rs). \<forall>(k', y, m', rb) \<in> set rs. heads k \<noteq> m'"
    using replies(2) unfolding keys(1) by fastforce
  from serve_replies_deliver [OF env(1-3,5) rid texts keys(2) _ this \<open>ukey_len s1 = 0\<close>, unfolded keys(1), OF s1(3)]
  obtain s2 where "serve_replies e (map (\<lambda>(k, y, r). r) rs) s1 = Inr s2"
    "calls (trace s2) = calls (trace s1) @ concat (map (\<lambda>(k, y, m', rb).
       [Refcnt m' 1, Tx m' (udp_frame e mac src (to_be16 crid @ y)), Free m', Free (heads k)]) rs)"
    "\<forall>sig. hash_lookup_data e (client_pkts s2) sig =
        (if sig \<in> signature (request_id s) ` set ks then None else hash_lookup_data e (client_pkts s1) sig)" by blast
  with s1(2) show ?thesis by (intro exI [of _ s2] exI [of _ heads]) simp
qed

text \<open>C5: a request of several keys and its replies, end to end: the request is merged and sent
  at once, and then one-packet replies for its keys, in any order, each reach the client that
  asked, under the id it chose; every reply and every packet kept for a key is released once,
  and in the end nobody is registered under any of the keys.\<close>

theorem request_replies_any_order:
  assumes env: "unformat_ok e" "tx_live e" "hash_ok e" "small_copies e" "1 \<le> chain_fuel e"
    and inv: "lru_inv e s" "group_inv s" and req: "new_request e s m crid src mac ks" "server_ready s smac"
    and room: "unat (outstanding_req s) < MIN_OUTSTANDING_REQ" and run: "app_client_in e m 34 a s = Inr s1"
    and replies: "mset (map fst rs) = mset ks"
      "\<forall>(k, y, m', rb) \<in> set rs. answers (request_id s) k y rb \<and> mbufs s1 m' = None"
  shows "\<exists>s2 heads. serve_replies e (map (\<lambda>(k, y, r). r) rs) s1 = Inr s2 \<and> inj_on heads (set ks) \<and>
     calls (trace s2) = calls (trace s1) @ concat (map (\<lambda>(k, y, m', rb).
       [Refcnt m' 1, Tx m' (udp_frame e mac src (to_be16 crid @ y)), Free m', Free (heads k)]) rs) \<and>
     (\<forall>k \<in> set ks. hash_lookup_data e (client_pkts s2) (signature (request_id s) k) = None)"
  by (rule request_replies [OF assms])

section \<open>Requests too long for the small pool\<close>

text \<open>
  A copy that does not fit one buffer of the small pool is a packet of several segments, linked
  by the same \<open>next\<close> field that links the packets of the clients waiting for a key. The segments
  after the first hold nothing but the text of the request.
\<close>

definition text_segment :: "mbuf \<Rightarrow> bool" where
  "text_segment b \<longleftrightarrow> 80 \<le> length (mb_data b) \<and> list_all (\<lambda>c. 32 \<le> c) (take 80 (mb_data b))"

lemma text_segment_length_field:
  assumes "text_segment b" "off + 2 \<le> 80"
  shows "\<exists>w. rd_be16 off (mb_data b) = Inr w \<and> 8224 \<le> unat w"
proof -
  let ?x = "mb_data b ! off" and ?y = "mb_data b ! Suc off"
  have len: "off + 2 \<le> length (mb_data b)" using assms by (simp add: text_segment_def)
  then have "take 2 (drop off (mb_data b)) = [?x, ?y]"
    by (simp add: numeral_2_eq_2 take_Suc_conv_app_nth nth_drop)
  then have "rd_be16 off (mb_data b) = Inr (of_be [?x, ?y])" using len by (simp add: rd_be16_def rd_def)
  moreover have "32 \<le> mb_data b ! i" if "i < 80" for i
    using assms(1) that by (auto simp: text_segment_def list_all_length)
  from this [of off] this [of "Suc off"] have "32 \<le> unat ?x" "32 \<le> unat ?y"
    using assms(2) by (simp_all add: word_le_nat_alt)
  then have "8224 \<le> unat (of_be [?x, ?y] :: u16)" by (simp add: unat_of_be)
  ultimately show ?thesis by auto
qed

text \<open>The walk along the clients takes a segment for a client's packet, and its text for a length.\<close>

lemma steer_text_segment:
  assumes "mbufs s seg = Some b" "text_segment b" "seg \<noteq> 0"
  shows "steer_loop e (Suc n) m udph seg s = Inl Null_deref"
proof -
  let ?h = "14 + unat (mb_data b ! 14 AND 0x0f) * 4"
  have "14 + 1 \<le> length (mb_data b)" using assms(2) by (simp add: text_segment_def)
  then have ihl: "rd 14 1 (mb_data b) = Inr [mb_data b ! 14]"
    by (simp add: rd_def take_Suc_conv_app_nth nth_drop)
  have "mb_data b ! 14 AND 0x0f \<le> 0x0f" by (rule word_and_le1)
  then have "unat (mb_data b ! 14 AND 0x0f) \<le> 15" by (simp add: word_le_nat_alt)
  then obtain w where w: "rd_be16 (?h + 4) (mb_data b) = Inr w" "8224 \<le> unat w"
    using text_segment_length_field [OF assms(2), of "?h + 4"] by auto
  have "unat (ucast w - 8 :: u32) = unat w - 8"
    using w(2) by (subst unat_sub) (simp_all add: word_le_nat_alt unsigned_ucast_eq take_bit_nat_eq_self order.strict_trans2 [OF unsigned_less])
  then have "UDP_MAX_LEN < unat (ucast w - 8 :: u32)" using w(2) by (simp add: UDP_MAX_LEN_def)
  then have "init_rcv_app_payload seg ?h s = Inr None"
    using w(1) by (simp only: init_rcv_app_payload_def get_data_frame [OF assms(1)] bindr_Inr Let_def if_True)
  then show ?thesis
    using assms(1,3) ihl by (simp add: get_iph_udph_from_buf_def get_data_frame)
qed

lemma reply_to_segments:
  assumes env: "unformat_ok e" "tx_live e" "2 \<le> chain_fuel e" and reply: "reply_at s m rid seq dgrams rsv text z"
    and line: "text = str ''VALUE '' @ key @ 32 # r" "key_text key" "2 \<le> length r"
    and fits: "length (signature rid key) < MAX_KEY_LENGTH"
    and found: "hash_lookup_data e (client_pkts s) (signature rid key) = Some (pos, c)"
    and c: "waiting s c b crid src mac" "c \<noteq> m" "mb_next b = seg" "seg \<noteq> 0" "seg \<noteq> m"
      "mbufs s seg = Some b'" "text_segment b'"
  shows "app_server_in e m 34 s = Inl Null_deref"
proof -
  define t where "t = (let s1 = s\<lparr>key_hold := signature rid key\<rparr>
    in if 1 < unat dgrams then s1\<lparr>last_key := key_hold s1\<rparr> else s1)"
  have t: "mbufs t = mbufs s" "known_haddrs t = known_haddrs s" by (simp_all add: t_def Let_def)
  have small: "length text \<le> 1464" using reply by (simp add: reply_at_def)
  have "reply_position e rid dgrams (True, Some key) s = Inr (Some (pos, c), t)"
    using fits found by (simp add: reply_position_def sprint_key_def Let_def t_def)
  then have run: "app_server_in e m 34 s = deliver e m rid seq dgrams (Some (pos, c), t)"
    using strip_value_line [OF line small, of z] by (simp add: app_server_in_reads [OF reply])
  obtain n where n: "chain_fuel e = Suc (Suc n)" using env(3) by (intro that [of "chain_fuel e - 2"]) arith
  have w: "waiting t c b crid src mac" using c(1) by (simp add: waiting_other [OF _ t(2)] t(1))
  let ?s = "log_event (Refcnt m 1) t"
  have "reply_packet t m (length text + 8) (reply_body seq dgrams rsv text)"
    by (rule reply_at_packet [OF reply]) (simp add: t(1))
  then have "reply_packet ?s m (length text + 8) (reply_body seq dgrams rsv text)"
    "arp_lookup_mac ?s src = Some mac" "length mac = 6"
    using w by (simp_all add: reply_packet_def waiting_def net_simps arp_lookup_mac_def)
  from app_send_reply [OF env(1,2) this(2,3,1), of crid] obtain s1 where
    s1: "app_send e m 34 [] crid src False ?s = Inr s1" "\<forall>a. a \<noteq> m \<longrightarrow> mbufs s1 a = mbufs s a"
    by (auto simp: net_simps t(1))
  have "mbufs s1 c = Some b" "mbufs s1 seg = Some b'" using s1(2) c(1,2,5,6) by (simp_all add: waiting_def)
  then have "steer_loop e (Suc (Suc n)) m 34 c t = Inl Null_deref"
    using steer_loop_step [OF w, of e "Suc n" m] s1(1) steer_text_segment [OF _ c(7,4), of s1 e n m 34] c(3)
    by (simp only: bindr_Inr mbuf_at_Some)
  then show ?thesis unfolding run n deliver_def by simp
qed

text \<open>C22: a request of several keys too long for one buffer of the small pool takes the
  middlebox down: the copy kept for its second key is registered with its further segments in
  its \<open>next\<close> field, and the reply to that key, after it was sent to the client, follows the
  field, reads the text of the request as a length and dereferences NULL.\<close>

theorem segmented_copy_crashes:
  assumes env: "unformat_ok e" "tx_live e" "hash_ok e" "2 \<le> chain_fuel e" and inv: "lru_inv e s" "group_inv s"
    and k: "key_text k" "length k \<le> 1400" "request_text_len (ukeys s @ [k]) \<le> MAX_PAYLOAD_LEN"
    and new: "hash_lookup_data e (client_pkts s) (signature (request_id s) k) = None"
    and copy: "0 < i" "pktmbuf_copy e Small_mbuf_pool m (mbufs s) = (c, M)" "waiting (s\<lparr>mbufs := M\<rparr>) c b crid src mac"
      "mb_next b = seg" "seg \<noteq> 0" "M seg = Some b'" "text_segment b'"
    and reply: "m' \<noteq> c" "m' \<noteq> seg" "reply_at (s\<lparr>mbufs := M(m' := Some rb)\<rparr>) m' (request_id s) seq dgrams rsv text z"
      "text = str ''VALUE '' @ k @ 32 # r" "2 \<le> length r"
  shows "\<exists>t. client_key e m i k s = Inr t \<and>
     app_server_in e m' 34 (t\<lparr>mbufs := (mbufs t)(m' := Some rb)\<rparr>) = Inl Null_deref"
proof -
  have ok: "key_ok k" using k(1) by (simp add: key_text_def key_ok_def)
  have "key_buffer e i m (mbufs s) = (c, M)" using copy(1,2) by (simp add: key_buffer_def)
  from client_key_adds [OF env(3) inv ok signature_fits [OF k(2)] new this] obtain t slot where
    step: "client_key e m i k s = (if group_full t then construct_pkt_and_send_to_server e True t else Inr t)"
    and grp: "if k \<in> set (ukeys s) then group_inv t else group_pending t"
      "ukeys t = (if k \<in> set (ukeys s) then ukeys s else ukeys s @ [k])"
    and t: "hash_lookup_data e (client_pkts t) (signature (request_id s) k) = Some (slot, c)"
      "mbufs t = M" "known_haddrs t = known_haddrs s" by blast
  have "\<not> group_full t" by (rule group_open [OF grp k(3)])
  then have run: "client_key e m i k s = Inr t" using step by simp
  let ?t = "t\<lparr>mbufs := (mbufs t)(m' := Some rb)\<rparr>"
  have "waiting ?t c b crid src mac"
    using copy(3) reply(1) by (subst waiting_other [of _ c "s\<lparr>mbufs := M\<rparr>"]) (simp_all add: t)
  moreover have "reply_at ?t m' (request_id s) seq dgrams rsv text z" using reply(3) by (simp add: reply_at_def)
  ultimately have "app_server_in e m' 34 ?t = Inl Null_deref"
    using reply_to_segments [OF env(1,2,4) _ reply(4) k(1) reply(5) signature_fits [OF k(2)], of ?t m' "request_id s"]
      t(1,2) copy(4-7) reply(1,2) by auto
  with run show ?thesis by blast
qed

end
