(* ===== verification/Request_Examples.thy ===== *)
theory Request_Examples
  imports Requests Examples
begin

text \<open>
  The properties of requests of several keys at a client's \<open>gets ab c\<close>, with a pool that gives out
  the first free address, and with one that splits the copy into two segments.
\<close>

section \<open>A pool of single buffers\<close>

definition free_copy :: "mempool \<Rightarrow> u64 \<Rightarrow> (u64 \<Rightarrow> mbuf option) \<Rightarrow> u64 \<times> (u64 \<Rightarrow> mbuf option)" where
  "free_copy pool m M =
     (case M m of None \<Rightarrow> (0, M)
      | Some b \<Rightarrow> (case find (\<lambda>c. M c = None) (map word_of_nat [1..<NUM_SMALL_MBUFS + 1]) of
           None \<Rightarrow> (0, M)
         | Some c \<Rightarrow> (c, M(c := Some (b\<lparr>mb_next := 0\<rparr>)))))"

definition copy_env :: "ref_table app_env" where
  "copy_env = ref_env\<lparr>pktmbuf_copy := free_copy\<rparr>"

lemma free_address:
  assumes "finite (dom M)" "card (dom M) < n" "n < 10000"
  shows "\<exists>c. find (\<lambda>c. M c = None) (map word_of_nat [1..<n + 1]) = Some c \<and> M c = None \<and> (c :: u64) \<noteq> 0"
proof -
  let ?cs = "map word_of_nat [1..<n + 1] :: u64 list"
  have small: "unat (word_of_nat k :: u64) = k" if "k < n + 1" for k
    using that assms(3) by (simp add: unat_of_nat take_bit_nat_eq_self)
  have "inj_on (word_of_nat :: nat \<Rightarrow> u64) (set [1..<n + 1])"
    by (rule inj_on_inverseI [of _ unat], rule small) (simp only: set_upt atLeastLessThan_iff)
  then have "card (set ?cs) = n" by (subst distinct_card) (simp_all add: distinct_map)
  then have "\<not> set ?cs \<subseteq> dom M" using assms card_mono [OF assms(1), of "set ?cs"] by auto
  then obtain c where c: "find (\<lambda>c. M c = None) ?cs = Some c"
    by (cases "find (\<lambda>c. M c = None) ?cs") (auto simp: find_None_iff)
  then have "c \<in> set ?cs" "M c = None" unfolding find_Some_iff by (metis nth_mem)+
  moreover from this obtain k where "1 \<le> k" "k < n + 1" "c = word_of_nat k" by (auto simp del: upt_Suc)
  then have "c \<noteq> 0" using small [of k] by auto
  ultimately show ?thesis using c by blast
qed

lemma copy_env_oks: "unformat_ok copy_env" "tx_live copy_env" "hash_ok copy_env" "small_copies copy_env"
proof -
  show "unformat_ok copy_env" "tx_live copy_env" "hash_ok copy_env"
    using ref_oks by (simp_all add: copy_env_def unformat_ok_def tx_live_def hash_ok_def hash_keys_def)
  have "\<exists>c b'. free_copy Small_mbuf_pool m M = (c, M(c := Some b')) \<and> c \<noteq> 0 \<and> M c = None \<and>
      mb_next b' = 0 \<and> take n (mb_data b') = take n (mb_data b)"
    if h: "M m = Some b" "finite (dom M)" "card (dom M) < NUM_SMALL_MBUFS" for M m b n
  proof -
    obtain c where "find (\<lambda>c. M c = None) (map word_of_nat [1..<NUM_SMALL_MBUFS + 1]) = Some c" "M c = None" "c \<noteq> 0"
      using free_address [OF h(2,3)] by (auto simp: NUM_SMALL_MBUFS_def simp del: upt_Suc)
    then show ?thesis
      using h(1) by (intro exI [of _ c] exI [of _ "b\<lparr>mb_next := 0\<rparr>"]) (simp add: free_copy_def)
  qed
  then show "small_copies copy_env" unfolding small_copies_def by (simp add: copy_env_def)
qed

lemma copy_env_fields [simp]:
  "hash_lookup_data copy_env = ref_lookup" "chain_fuel copy_env = 8"
  by (simp_all add: copy_env_def)

section \<open>A request of two keys\<close>

text \<open>The idle middlebox with a request at 0x1000.\<close>

definition ex_packet :: "u16 \<Rightarrow> byte list list \<Rightarrow> mbuf" where
  "ex_packet crid ks = (ex_request crid (str ''gets'' @ spaced ks))\<lparr>mb_pkt_len := word_of_nat (56 + length (spaced ks))\<rparr>"

definition ex_asked :: "u16 \<Rightarrow> byte list list \<Rightarrow> ref_table app_state" where
  "ex_asked crid ks = ex_idle\<lparr>mbufs := [0x1000 \<mapsto> ex_packet crid ks, 0x2000 \<mapsto> ex_blank]\<rparr>"

lemma ex_request_waiting:
  assumes "mbufs s a = Some b" "mb_data b = mb_data (ex_request crid t)" "a \<noteq> 0" "length t \<le> 1462" "known_haddrs s = ex_table"
  shows "waiting s a b crid client_ip client_mac"
proof -
  have "unat (word_of_nat (length t + 18) :: u16) = length t + 18"
    using assms(4) by (intro unat_small_u16) simp
  then show ?thesis
    using assms ex_lookup(2) [OF assms(5)]
    by (simp add: waiting_def ex_request_def rd_be16_def [of 42] rd_append_right rd_def [of 0])
qed

lemma ex_ready: "mbufs s 0x2000 = Some ex_blank \<Longrightarrow> memcached_pkt s = 0x2000 \<Longrightarrow> known_haddrs s = ex_table \<Longrightarrow>
   server_ready s server_mac"
  using ex_idle_ready by (simp add: server_ready_def arp_lookup_mac_def)

lemma ex_asked_ok: "lru_inv copy_env (ex_asked crid ks)" "group_inv (ex_asked crid ks)" "server_ready (ex_asked crid ks) server_mac"
  using ex_idle_lru ex_idle_group
  by (simp_all add: ex_asked_def lru_inv_def hash_keys_def group_inv_def group_base_def ukeys_def ex_ready)

lemma ex_asked_fields [simp]:
  "ukeys (ex_asked crid ks) = []" "request_id (ex_asked crid ks) = 0" "outstanding_req (ex_asked crid ks) = 0"
  "memcached_pkt (ex_asked crid ks) = 0x2000" "mbufs (ex_asked crid ks) 0x1000 = Some (ex_packet crid ks)"
  "known_haddrs (ex_asked crid ks) = ex_table" "trace (ex_asked crid ks) = []"
  "client_pkts (ex_asked crid ks) = []"
  "card (dom (mbufs (ex_asked crid ks))) = 2"
  by (simp_all add: ex_asked_def ukeys_def)

lemma ex_packet_request:
  assumes "mbufs s m = Some (ex_packet crid ks)" "length (spaced ks) \<le> 70"
  shows "request_at s m crid (str ''gets'' @ spaced ks) []"
  unfolding request_at_def
  by (intro conjI, rule exI [of _ "ex_packet crid ks"], rule exI [of _ "ex_headers client_ip (word_of_nat (length (str ''gets'' @ spaced ks) + 18))"],
    rule exI [of _ "[0, 0, 0, 1, 0, 0]"], intro conjI)
    (use assms in \<open>simp_all add: ex_packet_def ex_request_def\<close>)

lemma ex_packet_len: "length (spaced ks) \<le> 70 \<Longrightarrow> unat (mb_pkt_len (ex_packet crid ks)) = 56 + length (spaced ks)"
  by (simp add: ex_packet_def unat_of_nat take_bit_nat_eq_self del: of_nat_add)

lemma ex_asked_request:
  assumes ks: "ks \<noteq> []" "distinct ks" "list_all key_text ks" "request_text_len ks < MAX_PAYLOAD_LEN"
    and short: "length (spaced ks) \<le> 70" "length ks \<le> 70"
  shows "new_request copy_env (ex_asked crid ks) 0x1000 crid client_ip client_mac ks"
proof -
  let ?t = "str ''gets'' @ spaced ks"
  have n: "unat (mb_pkt_len (ex_packet crid ks)) = 56 + length (spaced ks)"
    by (rule ex_packet_len [OF short(1)])
  have "request_at (ex_asked crid ks) 0x1000 crid ?t []"
    by (rule ex_packet_request) (use short in simp_all)
  moreover have "waiting (ex_asked crid ks) 0x1000 (ex_packet crid ks) crid client_ip client_mac"
    by (rule ex_request_waiting [where t = ?t]) (use short in \<open>simp_all add: ex_packet_def\<close>)
  moreover have "mb_next (ex_packet crid ks) = 0" by (simp add: ex_packet_def ex_request_def)
  ultimately have "small_packet (ex_asked crid ks) 0x1000 crid client_ip client_mac"
    unfolding small_packet_def
    by (intro exI [of _ "ex_packet crid ks"]) (use short n in \<open>simp add: RTE_PKTMBUF_HEADROOM_def SMALL_MBUFS_SIZE_def\<close>)
  moreover have "finite (dom (mbufs (ex_asked crid ks)))" by (simp add: ex_asked_def)
  moreover have "list_all (\<lambda>k. signature (request_id (ex_asked crid ks)) k \<notin> LRU_queue (ex_asked crid ks) ` {..<MAP_ENTRIES}) ks"
    by (auto simp: ex_asked_def signature_def list_all_iff)
  ultimately show ?thesis
    using \<open>request_at (ex_asked crid ks) 0x1000 crid ?t []\<close> ks short n
    unfolding new_request_def by (auto simp: NUM_SMALL_MBUFS_def)
qed

definition ex_keys2 :: "byte list list" where "ex_keys2 = [str ''ab'', str ''c'']"

definition ex_two :: "ref_table app_state" where "ex_two = ex_asked 7 ex_keys2"

lemma ex_two_ok: "lru_inv copy_env ex_two" "group_inv ex_two" "server_ready ex_two server_mac"
  by (simp_all add: ex_two_def ex_asked_ok)

lemma ex_two_request: "new_request copy_env ex_two 0x1000 7 client_ip client_mac ex_keys2"
  unfolding ex_two_def
  by (rule ex_asked_request) (simp_all add: ex_keys2_def key_text_def MAX_KEY_LENGTH_def request_text_len_def GETS_LEN_def)

theorem app_client_in_merges_witness:
  "\<exists>s'. app_client_in copy_env 0x1000 34 client_ip ex_two = Inr s' \<and>
     calls (trace s') = [Refcnt 0x2000 1, Tx 0x2000 (request_frame copy_env server_mac 0 ex_keys2)]"
proof -
  have "ukeys ex_two = []" "merge_keys [] ex_keys2 = ex_keys2" by (simp_all add: ex_two_def ex_keys2_def)
  with app_client_in_merges [OF copy_env_oks ex_two_ok(1,2) ex_two_request ex_two_ok(3), of client_ip] show ?thesis
    by (auto simp: ex_two_def MIN_OUTSTANDING_REQ_def)
qed

section \<open>Its replies, the second key first\<close>

definition ex_text :: "byte list \<Rightarrow> byte list" where
  "ex_text k = str ''VALUE '' @ k @ 32 # str ''0 1''"

lemma ex_answers:
  assumes "length k \<le> 1400"
  shows "answers rid k (reply_body 0 1 [0, 0] (ex_text k)) (ex_reply rid 0 1 (ex_text k))"
  unfolding answers_def
  by (intro exI [of _ "ex_headers (ip_str_to_int TARGET_IP) (word_of_nat (length (ex_text k) + 16))"] exI [of _ 0]
      exI [of _ "[0, 0]"] exI [of _ "str ''0 1''"] exI [of _ "[0]"])
    (use assms in \<open>simp add: ex_reply_def ex_text_def reply_body_def\<close>)

definition ex_answer :: "u64 \<Rightarrow> byte list \<Rightarrow> byte list \<times> byte list \<times> u64 \<times> mbuf" where
  "ex_answer a k = (k, reply_body 0 1 [0, 0] (ex_text k), a, ex_reply 0 0 1 (ex_text k))"

lemma free_u64:
  assumes "card (dom M) \<le> 6"
  shows "\<exists>a :: u64. M a = None"
proof (rule ccontr)
  assume "\<nexists>a. M a = None"
  then have "dom M = UNIV" by auto
  then have "card (dom M) = 2 ^ 64" by (simp add: card_word)
  with assms show False by simp
qed

theorem request_replies_any_order_witness:
  "\<exists>s1 s2 a h h'. app_client_in copy_env 0x1000 34 client_ip ex_two = Inr s1 \<and> h \<noteq> h' \<and>
     serve_replies copy_env [(a, ex_reply 0 0 1 (ex_text (str ''c''))), (a, ex_reply 0 0 1 (ex_text (str ''ab'')))] s1 = Inr s2 \<and>
     calls (trace s2) = calls (trace s1) @
       [Refcnt a 1, Tx a (udp_frame copy_env client_mac client_ip (to_be16 7 @ reply_body 0 1 [0, 0] (ex_text (str ''c'')))),
        Free a, Free h,
        Refcnt a 1, Tx a (udp_frame copy_env client_mac client_ip (to_be16 7 @ reply_body 0 1 [0, 0] (ex_text (str ''ab'')))),
        Free a, Free h']"
proof -
  obtain s1 where s1: "app_client_in copy_env 0x1000 34 client_ip ex_two = Inr s1"
    "card (dom (mbufs s1)) \<le> card (dom (mbufs ex_two)) + length ex_keys2"
    using request_merged [OF copy_env_oks ex_two_ok(1,2) ex_two_request ex_two_ok(3), of client_ip] by blast
  have "card (dom (mbufs ex_two)) + length ex_keys2 = 4" by (simp add: ex_two_def ex_keys2_def)
  with s1(2) obtain a where a: "mbufs s1 a = None" using free_u64 [of "mbufs s1"] by auto
  let ?rs = "[ex_answer a (str ''c''), ex_answer a (str ''ab'')]"
  have id: "request_id ex_two = 0" by (simp add: ex_two_def)
  have rs: "mset (map fst ?rs) = mset ex_keys2"
    "\<forall>(k, y, m', rb) \<in> set ?rs. answers (request_id ex_two) k y rb \<and> mbufs s1 m' = None"
    using a ex_answers [of "str ''c''" 0] ex_answers [of "str ''ab''" 0] by (simp_all add: ex_answer_def ex_keys2_def id)
  have free: "1 \<le> chain_fuel copy_env" "unat (outstanding_req ex_two) < MIN_OUTSTANDING_REQ"
    by (simp_all add: ex_two_def MIN_OUTSTANDING_REQ_def)
  obtain s2 heads where s2: "serve_replies copy_env (map (\<lambda>(k, y, r). r) ?rs) s1 = Inr s2" "inj_on heads (set ex_keys2)"
    "calls (trace s2) = calls (trace s1) @ concat (map (\<lambda>(k, y, m', rb).
       [Refcnt m' 1, Tx m' (udp_frame copy_env client_mac client_ip (to_be16 7 @ y)), Free m', Free (heads k)]) ?rs)"
    using request_replies_any_order [OF copy_env_oks free(1) ex_two_ok(1,2) ex_two_request ex_two_ok(3) free(2) s1(1) rs]
    by blast
  have "str ''c'' \<noteq> str ''ab''" by simp
  then have "heads (str ''c'') \<noteq> heads (str ''ab'')"
    using inj_onD [OF s2(2), of "str ''c''" "str ''ab''"] unfolding ex_keys2_def by auto
  then show ?thesis
    using s1(1) s2(1,3) by (intro exI [of _ s1] exI [of _ s2] exI [of _ a] exI [of _ "heads (str ''c'')"]
        exI [of _ "heads (str ''ab'')"]) (simp add: ex_answer_def del: str_simps)
qed

section \<open>A copy of two segments\<close>

definition split_copy :: "mempool \<Rightarrow> u64 \<Rightarrow> (u64 \<Rightarrow> mbuf option) \<Rightarrow> u64 \<times> (u64 \<Rightarrow> mbuf option)" where
  "split_copy pool m M = (0x8000, M(0x8000 := Some ((ex_request 7 (replicate 160 97))\<lparr>mb_next := 0x9000\<rparr>),
     0x9000 := Some (ex_mbuf (replicate 80 97))))"

definition split_env :: "ref_table app_env" where
  "split_env = ref_env\<lparr>pktmbuf_copy := split_copy\<rparr>"

theorem segmented_copy_crashes_witness:
  "\<exists>t. client_key split_env 0x1000 1 (str ''ab'') ex_idle = Inr t \<and>
     app_server_in split_env 0x3000 34
       (t\<lparr>mbufs := (mbufs t)(0x3000 := Some (ex_reply 0 0 1 (str ''VALUE ab 0 1'')))\<rparr>) = Inl Null_deref"
proof -
  let ?b = "(ex_request 7 (replicate 160 97))\<lparr>mb_next := 0x9000\<rparr>" and ?b' = "ex_mbuf (replicate 80 97)"
  let ?M = "ex_heap(0x8000 := Some ?b, 0x9000 := Some ?b')" and ?r = "ex_reply 0 0 1 (str ''VALUE ab 0 1'')"
  have env: "unformat_ok split_env" "tx_live split_env" "hash_ok split_env" "2 \<le> chain_fuel split_env"
    using ref_oks by (simp_all add: split_env_def unformat_ok_def tx_live_def hash_ok_def hash_keys_def)
  have lru: "lru_inv split_env ex_idle" using ex_idle_lru by (simp add: lru_inv_def hash_keys_def split_env_def)
  have copy: "pktmbuf_copy split_env Small_mbuf_pool 0x1000 (mbufs ex_idle) = (0x8000, ?M)"
    by (simp add: split_env_def split_copy_def)
  have w: "waiting (ex_idle\<lparr>mbufs := ?M\<rparr>) 0x8000 ?b 7 client_ip client_mac"
    by (rule ex_request_waiting [where t = "replicate 160 97"]) simp_all
  have seg: "text_segment ?b'" by (simp add: text_segment_def list_all_length)
  have r: "reply_at (ex_idle\<lparr>mbufs := ?M(0x3000 := Some ?r)\<rparr>) 0x3000 (request_id ex_idle) 0 1 [0, 0] (str ''VALUE ab 0 1'') [0]"
    unfolding ex_idle_fields by (rule ex_reply_at) simp_all
  have new: "hash_lookup_data split_env (client_pkts ex_idle) (signature (request_id ex_idle) (str ''ab'')) = None"
    by (simp add: split_env_def)
  have "request_text_len (ukeys ex_idle @ [str ''ab'']) \<le> MAX_PAYLOAD_LEN"
    by (simp add: request_text_len_def GETS_LEN_def ukeys_def)
  from segmented_copy_crashes [OF env lru ex_idle_group ex_key _ this new _ copy w _ _ _ seg _ _ r, of 1 "0x9000" "str ''0 1''"]
  show ?thesis by simp
qed

end
