(* ===== verification/Sharing.thy ===== *)
theory Sharing
  imports Requests
begin

text \<open>
  Several clients that ask for one key: memcached is asked once, and its reply goes to every one
  of them. While memcached is busy their packets are linked into one chain, the last to ask first.
\<close>

section \<open>Joining those who wait\<close>

text \<open>The clients \<open>ws\<close> wait for the key \<open>k\<close> of the group, the last to ask first.\<close>

definition share :: "('h, 'e) app_env_scheme \<Rightarrow> 'h app_state \<Rightarrow> byte list \<Rightarrow> (u64 \<times> u16 \<times> u32 \<times> byte list) list \<Rightarrow> bool" where
  "share e s k ws \<longleftrightarrow> k \<in> set (ukeys s) \<and> ws \<noteq> [] \<and>
     (\<exists>slot. hash_lookup_data e (client_pkts s) (signature (request_id s) k) = Some (slot, fst (hd ws)) \<and>
        pkt_counts s slot = 1) \<and> chain s (fst (hd ws)) ws"

text \<open>A client's packet that asks for \<open>k\<close> only.\<close>

definition asks :: "'h app_state \<Rightarrow> byte list \<Rightarrow> u64 \<times> u16 \<times> u32 \<times> byte list \<Rightarrow> bool" where
  "asks s k w \<longleftrightarrow> (case w of (m, crid, src, mac) \<Rightarrow>
     (\<exists>z. request_at s m crid (str ''gets'' @ 32 # k) z) \<and> (\<exists>b. waiting s m b crid src mac \<and> mb_next b = 0) \<and>
     m \<noteq> memcached_pkt s)"

lemma asks_other:
  assumes "mbufs t (fst w) = mbufs s (fst w)" "known_haddrs t = known_haddrs s" "memcached_pkt t = memcached_pkt s"
  shows "asks t k w = asks s k w"
  using assms waiting_other [OF _ assms(2)] by (cases w) (simp add: asks_def request_at_def)

text \<open>A key clients already wait for, of a request of any length: its packet goes to the head of the
  chain.\<close>

lemma client_key_links:
  assumes ok: "hash_ok e" and inv: "lru_inv e s" "group_inv s" and k: "key_ok k"
    and len: "length (signature (request_id s) k) < MAX_KEY_LENGTH"
    and known: "hash_lookup_data e (client_pkts s) (signature (request_id s) k) = Some (pos, head)"
    and buf: "key_buffer e i m (mbufs s) = (c, M)" "M c = Some b"
  shows "\<exists>t slot. client_key e m i k s = (if group_full t then construct_pkt_and_send_to_server e True t else Inr t) \<and>
     (if k \<in> set (ukeys s) then group_inv t else group_pending t) \<and>
     ukeys t = (if k \<in> set (ukeys s) then ukeys s else ukeys s @ [k]) \<and> lru_inv e t \<and>
     request_id t = request_id s \<and> trace t = trace s \<and>
     hash_lookup_data e (client_pkts t) (signature (request_id s) k) = Some (slot, c) \<and> pkt_counts t slot = 1 \<and>
     (\<forall>k'. k' \<noteq> signature (request_id s) k \<longrightarrow> hash_lookup_data e (client_pkts t) k' = hash_lookup_data e (client_pkts s) k') \<and>
     mbufs t = M(c := Some (b\<lparr>mb_next := head\<rparr>)) \<and> known_haddrs t = known_haddrs s \<and>
     memcached_pkt t = memcached_pkt s \<and> outstanding_req t = outstanding_req s \<and> last_send_clock t = last_send_clock s"
proof -
  let ?sig = "signature (request_id s) k"
  obtain s1 a n u where ins: "insert_ukey_group k s = Inr s1"
    and s1: "s1 = s\<lparr>ukey := a, ukey_len := n, total_ukey_size := u\<rparr>"
      "ukeys s1 = (if k \<in> set (ukeys s) then ukeys s else ukeys s @ [k])"
      "if k \<in> set (ukeys s) then group_inv s1 else group_pending s1"
    using insert_ukey_group_ok [OF inv(2) k] by auto
  let ?s2 = "s1\<lparr>key_hold := ?sig, mbufs := M\<rparr>"
  have "hash_lookup_data e (client_pkts ?s2) (key_hold ?s2) = Some (pos, head)" "mbufs ?s2 c = Some b"
    using known buf(2) by (simp_all add: s1(1))
  from register_known [OF ok this] obtain h slot where
    reg: "register_client e c ?s2 = Inr (?s2\<lparr>client_pkts := h,
       mbufs := (mbufs ?s2)(c := Some (b\<lparr>mb_next := head\<rparr>)), pkt_counts := (pkt_counts ?s2)(slot := 1)\<rparr>)" (is "_ = Inr ?t")
    and slot: "hash_lookup_data e h ?sig = Some (slot, c)"
      "\<forall>k'. k' \<noteq> ?sig \<longrightarrow> hash_lookup_data e h k' = hash_lookup_data e (client_pkts s) k'"
    by (auto simp: s1(1))
  have "client_key e m i k s = bindr (register_client e c ?s2)
      (\<lambda>s. if group_full s then construct_pkt_and_send_to_server e True s else Inr s)"
    using len buf(1) by (cases i) (auto simp: client_key_def ins sprint_key_def key_buffer_def s1(1))
  then have run: "client_key e m i k s = (if group_full ?t then construct_pkt_and_send_to_server e True ?t else Inr ?t)"
    by (simp only: reg bindr_Inr)
  have same: "same_group s1 ?t" by (simp add: same_group_def)
  have "if k \<in> set (ukeys s) then group_inv ?t else group_pending ?t"
    using s1(3) same_group_transfer(2,3) [OF same] by (simp split: if_splits)
  moreover have "lru_inv e ?t"
    by (rule register_client_lru [OF ok _ reg]) (use inv(1) in \<open>simp add: lru_inv_def s1(1)\<close>)
  ultimately show ?thesis
    using slot s1(2) same_group_ukeys [OF same] unfolding run
    by (intro exI [of _ ?t] exI [of _ slot]) (simp add: s1(1) cong: if_cong)
qed

lemma client_key_chains:
  assumes ok: "hash_ok e" and inv: "lru_inv e s" "group_inv s" and k: "key_ok k" "k \<in> set (ukeys s)"
    and len: "length (signature (request_id s) k) < MAX_KEY_LENGTH"
    and known: "hash_lookup_data e (client_pkts s) (signature (request_id s) k) = Some (pos, head)"
    and b: "mbufs s m = Some b"
  shows "\<exists>t slot. client_key e m 0 k s = Inr t \<and> lru_inv e t \<and> group_inv t \<and> ukeys t = ukeys s \<and>
     request_id t = request_id s \<and> calls (trace t) = calls (trace s) \<and>
     hash_lookup_data e (client_pkts t) (signature (request_id s) k) = Some (slot, m) \<and> pkt_counts t slot = 1 \<and>
     mbufs t = (mbufs s)(m := Some (b\<lparr>mb_next := head\<rparr>)) \<and> known_haddrs t = known_haddrs s \<and>
     memcached_pkt t = memcached_pkt s \<and> outstanding_req t = outstanding_req s \<and> last_send_clock t = last_send_clock s"
proof -
  have "key_buffer e 0 m (mbufs s) = (m, mbufs s)" by (simp add: key_buffer_def)
  from client_key_links [OF ok inv k(1) len known this b] k(2) obtain t slot where
    t: "client_key e m 0 k s = (if group_full t then construct_pkt_and_send_to_server e True t else Inr t)"
      "group_inv t" "ukeys t = ukeys s" "lru_inv e t" "request_id t = request_id s" "trace t = trace s"
      "hash_lookup_data e (client_pkts t) (signature (request_id s) k) = Some (slot, m)" "pkt_counts t slot = 1"
      "mbufs t = (mbufs s)(m := Some (b\<lparr>mb_next := head\<rparr>))" "known_haddrs t = known_haddrs s"
      "memcached_pkt t = memcached_pkt s" "outstanding_req t = outstanding_req s" "last_send_clock t = last_send_clock s"
    by auto
  have "\<not> group_full t"
    using t(2) group_full_iff [of t] group_inv_len [of t] by (auto simp: group_inv_def)
  then show ?thesis using t by (intro exI [of _ t] exI [of _ slot]) simp
qed

text \<open>A request for one key while memcached is busy: only the key is collected.\<close>

lemma asks_single:
  assumes w: "asks s k (m, crid, src, mac)" and k: "key_text k" "length k \<le> 1400"
    and busy: "memcached_pkt s \<noteq> 0" and key: "client_key e m 0 k s = Inr t" "\<not> unat (outstanding_req t) < MIN_OUTSTANDING_REQ"
  shows "app_client_in e m 34 a s = Inr t"
proof -
  obtain z where at: "request_at s m crid (str ''gets'' @ 32 # k) z" using w by (auto simp: asks_def)
  have init: "init_memcached_pkt e m s = s" using busy by (simp add: init_memcached_pkt_def)
  have "app_client_in e m 34 a s = bindr (strip_keys ((str ''gets'' @ 32 # k) @ [13, 10] @ z) (word_of_nat (length (str ''gets'' @ 32 # k))))
      (\<lambda>keys. bindr (client_keys e m 0 keys s) (\<lambda>s.
        if unat (outstanding_req s) < MIN_OUTSTANDING_REQ then construct_pkt_and_send_to_server e False s else Inr s))"
    using app_client_in_reads [OF at, of e a] by (simp only: init)
  then show ?thesis using key by (simp only: strip_single_key [OF k] bindr_Inr client_keys.simps if_False)
qed

text \<open>What stays while clients join.\<close>

definition kept_busy :: "u64 set \<Rightarrow> 'h app_state \<Rightarrow> 'h app_state \<Rightarrow> bool" where
  "kept_busy ms s t \<longleftrightarrow> request_id t = request_id s \<and> known_haddrs t = known_haddrs s \<and>
     memcached_pkt t = memcached_pkt s \<and> outstanding_req t = outstanding_req s \<and>
     last_send_clock t = last_send_clock s \<and> (\<forall>a. a \<notin> ms \<longrightarrow> mbufs t a = mbufs s a)"

lemma asks_join:
  assumes ok: "hash_ok e" and inv: "lru_inv e s" "group_inv s" and k: "key_text k" "length k \<le> 1400"
    and busy: "memcached_pkt s \<noteq> 0" "\<not> unat (outstanding_req s) < MIN_OUTSTANDING_REQ"
    and w: "asks s k w" and ws: "share e s k ws" "fst w \<notin> fst ` set ws"
  shows "\<exists>t. app_client_in e (fst w) 34 a s = Inr t \<and> share e t k (w # ws) \<and> lru_inv e t \<and> group_inv t \<and>
     ukeys t = ukeys s \<and> calls (trace t) = calls (trace s) \<and> kept_busy {fst w} s t"
proof -
  obtain m crid src mac where w_eq: "w = (m, crid, src, mac)" by (metis surj_pair)
  obtain b where b: "waiting s m b crid src mac" "mbufs s m = Some b" "m \<noteq> 0"
    using w by (auto simp: asks_def w_eq waiting_def)
  obtain slot where known: "hash_lookup_data e (client_pkts s) (signature (request_id s) k) = Some (slot, fst (hd ws))"
    and "k \<in> set (ukeys s)" "chain s (fst (hd ws)) ws" using ws(1) by (auto simp: share_def)
  moreover have "key_ok k" using k(1) by (simp add: key_text_def key_ok_def)
  ultimately obtain t slot' where t: "client_key e m 0 k s = Inr t" "lru_inv e t" "group_inv t" "ukeys t = ukeys s"
    "request_id t = request_id s" "calls (trace t) = calls (trace s)"
    "hash_lookup_data e (client_pkts t) (signature (request_id s) k) = Some (slot', m)" "pkt_counts t slot' = 1"
    "mbufs t = (mbufs s)(m := Some (b\<lparr>mb_next := fst (hd ws)\<rparr>))" "known_haddrs t = known_haddrs s"
    "memcached_pkt t = memcached_pkt s" "outstanding_req t = outstanding_req s" "last_send_clock t = last_send_clock s"
    using client_key_chains [OF ok inv _ _ signature_fits [OF k(2)] known b(2)] by blast
  have "chain t (fst (hd ws)) ws"
    using \<open>chain s (fst (hd ws)) ws\<close> ws(2) by (subst chain_other [of ws t s]) (auto simp: t(9,10) w_eq)
  moreover have "waiting t m (b\<lparr>mb_next := fst (hd ws)\<rparr>) crid src mac"
    using b(1) by (simp add: waiting_def t(9,10) arp_lookup_mac_def)
  ultimately have "chain t m (w # ws)" by (auto simp: w_eq)
  then have "share e t k (w # ws)" using t(4,5,7,8) \<open>k \<in> set (ukeys s)\<close> by (auto simp: share_def w_eq)
  moreover have "app_client_in e m 34 a s = Inr t"
    by (rule asks_single [OF w [unfolded w_eq] k busy(1) t(1)]) (simp add: t(12) busy(2))
  ultimately show ?thesis using t by (intro exI [of _ t]) (simp add: kept_busy_def w_eq)
qed

lemma asks_first:
  assumes ok: "hash_ok e" and inv: "lru_inv e s" "group_inv s" and k: "key_text k" "length k \<le> 1400"
    and busy: "memcached_pkt s \<noteq> 0" "\<not> unat (outstanding_req s) < MIN_OUTSTANDING_REQ"
    and w: "asks s k w" and fits: "request_text_len (ukeys s @ [k]) \<le> MAX_PAYLOAD_LEN"
    and new: "hash_lookup_data e (client_pkts s) (signature (request_id s) k) = None"
  shows "\<exists>t. app_client_in e (fst w) 34 a s = Inr t \<and> share e t k [w] \<and> lru_inv e t \<and> group_inv t \<and>
     ukeys t = merge_keys (ukeys s) [k] \<and> calls (trace t) = calls (trace s) @ evicted e s \<and> kept_busy {fst w} s t"
proof -
  obtain m crid src mac where w_eq: "w = (m, crid, src, mac)" by (metis surj_pair)
  obtain b where b: "waiting s m b crid src mac" "mb_next b = 0" using w by (auto simp: asks_def w_eq)
  have ok_k: "key_ok k" using k(1) by (simp add: key_text_def key_ok_def)
  have "key_buffer e 0 m (mbufs s) = (m, mbufs s)" by (simp add: key_buffer_def)
  from client_key_adds [OF ok inv ok_k signature_fits [OF k(2)] new this] obtain t slot where
    step: "client_key e m 0 k s = (if group_full t then construct_pkt_and_send_to_server e True t else Inr t)"
    and grp: "if k \<in> set (ukeys s) then group_inv t else group_pending t"
      "ukeys t = (if k \<in> set (ukeys s) then ukeys s else ukeys s @ [k])"
    and t: "request_id t = request_id s" "calls (trace t) = calls (trace s) @ evicted e s" "pkt_counts t slot = 1"
      "hash_lookup_data e (client_pkts t) (signature (request_id s) k) = Some (slot, m)" "lru_inv e t"
      "mbufs t = mbufs s" "known_haddrs t = known_haddrs s" "memcached_pkt t = memcached_pkt s" "outstanding_req t = outstanding_req s"
      "last_send_clock t = last_send_clock s"
    by blast
  have open_: "\<not> group_full t" by (rule group_open [OF grp fits])
  then have run: "client_key e m 0 k s = Inr t" "group_inv t"
    using step grp(1) group_pending_inv by (auto split: if_splits)
  have "waiting t m b crid src mac" using b(1) by (subst waiting_other [of t m s]) (simp_all add: t)
  then have "chain t m [w]" using b(2) by (auto simp: w_eq)
  then have "share e t k [w]" using t(1,3,4) grp(2) by (auto simp: share_def w_eq)
  moreover have "app_client_in e m 34 a s = Inr t"
    by (rule asks_single [OF w [unfolded w_eq] k busy(1) run(1)]) (simp add: t(9) busy(2))
  ultimately show ?thesis using t run(2) grp(2) by (intro exI [of _ t]) (simp add: kept_busy_def w_eq)
qed

text \<open>Packets handled as requests, one after another, each with the address it came from.\<close>

primrec serve_clients ::
  "('h, 'e) app_env_scheme \<Rightarrow> (u64 \<times> u16 \<times> u32 \<times> byte list) list \<Rightarrow> 'h app_state \<Rightarrow> 'h app_state res" where
  "serve_clients e [] s = Inr s"
| "serve_clients e (w # ws) s = bindr (app_client_in e (fst w) 34 (fst (snd (snd w))) s) (serve_clients e ws)"

lemma kept_busy_trans: "kept_busy A s t \<Longrightarrow> kept_busy B t u \<Longrightarrow> kept_busy (A \<union> B) s u"
  by (simp add: kept_busy_def)

lemma asks_rest:
  assumes "\<forall>v \<in> set cs. asks s k v" "fst w \<notin> fst ` set cs" "kept_busy {fst w} s t"
  shows "\<forall>v \<in> set cs. asks t k v"
proof
  fix v assume v: "v \<in> set cs"
  from imageI [OF this, of fst] assms(2) have "fst v \<noteq> fst w" by metis
  then have "asks t k v = asks s k v" using assms(3) by (intro asks_other) (simp_all add: kept_busy_def)
  then show "asks t k v" using v assms(1) by simp
qed

lemma clients_join:
  assumes "hash_ok e" "key_text k" "length k \<le> 1400"
  shows "lru_inv e s \<Longrightarrow> group_inv s \<Longrightarrow> memcached_pkt s \<noteq> 0 \<Longrightarrow> \<not> unat (outstanding_req s) < MIN_OUTSTANDING_REQ \<Longrightarrow>
    \<forall>w \<in> set cs. asks s k w \<Longrightarrow> distinct (map fst cs) \<Longrightarrow> share e s k ws \<Longrightarrow> fst ` set cs \<inter> fst ` set ws = {} \<Longrightarrow>
    \<exists>t. serve_clients e cs s = Inr t \<and> share e t k (rev cs @ ws) \<and> lru_inv e t \<and> group_inv t \<and> ukeys t = ukeys s \<and>
      calls (trace t) = calls (trace s) \<and> kept_busy (fst ` set cs) s t"
proof (induction cs arbitrary: s ws)
  case Nil
  then show ?case by (simp add: kept_busy_def)
next
  case (Cons w cs)
  have "asks s k w" "fst w \<notin> fst ` set ws" using Cons.prems(5,8) by auto
  from asks_join [OF assms(1) Cons.prems(1,2) assms(2,3) Cons.prems(3,4) this(1) Cons.prems(7) this(2)] obtain t where
    t: "app_client_in e (fst w) 34 (fst (snd (snd w))) s = Inr t" "share e t k (w # ws)" "lru_inv e t" "group_inv t"
    "ukeys t = ukeys s" "calls (trace t) = calls (trace s)" "kept_busy {fst w} s t" by blast
  have "\<forall>v \<in> set cs. asks t k v" by (rule asks_rest [OF _ _ t(7)]) (use Cons.prems(5,6) in simp_all)
  moreover have "memcached_pkt t \<noteq> 0" "\<not> unat (outstanding_req t) < MIN_OUTSTANDING_REQ" "distinct (map fst cs)"
    "fst ` set cs \<inter> fst ` set (w # ws) = {}"
    using Cons.prems(3,4,6,8) t(7) by (auto simp: kept_busy_def)
  ultimately obtain u where u: "serve_clients e cs t = Inr u" "share e u k (rev cs @ w # ws)" "lru_inv e u" "group_inv u"
    "ukeys u = ukeys t" "calls (trace u) = calls (trace t)" "kept_busy (fst ` set cs) t u"
    using Cons.IH [OF t(3,4) _ _ _ _ t(2)] by blast
  have "kept_busy (fst ` set (w # cs)) s u" using kept_busy_trans [OF t(7) u(7)] by simp
  then show ?case using t u by (intro exI [of _ u]) simp
qed

section \<open>One request, one reply, every client\<close>

lemma clients_collected:
  assumes "hash_ok e" "key_text k" "length k \<le> 1400" and inv: "lru_inv e s" "group_inv s"
    and busy: "memcached_pkt s \<noteq> 0" "\<not> unat (outstanding_req s) < MIN_OUTSTANDING_REQ"
    and cs: "cs \<noteq> []" "\<forall>w \<in> set cs. asks s k w" "distinct (map fst cs)"
    and fits: "request_text_len (ukeys s @ [k]) \<le> MAX_PAYLOAD_LEN"
    and new: "hash_lookup_data e (client_pkts s) (signature (request_id s) k) = None"
  shows "\<exists>t. serve_clients e cs s = Inr t \<and> share e t k (rev cs) \<and> group_inv t \<and> ukeys t = merge_keys (ukeys s) [k] \<and>
    calls (trace t) = calls (trace s) @ evicted e s \<and> kept_busy (fst ` set cs) s t"
proof -
  obtain w ws where c: "cs = w # ws" using cs(1) by (cases cs) auto
  have "asks s k w" using cs(2) by (simp add: c)
  from asks_first [OF assms(1) inv assms(2,3) busy this fits new] obtain t where
    t: "app_client_in e (fst w) 34 (fst (snd (snd w))) s = Inr t" "share e t k [w]" "lru_inv e t" "group_inv t"
    "ukeys t = merge_keys (ukeys s) [k]" "calls (trace t) = calls (trace s) @ evicted e s" "kept_busy {fst w} s t" by blast
  have "\<forall>v \<in> set ws. asks t k v" by (rule asks_rest [OF _ _ t(7)]) (use cs(2,3) in \<open>simp_all add: c\<close>)
  moreover have "memcached_pkt t \<noteq> 0" "\<not> unat (outstanding_req t) < MIN_OUTSTANDING_REQ" "distinct (map fst ws)"
    "fst ` set ws \<inter> fst ` set [w] = {}"
    using busy cs(3) t(7) by (auto simp: kept_busy_def c)
  ultimately obtain u where u: "serve_clients e ws t = Inr u" "share e u k (rev ws @ [w])" "group_inv u"
    "ukeys u = ukeys t" "calls (trace u) = calls (trace t)" "kept_busy (fst ` set ws) t u"
    using clients_join [OF assms(1-3) t(3,4) _ _ _ _ t(2), of ws] by blast
  have "kept_busy (fst ` set cs) s u" using kept_busy_trans [OF t(7) u(6)] by (simp add: c)
  then show ?thesis using t u by (intro exI [of _ u]) (simp add: c)
qed

text \<open>C3: several clients ask for one key while memcached is busy: nothing is sent for any of
  them; once 100 ms have passed memcached is asked for the key once, with the other keys that
  wait; and a one-packet reply to it goes to every one of the clients, the last to ask first,
  each under the id it chose; their packets are released once, as one chain, and nobody is
  registered under the key any more.\<close>

theorem clients_share_reply:
  assumes env: "unformat_ok e" "tx_live e" "hash_ok e" "length cs \<le> chain_fuel e"
    and inv: "lru_inv e s" "group_inv s" and k: "key_text k" "length k \<le> 1400"
    and busy: "memcached_pkt s \<noteq> 0" "MIN_OUTSTANDING_REQ \<le> unat (outstanding_req s)" "server_ready s smac"
    and cs: "cs \<noteq> []" "\<forall>w \<in> set cs. asks s k w" "distinct (map fst cs)"
    and fits: "request_text_len (ukeys s @ [k]) < MAX_PAYLOAD_LEN"
    and new: "hash_lookup_data e (client_pkts s) (signature (request_id s) k) = None"
  shows "\<exists>s1. serve_clients e cs s = Inr s1 \<and> calls (trace s1) = calls (trace s) @ evicted e s \<and>
    (elapsed TIMEOUT (clock_now e (trace (start_clock e s1)) - last_send_clock (start_clock e s1)) \<longrightarrow>
      (\<exists>s2. refresh_backlog e s1 = Inr s2 \<and> calls (trace s2) = calls (trace s1) @ [Refcnt (memcached_pkt s) 1,
          Tx (memcached_pkt s) (request_frame e smac (request_id s) (merge_keys (ukeys s) [k]))] \<and>
        (\<forall>m' rb seq rsv text z r. m' \<notin> fst ` set cs \<longrightarrow>
          reply_at (s2\<lparr>mbufs := (mbufs s2)(m' := Some rb)\<rparr>) m' (request_id s) seq 1 rsv text z \<longrightarrow>
          text = str ''VALUE '' @ k @ 32 # r \<longrightarrow> 2 \<le> length r \<longrightarrow>
          (\<exists>s3. app_server_in e m' 34 (s2\<lparr>mbufs := (mbufs s2)(m' := Some rb)\<rparr>) = Inr s3 \<and>
            calls (trace s3) = calls (trace s2) @ reply_frames e m' (reply_body seq 1 rsv text) (rev cs) @
              [Free m', Free (fst (last cs))] \<and>
            hash_lookup_data e (client_pkts s3) (signature (request_id s) k) = None))))"
proof -
  obtain s1 where s1: "serve_clients e cs s = Inr s1" "share e s1 k (rev cs)" "group_inv s1"
    "ukeys s1 = merge_keys (ukeys s) [k]" "calls (trace s1) = calls (trace s) @ evicted e s" "kept_busy (fst ` set cs) s s1"
    using clients_collected [OF env(3) k inv busy(1) _ cs _ new] busy(2) fits by auto
  have mp: "memcached_pkt s \<notin> fst ` set cs" using cs(2) by (auto simp: asks_def)
  have id: "request_id s1 = request_id s" "memcached_pkt s1 = memcached_pkt s" using s1(6) by (simp_all add: kept_busy_def)
  obtain slot where shared: "hash_lookup_data e (client_pkts s1) (signature (request_id s) k) = Some (slot, fst (last cs))"
    "pkt_counts s1 slot = 1" "chain s1 (fst (last cs)) (rev cs)"
    using s1(2) cs(1) by (auto simp: share_def hd_rev id)
  have "\<exists>s2. refresh_backlog e s1 = Inr s2 \<and> calls (trace s2) = calls (trace s1) @ [Refcnt (memcached_pkt s) 1,
          Tx (memcached_pkt s) (request_frame e smac (request_id s) (merge_keys (ukeys s) [k]))] \<and>
        (\<forall>m' rb seq rsv text z r. m' \<notin> fst ` set cs \<longrightarrow>
          reply_at (s2\<lparr>mbufs := (mbufs s2)(m' := Some rb)\<rparr>) m' (request_id s) seq 1 rsv text z \<longrightarrow>
          text = str ''VALUE '' @ k @ 32 # r \<longrightarrow> 2 \<le> length r \<longrightarrow>
          (\<exists>s3. app_server_in e m' 34 (s2\<lparr>mbufs := (mbufs s2)(m' := Some rb)\<rparr>) = Inr s3 \<and>
            calls (trace s3) = calls (trace s2) @ reply_frames e m' (reply_body seq 1 rsv text) (rev cs) @
              [Free m', Free (fst (last cs))] \<and>
            hash_lookup_data e (client_pkts s3) (signature (request_id s) k) = None))"
    if late: "elapsed TIMEOUT (clock_now e (trace (start_clock e s1)) - last_send_clock (start_clock e s1))"
  proof -
    have "server_ready s1 smac" using busy(3) s1(6) mp by (simp add: server_ready_def kept_busy_def arp_lookup_mac_def)
    moreover have "ukeys s1 \<noteq> []" using s1(2) by (auto simp: share_def)
    moreover have "request_text_len (ukeys s1) < MAX_PAYLOAD_LEN"
      using fits merge_keys_len [of "ukeys s" "[k]"] unfolding s1(4) by linarith
    ultimately obtain s2 where s2: "refresh_backlog e s1 = Inr s2" "calls (trace s2) = calls (trace s1) @ [Refcnt (memcached_pkt s) 1,
        Tx (memcached_pkt s) (request_frame e smac (request_id s) (ukeys s1))]" "ukeys s2 = []"
      "client_pkts s2 = client_pkts s1" "pkt_counts s2 = pkt_counts s1" "known_haddrs s2 = known_haddrs s1"
      "\<forall>a. a \<noteq> memcached_pkt s \<longrightarrow> mbufs s2 a = mbufs s1 a"
      using backlog_flushed [OF env(1,2) _ s1(3) _ _ late, of smac] unfolding id by blast
    have "ukey_len s2 = 0" using length_ukeys [of s2] by (simp add: s2(3) unat_eq_0 del: length_ukeys)
    have reply: "\<exists>s3. app_server_in e m' 34 (s2\<lparr>mbufs := (mbufs s2)(m' := Some rb)\<rparr>) = Inr s3 \<and>
        calls (trace s3) = calls (trace s2) @ reply_frames e m' (reply_body seq 1 rsv x) (rev cs) @
          [Free m', Free (fst (last cs))] \<and>
        hash_lookup_data e (client_pkts s3) (signature (request_id s) k) = None"
      if r: "m' \<notin> fst ` set cs" "reply_at (s2\<lparr>mbufs := (mbufs s2)(m' := Some rb)\<rparr>) m' (request_id s) seq 1 rsv x z"
        "x = str ''VALUE '' @ k @ 32 # r" "2 \<le> length r" for m' rb seq rsv x z r
    proof -
      let ?t = "s2\<lparr>mbufs := (mbufs s2)(m' := Some rb)\<rparr>"
      have "chain ?t (fst (last cs)) (rev cs)"
        using shared(3) s2(6,7) mp r(1) by (subst chain_other [of "rev cs" ?t s1]) force+
      moreover have "\<forall>w \<in> set (rev cs). fst w \<noteq> m'" using r(1) by auto
      moreover have "hash_lookup_data e (client_pkts ?t) (signature (request_id s) k) = Some (slot, fst (last cs))"
        "pkt_counts ?t slot = 1" "ukey_len ?t = 0"
        using shared(1,2) s2(4,5) \<open>ukey_len s2 = 0\<close> by simp_all
      moreover have "slot < MAP_ENTRIES" by (rule hash_pos [OF env(3) shared(1)])
      moreover have "unat (request_id s) < MAX_REQ_ID" using inv(2) by (simp add: group_inv_def group_base_def)
      ultimately show ?thesis
        using first_reply_delivered [OF env(1,2) r(2,3) k(1) r(4) signature_fits [OF k(2)], of slot "fst (last cs)" "rev cs"] env(4)
          hash_del_same [OF env(3)] by auto
    qed
    show ?thesis using s2(1,2) reply unfolding s1(4) by blast
  qed
  then show ?thesis using s1(1,5) by blast
qed

end
