(* ===== verification/Sharing_Examples.thy ===== *)
theory Sharing_Examples
  imports Sharing Request_Examples
begin

text \<open>Two packets that ask for \<open>ab\<close> while memcached is busy, and the reply to both.\<close>

definition ex_busy :: "ref_table app_state" where
  "ex_busy = ex_idle\<lparr>mbufs := [0x1000 \<mapsto> ex_request 7 (str ''gets ab''), 0x5000 \<mapsto> ex_request 9 (str ''gets ab''),
     0x2000 \<mapsto> ex_blank], outstanding_req := 1000, last_send_clock := - 1000000\<rparr>"

definition ex_clients :: "(u64 \<times> u16 \<times> u32 \<times> byte list) list" where
  "ex_clients = [(0x1000, 7, client_ip, client_mac), (0x5000, 9, client_ip, client_mac)]"

lemma ex_busy_fields [simp]:
  "known_haddrs ex_busy = ex_table" "memcached_pkt ex_busy = 0x2000" "outstanding_req ex_busy = 1000"
  "last_send_clock ex_busy = - 1000000" "ukeys ex_busy = []" "request_id ex_busy = 0" "client_pkts ex_busy = []"
  "trace ex_busy = []"
  by (simp_all add: ex_busy_def ukeys_def)

lemma ex_busy_ok: "lru_inv ref_env ex_busy" "group_inv ex_busy" "server_ready ex_busy server_mac"
  using ex_idle_lru ex_idle_group
  by (simp_all add: ex_busy_def lru_inv_def hash_keys_def group_inv_def group_base_def ukeys_def ex_ready)

lemma ex_busy_asks:
  assumes "mbufs ex_busy a = Some (ex_request crid (str ''gets ab''))" "a \<noteq> 0" "a \<noteq> 0x2000"
  shows "asks ex_busy (str ''ab'') (a, crid, client_ip, client_mac)"
proof -
  have "request_at ex_busy a crid (str ''gets'' @ 32 # str ''ab'') []"
    using ex_request_at [OF assms(1)] by simp
  moreover have "waiting ex_busy a (ex_request crid (str ''gets ab'')) crid client_ip client_mac"
    by (rule ex_request_waiting [OF assms(1) refl assms(2)]) simp_all
  moreover have "mb_next (ex_request crid (str ''gets ab'')) = 0" by (simp add: ex_request_def)
  ultimately show ?thesis using assms(3) by (auto simp: asks_def)
qed

theorem clients_share_reply_witness:
  "\<exists>s1 s2 s3. serve_clients ref_env ex_clients ex_busy = Inr s1 \<and> calls (trace s1) = [] \<and>
     refresh_backlog ref_env s1 = Inr s2 \<and>
     calls (trace s2) = [Refcnt 0x2000 1, Tx 0x2000 (request_frame ref_env server_mac 0 [str ''ab''])] \<and>
     app_server_in ref_env 0x3000 34 (s2\<lparr>mbufs := (mbufs s2)(0x3000 := Some (ex_reply 0 0 1 (str ''VALUE ab 0 1'')))\<rparr>) = Inr s3 \<and>
     calls (trace s3) = calls (trace s2) @ reply_frames ref_env 0x3000 (reply_body 0 1 [0, 0] (str ''VALUE ab 0 1''))
       (rev ex_clients) @ [Free 0x3000, Free 0x5000]"
proof -
  let ?r = "ex_reply 0 0 1 (str ''VALUE ab 0 1'')"
  have cs: "length ex_clients \<le> chain_fuel ref_env" "ex_clients \<noteq> []" "\<forall>w \<in> set ex_clients. asks ex_busy (str ''ab'') w"
    "distinct (map fst ex_clients)" "fst (last ex_clients) = 0x5000" "0x3000 \<notin> fst ` set ex_clients"
    using ex_busy_asks [of "0x1000" 7] ex_busy_asks [of "0x5000" 9] by (simp_all add: ex_clients_def ex_busy_def)
  have k: "length (str ''ab'') \<le> 1400" "request_text_len (ukeys ex_busy @ [str ''ab'']) < MAX_PAYLOAD_LEN"
    "hash_lookup_data ref_env (client_pkts ex_busy) (signature (request_id ex_busy) (str ''ab'')) = None"
    "memcached_pkt ex_busy \<noteq> 0" "MIN_OUTSTANDING_REQ \<le> unat (outstanding_req ex_busy)"
    by (simp_all add: request_text_len_def GETS_LEN_def MIN_OUTSTANDING_REQ_def)
  have none: "evicted ref_env ex_busy = []" "merge_keys (ukeys ex_busy) [str ''ab''] = [str ''ab'']"
    by (simp_all add: evicted_def)
  obtain s1 where s1: "serve_clients ref_env ex_clients ex_busy = Inr s1" "last_send_clock s1 = - 1000000"
    using clients_collected [OF ref_hash_ok ex_key k(1) ex_busy_ok(1,2) k(4) _ cs(2-4) _ k(3)] k(2,5)
    by (auto simp: kept_busy_def)
  have late: "elapsed TIMEOUT (clock_now ref_env (trace (start_clock ref_env s1)) - last_send_clock (start_clock ref_env s1))"
    using s1(2) by (simp add: start_clock_def elapsed_def TIMEOUT_def CLOCKS_PER_SEC_def)
  have line: "str ''VALUE ab 0 1'' = str ''VALUE '' @ str ''ab'' @ 32 # str ''0 1''" "2 \<le> length (str ''0 1'')" by simp_all
  from clients_share_reply [OF ref_unformat_ok ref_tx_live ref_hash_ok cs(1) ex_busy_ok(1,2) ex_key k(1,4,5) ex_busy_ok(3)
      cs(2-4) k(2,3)]
  show ?thesis
  proof (elim exE conjE, goal_cases)
    case (1 t)
    then have t: "t = s1" using s1(1) by simp
    note served = 1(1,2) [unfolded t none]
    from mp [OF 1(3) [unfolded t] late] show ?case
    proof (elim exE conjE, goal_cases)
      case (1 s2)
      have "reply_at (s2\<lparr>mbufs := (mbufs s2)(0x3000 := Some ?r)\<rparr>) 0x3000 (request_id ex_busy) 0 1 [0, 0] (str ''VALUE ab 0 1'') [0]"
        unfolding ex_busy_fields by (rule ex_reply_at) simp_all
      from 1(3) [rule_format, OF cs(6) this line] show ?case
      proof (elim exE conjE, goal_cases)
        case (1 s3)
        then show ?case
          using served \<open>refresh_backlog ref_env s1 = Inr s2\<close>
            \<open>calls (trace s2) = calls (trace s1) @ _\<close> [unfolded none ex_busy_fields]
          by (intro exI [of _ s1] exI [of _ s2] exI [of _ s3]) (simp add: cs(5) del: str_simps)
      qed
    qed
  qed
qed

end
