(* ===== verification/End_To_End.thy ===== *)
theory End_To_End
  imports Requests Client_Network
begin

text \<open>
  The random client and the middlebox together: a request leaves the client in a frame, is
  merged and sent on; the replies to its keys come in any order, and the client shows them.
\<close>

section \<open>From the middlebox to the client\<close>

text \<open>The frames among the calls made, and a datagram that arrived in one of them.\<close>

definition sent_frames :: "event list \<Rightarrow> byte list list" where
  "sent_frames evs = concat (map (\<lambda>ev. case ev of Tx m f \<Rightarrow> [f] | _ \<Rightarrow> []) evs)"

definition arrives :: "byte list \<Rightarrow> datagram \<Rightarrow> byte list \<Rightarrow> bool" where
  "arrives ip d f \<longleftrightarrow> (\<exists>p src. d = Some (p, src) \<and> carries src (client_addr ip) p f)"

lemma sent_frames_replies:
  "sent_frames (concat (map (\<lambda>(k, y, m', rb). [Refcnt m' 1, Tx m' (F y), Free m', Free (heads k)]) rs)) =
     map (\<lambda>(k, y, r). F y) rs"
  by (induction rs) (auto simp: sent_frames_def)

text \<open>What arrives in a frame of the middlebox is what it sent, from its address.\<close>

lemma arrives_from_middlebox:
  assumes "arrives ip d (udp_frame e mac (ip_str_to_int ip) p)" "length mac = 6" "inet_pton ip \<noteq> None" "length p \<le> 1472"
  shows "d = Some (p, client_addr MIDDLEBOX_IP)"
proof -
  obtain p' src where d: "d = Some (p', src)" "carries src (client_addr ip) p' (udp_frame e mac (ip_str_to_int ip) p)"
    using assms(1) by (auto simp: arrives_def)
  have "carries (client_addr MIDDLEBOX_IP) (client_addr ip) p (udp_frame e mac (ip_str_to_int ip) p)"
    using assms(2,4) client_addr_known [OF assms(3)]
    by (intro udp_frame_carries) (simp_all add: client_addr_fields(2) LOCAL_PORT_def TARGET_PORT_def)
  moreover have "length (udp_frame e mac (ip_str_to_int ip) p) < 60000"
    using udp_frame_length [OF assms(2), of e "ip_str_to_int ip" p] assms(4) by simp
  ultimately show ?thesis using carries_unique [OF d(2)] by (simp add: d(1))
qed

text \<open>The text of a reply: without its header and its line end, up to a NUL.\<close>

definition reply_text :: "byte list \<Rightarrow> byte list" where
  "reply_text y = cstr (take (length y - 8) (drop 6 y))"

lemma answers_length: "answers rid k y rb \<Longrightarrow> 8 \<le> length y"
  by (auto simp: answers_def reply_body_def)


end
