(* ===== verification/End_Examples.thy ===== *)
theory End_Examples
  imports End_To_End Request_Examples Client_Examples
begin

text \<open>A burst of the random client at four keys, answered in the opposite order.\<close>

definition ex_keys4 :: "byte list list" where
  "ex_keys4 = [str ''ab'', str ''c'', str ''de'', str ''f'']"

definition ex_rand :: "nat \<Rightarrow> nat" where "ex_rand i = (if i < 4 then i else 0)"

lemma ex_keys4_ok: "client_keys_ok ex_keys4"
  by (simp add: client_keys_ok_def ex_keys4_def)

lemma ex_picked: "picked 4 ex_rand 0 ex_keys4 = ex_keys4"
proof -
  have "[0..<4] = [0, 1, 2, 3 :: nat]" by (simp add: upt_rec)
  then show ?thesis by (simp add: picked_def ex_rand_def ex_keys4_def del: str_simps)
qed

lemma ex_burst_frame:
  "carries (client_addr ex_ip) (client_addr MIDDLEBOX_IP) (rand_frame ex_rand 0 ex_keys4) (mb_data (ex_packet 24 ex_keys4))"
proof -
  let ?p = "rand_frame ex_rand 0 ex_keys4"
  have p: "?p = to_be16 24 @ [0, 0, 0, 1, 0, 0] @ (str ''gets'' @ spaced ex_keys4) @ [13, 10]"
    by (simp only: rand_frame_def ex_picked request_bytes_def CLIENT_HEADER_def CLIENT_TAIL_def)
      (simp add: ex_rand_def)
  then have "length ?p + 8 = length (str ''gets'' @ spaced ex_keys4) + 18" by simp
  then have "mb_data (ex_packet 24 ex_keys4) = ex_headers client_ip (word_of_nat (length ?p + 8)) @ ?p"
    by (simp only: p) (simp add: ex_packet_def ex_request_def)
  then show ?thesis using ex_headers_carry [of ?p] by simp
qed

lemma ex_burst_request: "new_request copy_env (ex_asked 24 ex_keys4) 0x1000 24 client_ip client_mac ex_keys4"
  by (rule ex_asked_request) (simp_all add: ex_keys4_def key_text_def MAX_KEY_LENGTH_def request_text_len_def GETS_LEN_def)

lemma ex_answer_length: "length (reply_body 0 1 [0, 0] (ex_text k)) = length k + 16"
  by (simp add: reply_body_def ex_text_def)

lemma ex_key_short: "k \<in> set ex_keys4 \<Longrightarrow> length k \<le> 2"
  by (auto simp: ex_keys4_def)


end
