(* ===== verification/Waiters.thy ===== *)
theory Waiters
  imports Sharing
begin

text \<open>
  The table of clients and the packet heap together: every signature leads to a chain of packets
  that can wait, and the chains grow only by packets nobody held before. A chain never returns to
  itself, so it is no longer than the heap, and the walk along it ends.
\<close>

section \<open>Chains\<close>

lemma waiting_unique:
  "waiting s a b rid src mac \<Longrightarrow> waiting s a b' rid' src' mac' \<Longrightarrow> b = b' \<and> rid = rid' \<and> src = src' \<and> mac = mac'"
  by (auto simp: waiting_def)

lemma chain_unique: "chain s p ws \<Longrightarrow> chain s p ws' \<Longrightarrow> ws = ws'"
proof (induction ws arbitrary: p ws')
  case Nil
  then show ?case by (cases ws') (auto simp: waiting_def)
next
  case (Cons w ws)
  obtain a rid src mac where w: "w = (a, rid, src, mac)" by (cases w)
  with Cons.prems(1) obtain b where b: "p = a" "waiting s a b rid src mac" "chain s (mb_next b) ws" by auto
  then have "p \<noteq> 0" by (auto simp: waiting_def)
  with Cons.prems(2) obtain a' rid' src' mac' vs b' where v: "ws' = (a', rid', src', mac') # vs" "p = a'"
    "waiting s a' b' rid' src' mac'" "chain s (mb_next b') vs"
    by (cases ws') auto
  have eq: "b = b'" "rid = rid'" "src = src'" "mac = mac'" using waiting_unique [OF b(2)] v(3) b(1) v(2) by auto
  then have "ws = vs" using Cons.IH b(3) v(4) by simp
  then show ?case using eq b(1) v(1,2) by (simp add: w)
qed

lemma chain_suffix: "chain s p (us @ w # ws) \<Longrightarrow> chain s (fst w) (w # ws)"
proof (induction us arbitrary: p)
  case Nil
  then show ?case by (cases w) auto
qed auto

lemma chain_distinct: "chain s p ws \<Longrightarrow> distinct (map fst ws)"
proof (induction ws arbitrary: p)
  case (Cons w ws)
  obtain b :: mbuf where "chain s (mb_next b) ws" and p: "p = fst w" using Cons.prems by (cases w) auto
  then have "distinct (map fst ws)" by (intro Cons.IH)
  moreover have "fst w \<notin> fst ` set ws"
  proof
    assume "fst w \<in> fst ` set ws"
    then obtain v where v: "v \<in> set ws" "fst v = fst w" by auto
    then obtain us vs where ws: "ws = us @ v # vs" by (meson split_list)
    have "chain s p ((w # us) @ v # vs)" using Cons.prems by (simp add: ws)
    then have "chain s p (v # vs)" using v(2) unfolding p by (metis chain_suffix)
    from chain_unique [OF this Cons.prems] have "length (v # vs) = length (w # ws)" by simp
    then show False by (simp add: ws)
  qed
  ultimately show ?case by simp
qed simp

lemma chain_heap: "chain s p ws \<Longrightarrow> fst ` set ws \<subseteq> dom (mbufs s)"
proof (induction ws arbitrary: p)
  case (Cons w ws)
  then obtain b :: mbuf where "chain s (mb_next b) ws" "mbufs s (fst w) \<noteq> None" by (cases w) (auto simp: waiting_def)
  then show ?case using Cons.IH by auto
qed simp

lemma chain_length:
  assumes "chain s p ws" "finite (dom (mbufs s))"
  shows "length ws \<le> card (dom (mbufs s))"
proof -
  have "length ws = card (fst ` set ws)"
    using distinct_card [OF chain_distinct [OF assms(1)]] by simp
  also have "\<dots> \<le> card (dom (mbufs s))" by (rule card_mono [OF assms(2) chain_heap [OF assms(1)]])
  finally show ?thesis .
qed

section \<open>The packets the table holds\<close>

definition held :: "('h, 'e) app_env_scheme \<Rightarrow> 'h app_state \<Rightarrow> u64 \<Rightarrow> bool" where
  "held e s a \<longleftrightarrow> (\<exists>sig pos head ws. hash_lookup_data e (client_pkts s) sig = Some (pos, head) \<and> chain s head ws \<and>
     a \<in> fst ` set ws)"

definition waiters :: "('h, 'e) app_env_scheme \<Rightarrow> 'h app_state \<Rightarrow> bool" where
  "waiters e s \<longleftrightarrow>
     (\<forall>sig pos head. hash_lookup_data e (client_pkts s) sig = Some (pos, head) \<longrightarrow> (\<exists>ws. chain s head ws)) \<and>
     \<not> held e s (memcached_pkt s)"

lemma held_heap: "held e s a \<Longrightarrow> mbufs s a \<noteq> None"
  using chain_heap by (fastforce simp: held_def)

lemma held_other:
  assumes "client_pkts t = client_pkts s" "mbufs t = mbufs s" "known_haddrs t = known_haddrs s"
  shows "held e t = held e s" "memcached_pkt t = memcached_pkt s \<Longrightarrow> waiters e t = waiters e s"
proof -
  have "chain t p ws = chain s p ws" for p ws by (rule chain_other) (simp_all add: assms)
  then have held: "held e t a = held e s a" for a by (simp add: held_def assms(1))
  then show "held e t = held e s" by blast
  show "waiters e t = waiters e s" if "memcached_pkt t = memcached_pkt s"
    using that held \<open>\<And>ws p. chain t p ws = chain s p ws\<close> by (simp add: waiters_def assms(1))
qed

lemma no_waiters:
  assumes "\<And>k. hash_lookup_data e (client_pkts s) k = None"
  shows "\<not> held e s a" "waiters e s"
  using assms by (simp_all add: held_def waiters_def)

lemma waiters_chain:
  assumes "waiters e s" "hash_lookup_data e (client_pkts s) sig = Some (pos, head)"
  obtains ws where "chain s head ws" "\<forall>w \<in> set ws. held e s (fst w)"
  using assms unfolding waiters_def held_def by blast

text \<open>Signatures may go and other packets may change.\<close>

lemma waiters_kept:
  assumes w: "waiters e s"
    and sub: "\<And>k p h. hash_lookup_data e (client_pkts t) k = Some (p, h) \<Longrightarrow> \<exists>p'. hash_lookup_data e (client_pkts s) k = Some (p', h)"
    and kept: "\<And>a. held e s a \<Longrightarrow> mbufs t a = mbufs s a" "known_haddrs t = known_haddrs s"
  shows "held e t a \<Longrightarrow> held e s a" "\<not> held e s (memcached_pkt t) \<Longrightarrow> waiters e t"
proof -
  have same: "\<exists>ws. chain s h ws \<and> chain t h ws \<and> (\<forall>w \<in> set ws. held e s (fst w))"
    if h: "hash_lookup_data e (client_pkts t) k = Some (p, h)" for k p h
  proof -
    obtain p' where "hash_lookup_data e (client_pkts s) k = Some (p', h)" using sub [OF h] by blast
    then obtain ws where ws: "chain s h ws" "\<forall>w \<in> set ws. held e s (fst w)" by (rule waiters_chain [OF w])
    moreover have "chain t h ws" using ws kept by (subst chain_other [of ws t s]) auto
    ultimately show ?thesis by blast
  qed
  show before: "held e s a" if a: "held e t a" for a
  proof -
    obtain sig p h ws where h: "hash_lookup_data e (client_pkts t) sig = Some (p, h)" "chain t h ws" "a \<in> fst ` set ws"
      using a unfolding held_def by blast
    from same [OF h(1)] obtain vs where "chain t h vs" "\<forall>w \<in> set vs. held e s (fst w)" by blast
    then show ?thesis using chain_unique [OF h(2)] h(3) by blast
  qed
  then show "waiters e t" if "\<not> held e s (memcached_pkt t)"
    using that same unfolding waiters_def by blast
qed

text \<open>A packet nobody held joins those who wait for a signature, or is the first.\<close>

lemma waiters_join:
  assumes w: "waiters e s"
    and new: "hash_lookup_data e (client_pkts t) sig = Some (slot, c)" "\<not> held e s c" "c \<noteq> memcached_pkt s"
    and others: "\<And>k. k \<noteq> sig \<Longrightarrow> hash_lookup_data e (client_pkts t) k = None \<or>
        hash_lookup_data e (client_pkts t) k = hash_lookup_data e (client_pkts s) k"
    and c: "waiting t c b rid src mac"
      "mb_next b = (case hash_lookup_data e (client_pkts s) sig of None \<Rightarrow> 0 | Some (p, head) \<Rightarrow> head)"
    and kept: "\<And>a. held e s a \<Longrightarrow> mbufs t a = mbufs s a" "known_haddrs t = known_haddrs s" "memcached_pkt t = memcached_pkt s"
  shows "waiters e t" "held e t a \<Longrightarrow> held e s a \<or> a = c"
proof -
  have still: "chain t h ws" if "chain s h ws" "\<forall>w \<in> set ws. held e s (fst w)" for h ws
    using that kept by (subst chain_other [of ws t s]) auto
  obtain vs where vs: "chain t c ((c, rid, src, mac) # vs)" "\<forall>w \<in> set vs. held e s (fst w)"
  proof (cases "hash_lookup_data e (client_pkts s) sig")
    case None
    have "chain t c [(c, rid, src, mac)]" using c None by auto
    then show ?thesis by (rule that) simp
  next
    case (Some x)
    obtain p head where x: "x = (p, head)" by (cases x)
    obtain ws where ws: "chain s head ws" "\<forall>w \<in> set ws. held e s (fst w)" using waiters_chain [OF w Some [unfolded x]] .
    have "chain t (mb_next b) ws" using still [OF ws] c(2) by (simp add: Some x)
    then have "chain t c ((c, rid, src, mac) # ws)" using c(1) by auto
    then show ?thesis using ws(2) by (rule that)
  qed
  have other: "\<exists>ws. chain t h ws \<and> (\<forall>w \<in> set ws. held e s (fst w))"
    if h: "hash_lookup_data e (client_pkts t) k = Some (p, h)" "k \<noteq> sig" for k p h
  proof -
    have "hash_lookup_data e (client_pkts s) k = Some (p, h)" using others [OF h(2)] h(1) by simp
    then obtain ws where "chain s h ws" "\<forall>w \<in> set ws. held e s (fst w)" by (rule waiters_chain [OF w])
    then show ?thesis using still by blast
  qed
  show before: "held e s a \<or> a = c" if a: "held e t a" for a
  proof -
    obtain k p h ws where h: "hash_lookup_data e (client_pkts t) k = Some (p, h)" "chain t h ws" "a \<in> fst ` set ws"
      using a unfolding held_def by blast
    show ?thesis
    proof (cases "k = sig")
      case True
      then have "h = c" using h(1) new(1) by simp
      then have "ws = (c, rid, src, mac) # vs" using h(2) by (intro chain_unique [OF _ vs(1)]) simp
      then show ?thesis using h(3) vs(2) by auto
    next
      case False
      then show ?thesis using other [OF h(1)] chain_unique [OF h(2)] h(3) by blast
    qed
  qed
  have "\<exists>ws. chain t h ws" if "hash_lookup_data e (client_pkts t) k = Some (p, h)" for k p h
  proof (cases "k = sig")
    case True
    then have "h = c" using that new(1) by simp
    then show ?thesis using vs(1) by blast
  next
    case False
    then show ?thesis using other [OF that] by blast
  qed
  moreover have "\<not> held e t (memcached_pkt t)" using before w new(3) kept(3) by (auto simp: waiters_def)
  ultimately show "waiters e t" unfolding waiters_def by blast
qed

end
