(* ===== verification/Service.thy ===== *)
theory Service
  imports Waiters
begin

text \<open>
  Any request of ordinary size is served in any state the invariants allow: new keys and keys
  others wait for, with or without a group that fills up on the way. The one exception is a group
  that comes to exactly \<open>MAX_PAYLOAD_LEN\<close> bytes, which the program cannot send.
\<close>

text \<open>A packet with its headers that fits a buffer of the small pool.\<close>

definition copyable :: "'z net_state_scheme \<Rightarrow> u64 \<Rightarrow> bool" where
  "copyable s m \<longleftrightarrow> (\<exists>b. mbufs s m = Some b \<and> 44 \<le> unat (mb_pkt_len b) \<and>
     unat (mb_pkt_len b) \<le> length (mb_data b) \<and> unat (mb_pkt_len b) + RTE_PKTMBUF_HEADROOM \<le> SMALL_MBUFS_SIZE)"

definition can_wait :: "'z net_state_scheme \<Rightarrow> u64 \<Rightarrow> bool" where
  "can_wait s m \<longleftrightarrow> (\<exists>b crid src mac. waiting s m b crid src mac)"

text \<open>A packet nobody holds that leads nowhere.\<close>

definition unlinked :: "('h, 'e) app_env_scheme \<Rightarrow> 'h app_state \<Rightarrow> u64 \<Rightarrow> bool" where
  "unlinked e s m \<longleftrightarrow> \<not> held e s m \<and> (\<forall>b. mbufs s m = Some b \<longrightarrow> mb_next b = 0)"

text \<open>A state in which requests can be served, with buffers for \<open>n\<close> keys; and one in which the packet
  \<open>m\<close> is being handled.\<close>

definition equipped :: "('h, 'e) app_env_scheme \<Rightarrow> byte list \<Rightarrow> nat \<Rightarrow> 'h app_state \<Rightarrow> bool" where
  "equipped e smac n s \<longleftrightarrow> lru_inv e s \<and> waiters e s \<and> server_ready s smac \<and> memcached_pkt s \<noteq> 0 \<and>
     finite (dom (mbufs s)) \<and> card (dom (mbufs s)) + n \<le> NUM_SMALL_MBUFS"

definition ready :: "('h, 'e) app_env_scheme \<Rightarrow> byte list \<Rightarrow> nat \<Rightarrow> 'h app_state \<Rightarrow> bool" where
  "ready e smac n s \<longleftrightarrow> equipped e smac n s \<and> group_inv s"

definition in_service :: "('h, 'e) app_env_scheme \<Rightarrow> byte list \<Rightarrow> u64 \<Rightarrow> nat \<Rightarrow> 'h app_state \<Rightarrow> bool" where
  "in_service e smac m n s \<longleftrightarrow> ready e smac n s \<and> copyable s m \<and> can_wait s m \<and> m \<noteq> memcached_pkt s"

text \<open>What handling the packet \<open>m\<close> leaves alone: the addresses, and every buffer but \<open>m\<close> and the
  one for requests to the server; only \<open>m\<close> and new buffers come to be held.\<close>

definition undisturbed :: "('h, 'e) app_env_scheme \<Rightarrow> u64 \<Rightarrow> 'h app_state \<Rightarrow> 'h app_state \<Rightarrow> bool" where
  "undisturbed e m s t \<longleftrightarrow> known_haddrs t = known_haddrs s \<and> memcached_pkt t = memcached_pkt s \<and>
     (\<forall>a. a \<noteq> m \<longrightarrow> a \<noteq> memcached_pkt s \<longrightarrow> mbufs s a \<noteq> None \<longrightarrow> mbufs t a = mbufs s a) \<and>
     dom (mbufs s) \<subseteq> dom (mbufs t) \<and> (\<forall>a. held e t a \<longrightarrow> held e s a \<or> a = m \<or> mbufs s a = None)"

lemma undisturbed_refl [simp]: "undisturbed e m s s"
  by (simp add: undisturbed_def)

lemma undisturbedD:
  assumes "undisturbed e m s t"
  shows "known_haddrs t = known_haddrs s" "memcached_pkt t = memcached_pkt s"
    "a \<noteq> m \<Longrightarrow> a \<noteq> memcached_pkt s \<Longrightarrow> mbufs s a \<noteq> None \<Longrightarrow> mbufs t a = mbufs s a"
    "mbufs t a = None \<Longrightarrow> mbufs s a = None" "held e t a \<Longrightarrow> held e s a \<or> a = m \<or> mbufs s a = None"
proof -
  have dom: "dom (mbufs s) \<subseteq> dom (mbufs t)" using assms by (simp add: undisturbed_def)
  show "mbufs t a = None \<Longrightarrow> mbufs s a = None" using dom by (meson domIff subsetD)
qed (use assms in \<open>simp_all add: undisturbed_def\<close>)

lemma undisturbed_trans:
  assumes "undisturbed e m s t" "undisturbed e m t u"
  shows "undisturbed e m s u"
proof -
  note t = undisturbedD [OF assms(1)] and u = undisturbedD [OF assms(2)]
  have "held e s a \<or> a = m \<or> mbufs s a = None" if "held e u a" for a
    using u(5) [OF that] by (elim disjE) (auto dest: t(4) t(5))
  moreover have "mbufs u a = mbufs s a" if "a \<noteq> m" "a \<noteq> memcached_pkt s" "mbufs s a \<noteq> None" for a
    using that t(3) [of a] t(2) u(3) [of a] by simp
  moreover have "dom (mbufs s) \<subseteq> dom (mbufs u)"
  proof
    fix a assume "a \<in> dom (mbufs s)"
    then show "a \<in> dom (mbufs u)" using t(4) [of a] u(4) [of a] by (cases "mbufs u a") auto
  qed
  ultimately show ?thesis unfolding undisturbed_def using t(1,2) u(1,2) by simp
qed

definition brimful :: "'h app_state \<Rightarrow> bool" where
  "brimful s \<longleftrightarrow> request_text_len (ukeys s) = MAX_PAYLOAD_LEN"

lemma copyable_buffer:
  assumes "small_copies e" "copyable s m" "can_wait s m" "finite (dom (mbufs s))" "card (dom (mbufs s)) < NUM_SMALL_MBUFS"
  shows "\<exists>c M b crid src mac. key_buffer e i m (mbufs s) = (c, M) \<and> M c = Some b \<and>
     waiting (s\<lparr>mbufs := M\<rparr>) c b crid src mac \<and>
     (if i = 0 then c = m \<and> M = mbufs s else mbufs s c = None \<and> mb_next b = 0) \<and> (\<forall>a. a \<noteq> c \<longrightarrow> M a = mbufs s a) \<and>
     finite (dom M) \<and> card (dom M) \<le> Suc (card (dom (mbufs s)))"
proof -
  obtain b crid src mac where w: "waiting s m b crid src mac" using assms(3) by (auto simp: can_wait_def)
  then have b: "mbufs s m = Some b" "44 \<le> unat (mb_pkt_len b)" "unat (mb_pkt_len b) + RTE_PKTMBUF_HEADROOM \<le> SMALL_MBUFS_SIZE"
    using assms(2) by (auto simp: waiting_def copyable_def)
  show ?thesis
  proof (cases "i = 0")
    case True
    then show ?thesis using w b(1) assms(4) by (auto simp: key_buffer_def)
  next
    case False
    obtain c b' where c: "pktmbuf_copy e Small_mbuf_pool m (mbufs s) = (c, (mbufs s)(c := Some b'))" "c \<noteq> 0" "mbufs s c = None"
      "mb_next b' = 0" "take (unat (mb_pkt_len b)) (mb_data b') = take (unat (mb_pkt_len b)) (mb_data b)"
      using assms(1,4,5) b unfolding small_copies_def by meson
    have "waiting (s\<lparr>mbufs := (mbufs s)(c := Some b')\<rparr>) c b' crid src mac"
      by (rule waiting_copy [OF w c(5) [symmetric] b(2)]) (simp_all add: c(2))
    then show ?thesis
      using False c(1,3,4) assms(4) by (intro exI [of _ c] exI [of _ "(mbufs s)(c := Some b')"] exI [of _ b'])
        (auto simp: key_buffer_def card_insert_if)
  qed
qed

text \<open>Registering a key, up to the test for a full group.\<close>

lemma client_key_registered:
  assumes ok: "hash_ok e" and inv: "lru_inv e s" "group_inv s" and k: "key_ok k" "length k \<le> 1400"
    and buf: "key_buffer e i m (mbufs s) = (c, M)" "M c = Some b"
  shows "\<exists>t. client_key e m i k s = (if group_full t then construct_pkt_and_send_to_server e True t else Inr t) \<and>
     (if k \<in> set (ukeys s) then group_inv t else group_pending t) \<and>
     ukeys t = (if k \<in> set (ukeys s) then ukeys s else ukeys s @ [k]) \<and> lru_inv e t \<and>
     known_haddrs t = known_haddrs s \<and> memcached_pkt t = memcached_pkt s \<and>
     (\<forall>a. a \<noteq> c \<longrightarrow> mbufs t a = M a) \<and> dom (mbufs t) = dom M \<and>
     (\<exists>slot. hash_lookup_data e (client_pkts t) (signature (request_id s) k) = Some (slot, c)) \<and>
     (\<forall>k'. k' \<noteq> signature (request_id s) k \<longrightarrow> hash_lookup_data e (client_pkts t) k' = None \<or>
        hash_lookup_data e (client_pkts t) k' = hash_lookup_data e (client_pkts s) k') \<and>
     mbufs t c = Some (b\<lparr>mb_next := (case hash_lookup_data e (client_pkts s) (signature (request_id s) k) of
        None \<Rightarrow> mb_next b | Some (p, head) \<Rightarrow> head)\<rparr>)"
proof (cases "hash_lookup_data e (client_pkts s) (signature (request_id s) k)")
  case None
  obtain t slot where "client_key e m i k s = (if group_full t then construct_pkt_and_send_to_server e True t else Inr t)"
    "if k \<in> set (ukeys s) then group_inv t else group_pending t"
    "ukeys t = (if k \<in> set (ukeys s) then ukeys s else ukeys s @ [k])" "lru_inv e t" "mbufs t = M"
    "known_haddrs t = known_haddrs s" "memcached_pkt t = memcached_pkt s"
    and sigs: "hash_lookup_data e (client_pkts t) (signature (request_id s) k) = Some (slot, c)"
      "\<forall>k'. k' \<noteq> signature (request_id s) k \<longrightarrow> hash_lookup_data e (client_pkts t) k' =
        (if k' = LRU_queue s (LRU_ptr s) then None else hash_lookup_data e (client_pkts s) k')"
    using client_key_adds [OF ok inv k(1) signature_fits [OF k(2)] None buf(1)] by (elim exE conjE)
  moreover have "\<forall>k'. k' \<noteq> signature (request_id s) k \<longrightarrow> hash_lookup_data e (client_pkts t) k' = None \<or>
      hash_lookup_data e (client_pkts t) k' = hash_lookup_data e (client_pkts s) k'" using sigs(2) by simp
  moreover have "mbufs t c = Some (b\<lparr>mb_next := (case hash_lookup_data e (client_pkts s) (signature (request_id s) k) of
      None \<Rightarrow> mb_next b | Some (p, head) \<Rightarrow> head)\<rparr>)" using buf(2) by (simp add: None \<open>mbufs t = M\<close>)
  ultimately show ?thesis by blast
next
  case (Some x)
  obtain pos head where x: "x = (pos, head)" by (cases x)
  obtain t slot where t: "client_key e m i k s = (if group_full t then construct_pkt_and_send_to_server e True t else Inr t)"
    "if k \<in> set (ukeys s) then group_inv t else group_pending t"
    "ukeys t = (if k \<in> set (ukeys s) then ukeys s else ukeys s @ [k])" "lru_inv e t" "mbufs t = M(c \<mapsto> b\<lparr>mb_next := head\<rparr>)"
    "known_haddrs t = known_haddrs s" "memcached_pkt t = memcached_pkt s"
    and sigs: "hash_lookup_data e (client_pkts t) (signature (request_id s) k) = Some (slot, c)"
      "\<forall>k'. k' \<noteq> signature (request_id s) k \<longrightarrow> hash_lookup_data e (client_pkts t) k' = hash_lookup_data e (client_pkts s) k'"
    using client_key_links [OF ok inv k(1) signature_fits [OF k(2)] Some [unfolded x] buf] by (elim exE conjE)
  have "dom (mbufs t) = dom M" "\<forall>a. a \<noteq> c \<longrightarrow> mbufs t a = M a" using t(5) buf(2) by auto
  moreover have "\<forall>k'. k' \<noteq> signature (request_id s) k \<longrightarrow> hash_lookup_data e (client_pkts t) k' = None \<or>
      hash_lookup_data e (client_pkts t) k' = hash_lookup_data e (client_pkts s) k'" using sigs(2) by simp
  moreover have "mbufs t c = Some (b\<lparr>mb_next := (case hash_lookup_data e (client_pkts s) (signature (request_id s) k) of
      None \<Rightarrow> mb_next b | Some (p, head) \<Rightarrow> head)\<rparr>)" by (simp add: t(5) Some x)
  ultimately show ?thesis using t(1-4,6,7) sigs(1) by blast
qed

lemma key_joined:
  assumes env: "hash_ok e" "small_copies e"
    and s: "in_service e smac m (Suc n) s" "i = 0 \<longrightarrow> unlinked e s m" and k: "key_ok k" "length k \<le> 1400"
  shows "\<exists>t. client_key e m i k s = (if group_full t then construct_pkt_and_send_to_server e True t else Inr t) \<and>
     (if k \<in> set (ukeys s) then group_inv t else group_pending t) \<and>
     ukeys t = (if k \<in> set (ukeys s) then ukeys s else ukeys s @ [k]) \<and>
     equipped e smac n t \<and> copyable t m \<and> can_wait t m \<and> undisturbed e m s t"
proof -
  have inv: "lru_inv e s" "group_inv s" "waiters e s" "server_ready s smac" "copyable s m" "can_wait s m"
    "memcached_pkt s \<noteq> 0" "m \<noteq> memcached_pkt s" "finite (dom (mbufs s))" "card (dom (mbufs s)) + Suc n \<le> NUM_SMALL_MBUFS"
    using s(1) by (simp_all add: in_service_def ready_def equipped_def)
  obtain c M b crid src mac where buf: "key_buffer e i m (mbufs s) = (c, M)" "M c = Some b"
    "waiting (s\<lparr>mbufs := M\<rparr>) c b crid src mac"
    "if i = 0 then c = m \<and> M = mbufs s else mbufs s c = None \<and> mb_next b = 0" "\<forall>a. a \<noteq> c \<longrightarrow> M a = mbufs s a"
    "finite (dom M)" "card (dom M) \<le> Suc (card (dom (mbufs s)))"
    using copyable_buffer [OF env(2) inv(5,6,9), of i] inv(10) by auto
  have c: "\<not> held e s c" "mb_next b = 0" "c = m \<or> mbufs s c = None"
    using buf(2,4) s(2) held_heap [of e s c] by (auto simp: unlinked_def split: if_splits)
  have "mbufs s (memcached_pkt s) \<noteq> None" using inv(4) by (auto simp: server_ready_def)
  then have "c \<noteq> memcached_pkt s" using c(3) inv(8) by auto
  obtain t slot where t: "client_key e m i k s = (if group_full t then construct_pkt_and_send_to_server e True t else Inr t)"
      "if k \<in> set (ukeys s) then group_inv t else group_pending t"
      "ukeys t = (if k \<in> set (ukeys s) then ukeys s else ukeys s @ [k])"
      "lru_inv e t" "known_haddrs t = known_haddrs s" "memcached_pkt t = memcached_pkt s"
      "\<forall>a. a \<noteq> c \<longrightarrow> mbufs t a = M a" "dom (mbufs t) = dom M"
      "hash_lookup_data e (client_pkts t) (signature (request_id s) k) = Some (slot, c)"
      "\<forall>k'. k' \<noteq> signature (request_id s) k \<longrightarrow> hash_lookup_data e (client_pkts t) k' = None \<or>
        hash_lookup_data e (client_pkts t) k' = hash_lookup_data e (client_pkts s) k'"
      "mbufs t c = Some (b\<lparr>mb_next := (case hash_lookup_data e (client_pkts s) (signature (request_id s) k) of
        None \<Rightarrow> mb_next b | Some (p, head) \<Rightarrow> head)\<rparr>)"
    using client_key_registered [OF env(1) inv(1,2) k buf(1,2)] by blast
  let ?b = "b\<lparr>mb_next := (case hash_lookup_data e (client_pkts s) (signature (request_id s) k) of
        None \<Rightarrow> mb_next b | Some (p, head) \<Rightarrow> head)\<rparr>"
  have same: "mbufs t a = mbufs s a" if "a \<noteq> c" for a using that t(7) buf(5) by simp
  have wait: "waiting t c ?b crid src mac"
    using buf(3) t(5,11) by (simp add: waiting_def arp_lookup_mac_def)
  have "mb_next ?b = (case hash_lookup_data e (client_pkts s) (signature (request_id s) k) of None \<Rightarrow> 0 | Some (p, head) \<Rightarrow> head)"
    using c(2) by (simp split: option.splits)
  moreover have "held e s a \<Longrightarrow> mbufs t a = mbufs s a" for a using same c(1) by metis
  moreover have "k' \<noteq> signature (request_id s) k \<Longrightarrow> hash_lookup_data e (client_pkts t) k' = None \<or>
        hash_lookup_data e (client_pkts t) k' = hash_lookup_data e (client_pkts s) k'" for k' using t(10) by blast
  ultimately have w: "waiters e t" "held e t a \<Longrightarrow> held e s a \<or> a = c" for a
    using waiters_join [OF inv(3) t(9) c(1) \<open>c \<noteq> memcached_pkt s\<close> _ wait _ _ t(5,6)] by blast+
  have "server_ready t smac"
    using inv(4) t(5,6) same \<open>c \<noteq> memcached_pkt s\<close> by (simp add: server_ready_def arp_lookup_mac_def)
  then have "equipped e smac n t"
    using t(4,6) w(1) inv(7,10) buf(6,7) unfolding equipped_def t(8) by simp
  moreover have "copyable t m \<and> can_wait t m"
  proof (cases "c = m")
    case True
    have "mbufs s m = Some b" using buf(2,4) inv(5) True by (auto simp: copyable_def split: if_splits)
    then have "copyable t m" using inv(5) t(11) True by (simp add: copyable_def)
    then show ?thesis using wait True unfolding can_wait_def by blast
  next
    case False
    then show ?thesis
      using inv(5,6) same [of m] waiting_other [OF same t(5), of m] by (simp add: copyable_def can_wait_def)
  qed
  moreover have "undisturbed e m s t"
  proof -
    have "dom (mbufs s) \<subseteq> dom (mbufs t)" using same t(11) by (metis domIff option.distinct(1) subsetI)
    then show ?thesis unfolding undisturbed_def using t(5,6) same w(2) c(3) by metis
  qed
  ultimately show ?thesis using t(1-3) by blast
qed

text \<open>Sending the group.\<close>

lemma group_sent:
  assumes env: "unformat_ok e" "tx_live e" and s: "equipped e smac n s"
    and group: "group_base s" "ukeys s \<noteq> []" "unat (ukey_len s) \<le> 600" "request_text_len (sent_keys full s) < MAX_PAYLOAD_LEN"
  shows "\<exists>u. construct_pkt_and_send_to_server e full s = Inr u \<and> ready e smac n u \<and> undisturbed e m s u \<and>
     ukeys u = kept_keys full s \<and> client_pkts u = client_pkts s \<and> (\<forall>a. a \<noteq> memcached_pkt s \<longrightarrow> mbufs u a = mbufs s a)"
proof -
  have inv: "lru_inv e s" "waiters e s" "server_ready s smac" "memcached_pkt s \<noteq> 0" "finite (dom (mbufs s))"
    "card (dom (mbufs s)) + n \<le> NUM_SMALL_MBUFS" using s by (simp_all add: equipped_def)
  obtain u where u: "construct_pkt_and_send_to_server e full s = Inr u" "group_inv u" "server_ready u smac"
    "client_pkts u = client_pkts s" "LRU_queue u = LRU_queue s" "LRU_ptr u = LRU_ptr s" "memcached_pkt u = memcached_pkt s"
    "\<forall>a. a \<noteq> memcached_pkt s \<longrightarrow> mbufs u a = mbufs s a" "ukeys u = kept_keys full s" "known_haddrs u = known_haddrs s"
    using construct_sends [OF env inv(3) group] by blast
  have "\<not> held e s (memcached_pkt s)" using inv(2) by (simp add: waiters_def)
  then have same: "held e s a \<Longrightarrow> mbufs u a = mbufs s a" for a using u(8) by metis
  have lookups: "hash_lookup_data e (client_pkts u) k = Some (p, h) \<Longrightarrow> \<exists>p'. hash_lookup_data e (client_pkts s) k = Some (p', h)" for k p h
    by (simp add: u(4))
  note w = waiters_kept [OF inv(2) lookups same u(10)]
  have "mbufs u (memcached_pkt s) \<noteq> None" "mbufs s (memcached_pkt s) \<noteq> None"
    using u(3,7) inv(3) by (auto simp: server_ready_def)
  then have "mbufs u a = None \<longleftrightarrow> mbufs s a = None" for a using u(8) by (cases "a = memcached_pkt s") auto
  then have dom: "dom (mbufs u) = dom (mbufs s)" by (simp add: dom_def)
  have "waiters e u" using w(2) \<open>\<not> held e s (memcached_pkt s)\<close> u(7) by simp
  then have "ready e smac n u" using inv u(2-7) dom by (simp add: ready_def equipped_def lru_inv_def)
  moreover have "undisturbed e m s u" using u(7,8,10) dom w(1) by (simp add: undisturbed_def)
  ultimately show ?thesis using u(1,4,8,9) by blast
qed

lemma client_key_served:
  assumes env: "unformat_ok e" "tx_live e" "hash_ok e" "small_copies e"
    and s: "in_service e smac m (Suc n) s" "i = 0 \<longrightarrow> unlinked e s m" "\<not> brimful s" and k: "key_ok k" "length k \<le> 1400"
  shows "\<exists>t. client_key e m i k s = Inr t \<and> in_service e smac m n t \<and> undisturbed e m s t \<and>
     request_text_len (ukeys t) \<le> request_text_len (ukeys s) + Suc (length k)"
proof -
  have inv: "group_inv s" "m \<noteq> memcached_pkt s" using s(1) by (simp_all add: in_service_def ready_def)
  obtain t where step: "client_key e m i k s = (if group_full t then construct_pkt_and_send_to_server e True t else Inr t)"
    and grp: "if k \<in> set (ukeys s) then group_inv t else group_pending t"
      "ukeys t = (if k \<in> set (ukeys s) then ukeys s else ukeys s @ [k])"
    and t: "equipped e smac n t" "copyable t m" "can_wait t m" "undisturbed e m s t"
    using key_joined [OF env(3,4) s(1,2) k] by blast
  have mp: "memcached_pkt t = memcached_pkt s" using t(4) by (simp add: undisturbed_def)
  show ?thesis
  proof (cases "group_full t")
    case False
    moreover have "request_text_len (ukeys t) \<le> request_text_len (ukeys s) + Suc (length k)"
      unfolding grp(2) by (simp add: request_text_len_def)
    moreover have "group_inv t" using grp(1) False group_pending_inv [of t] by (simp split: if_splits)
    ultimately show ?thesis
      using step t mp inv(2) by (intro exI [of _ t]) (simp add: in_service_def ready_def)
  next
    case True
    then have "k \<notin> set (ukeys s)"
      using grp(1) group_full_iff [of t] group_inv_len [of t] by (auto simp: group_inv_def)
    then have new: "group_pending t" "ukeys t = ukeys s @ [k]" using grp by simp_all
    have "request_text_len (sent_keys True t) < MAX_PAYLOAD_LEN"
      using inv(1) s(3) by (simp add: sent_keys_def new(2) group_inv_def brimful_def request_text_len_def del: length_ukeys)
    moreover have "group_base t" "ukeys t \<noteq> []" "unat (ukey_len t) \<le> 600"
      using new group_pending_len [OF new(1)] by (auto simp: group_pending_def)
    ultimately obtain u where u: "construct_pkt_and_send_to_server e True t = Inr u" "ready e smac n u" "undisturbed e m t u"
      "ukeys u = kept_keys True t" "\<forall>a. a \<noteq> memcached_pkt t \<longrightarrow> mbufs u a = mbufs t a"
      using group_sent [OF env(1,2) t(1), of True m] by blast
    have "mbufs u m = mbufs t m" "known_haddrs u = known_haddrs t" "memcached_pkt u = memcached_pkt s"
      using undisturbedD(1,2) [OF u(3)] u(5) inv(2) mp by simp_all
    then have "in_service e smac m n u"
      using u(2) t(2,3) inv(2) waiting_other [of u m t] by (simp add: in_service_def copyable_def can_wait_def)
    moreover have "undisturbed e m s u" by (rule undisturbed_trans [OF t(4) u(3)])
    moreover have "request_text_len (ukeys u) \<le> request_text_len (ukeys s) + Suc (length k)"
      unfolding u(4) by (simp add: kept_keys_def new(2) request_text_len_def)
    ultimately show ?thesis using step True u(1) by (intro exI [of _ u]) simp
  qed
qed

text \<open>The keys of a request: all are served, or the group is brimful before one of them.\<close>

definition keys_len :: "byte list list \<Rightarrow> nat" where
  "keys_len ks = sum_list (map length ks) + length ks"

lemma keys_len_simps [simp]: "keys_len [] = 0" "keys_len (k # ks) = Suc (length k) + keys_len ks"
  by (simp_all add: keys_len_def)

lemma client_keys_served:
  assumes env: "unformat_ok e" "tx_live e" "hash_ok e" "small_copies e"
  shows "in_service e smac m (length ks + n) s \<Longrightarrow> (i = 0 \<longrightarrow> unlinked e s m) \<Longrightarrow> \<forall>k \<in> set ks. key_ok k \<and> length k \<le> 1400 \<Longrightarrow>
     (\<exists>t. client_keys e m i ks s = Inr t \<and> in_service e smac m n t \<and> undisturbed e m s t \<and> \<not> brimful t \<and>
        request_text_len (ukeys t) \<le> request_text_len (ukeys s) + keys_len ks) \<or>
     (\<exists>pre post u. ks = pre @ post \<and> client_keys e m i pre s = Inr u \<and> brimful u \<and>
        request_text_len (ukeys u) \<le> request_text_len (ukeys s) + keys_len ks)"
proof (induction ks arbitrary: i s)
  case Nil
  then show ?case by auto
next
  case (Cons k ks)
  show ?case
  proof (cases "brimful s")
    case True
    then show ?thesis by (intro disjI2 exI [of _ "[]"] exI [of _ "k # ks"] exI [of _ s]) simp
  next
    case False
    from client_key_served [OF env Cons.prems(1) [simplified] Cons.prems(2) False, of k] Cons.prems(3) obtain t where
      t: "client_key e m i k s = Inr t" "in_service e smac m (length ks + n) t" "undisturbed e m s t"
        "request_text_len (ukeys t) \<le> request_text_len (ukeys s) + Suc (length k)" by auto
    have "\<forall>k \<in> set ks. key_ok k \<and> length k \<le> 1400" using Cons.prems(3) by simp
    from Cons.IH [OF t(2) _ this, of "Suc i", simplified] show ?thesis
    proof (elim disjE exE conjE, goal_cases)
      case (1 u)
      then show ?case using t by (intro disjI1 exI [of _ u]) (auto intro: undisturbed_trans)
    next
      case (2 pre post u)
      then show ?case using t(1,4) by (intro disjI2 exI [of _ "k # pre"] exI [of _ post] exI [of _ u]) simp
    qed
  qed
qed

text \<open>A request of ordinary size whose packet is in place.\<close>

definition small_request :: "('h, 'e) app_env_scheme \<Rightarrow> 'h app_state \<Rightarrow> u64 \<Rightarrow> u16 \<Rightarrow> byte list list \<Rightarrow> bool" where
  "small_request e s m crid ks \<longleftrightarrow>
     (\<exists>z. request_at s m crid (str ''gets'' @ spaced ks) z) \<and> copyable s m \<and> can_wait s m \<and> unlinked e s m \<and>
     m \<noteq> memcached_pkt s \<and> ks \<noteq> [] \<and> list_all key_text ks \<and> keys_len ks \<le> 72"

lemma undisturbed_packet:
  assumes "undisturbed e m' s t" "m \<noteq> m'" "mbufs s m \<noteq> None" "m \<noteq> memcached_pkt s"
  shows "mbufs t m = mbufs s m" "memcached_pkt t = memcached_pkt s" "known_haddrs t = known_haddrs s" "held e t m \<Longrightarrow> held e s m"
  using assms by (auto simp: undisturbed_def)

lemma small_request_other:
  assumes "undisturbed e m' s t" "m \<noteq> m'" "small_request e s m crid ks"
  shows "small_request e t m crid ks"
proof -
  have "mbufs s m \<noteq> None" "m \<noteq> memcached_pkt s" using assms(3) by (auto simp: small_request_def copyable_def)
  note same = undisturbed_packet [OF assms(1,2) this]
  show ?thesis
    using assms(3) same waiting_other [OF same(1,3)]
    by (auto simp: small_request_def request_at_def copyable_def can_wait_def unlinked_def)
qed

text \<open>What is left of the group is sent, if there is anything, unless it is brimful.\<close>

lemma flush_served:
  assumes env: "unformat_ok e" "tx_live e" and s: "ready e smac n s" "\<not> brimful s"
  shows "\<exists>t. construct_pkt_and_send_to_server e False s = Inr t \<and> ready e smac n t \<and> undisturbed e m s t \<and>
     client_pkts t = client_pkts s \<and> request_text_len (ukeys t) \<le> request_text_len (ukeys s)"
proof (cases "ukeys s = []")
  case True
  then have "construct_pkt_and_send_to_server e False s = Inr s"
    by (auto simp: construct_pkt_and_send_to_server_def ukeys_def unat_eq_0)
  then show ?thesis using s(1) by auto
next
  case False
  have inv: "equipped e smac n s" "group_inv s" using s(1) by (simp_all add: ready_def)
  have "request_text_len (sent_keys False s) < MAX_PAYLOAD_LEN"
    using inv(2) s(2) by (simp add: sent_keys_def group_inv_def brimful_def request_text_len_def del: length_ukeys)
  moreover have "group_base s" "unat (ukey_len s) \<le> 600"
    using inv(2) group_inv_len [OF inv(2)] by (simp_all add: group_inv_def)
  ultimately obtain u where u: "construct_pkt_and_send_to_server e False s = Inr u" "ready e smac n u" "undisturbed e m s u"
    "ukeys u = []" "client_pkts u = client_pkts s"
    using group_sent [OF env inv(1), of False m] False by (auto simp: kept_keys_def)
  then show ?thesis by (intro exI [of _ u]) (simp add: request_text_len_def)
qed

lemma request_served:
  assumes env: "unformat_ok e" "tx_live e" "hash_ok e" "small_copies e"
    and s: "ready e smac (length ks + n) s" and req: "small_request e s m crid ks"
  shows "(\<exists>t. app_client_in e m 34 a s = Inr t \<and> ready e smac n t \<and> undisturbed e m s t \<and>
        request_text_len (ukeys t) \<le> request_text_len (ukeys s) + keys_len ks) \<or>
     (\<exists>pre post u. ks = pre @ post \<and> client_keys e m 0 pre s = Inr u \<and> brimful u \<and>
        request_text_len (ukeys u) \<le> request_text_len (ukeys s) + keys_len ks)"
proof -
  obtain z where at: "request_at s m crid (str ''gets'' @ spaced ks) z" using req by (auto simp: small_request_def)
  have can: "can_wait s m" "unlinked e s m" using req by (simp_all add: small_request_def)
  have r: "copyable s m" "m \<noteq> memcached_pkt s" "ks \<noteq> []" "list_all key_text ks" "sum_list (map length ks) + length ks \<le> 72"
    using req by (simp_all add: small_request_def keys_len_def)
  have keys: "\<forall>k \<in> set ks. key_text k" "\<forall>k \<in> set ks. key_ok k \<and> length k \<le> 1400" "length ks \<le> 72"
    using r(4,5) member_le_sum_list [of _ "map length ks"] by (fastforce simp: list_all_iff key_text_def key_ok_def)+
  have init: "init_memcached_pkt e m s = s" using s by (simp add: init_memcached_pkt_def ready_def equipped_def)
  have run: "app_client_in e m 34 a s = bindr (client_keys e m 0 ks s) (\<lambda>s.
      if unat (outstanding_req s) < MIN_OUTSTANDING_REQ then construct_pkt_and_send_to_server e False s else Inr s)"
    using app_client_in_reads [OF at, of e a] request_words [OF at r(3) keys(1,3)] by (simp only: init bindr_Inr)
  have "in_service e smac m (length ks + n) s" using s r(1,2) can(1) by (simp add: in_service_def)
  from client_keys_served [where i = 0, OF env this impI [OF can(2)] keys(2)] show ?thesis
  proof (elim disjE exE conjE, goal_cases)
    case (1 t)
    then have "ready e smac n t" by (simp add: in_service_def)
    from flush_served [OF env(1,2) this 1(4), of m] obtain u where
      "construct_pkt_and_send_to_server e False t = Inr u" "ready e smac n u" "undisturbed e m t u"
      "request_text_len (ukeys u) \<le> request_text_len (ukeys t)" by blast
    then show ?case
      using 1 \<open>ready e smac n t\<close> by (cases "unat (outstanding_req t) < MIN_OUTSTANDING_REQ")
        (auto simp: run intro: undisturbed_trans)
  qed blast
qed

text \<open>C8: in every state the invariants allow, a request of ordinary size is served, whatever keys
  wait already: nothing faults and the invariants hold again, unless at some key of the request
  the waiting keys come to exactly \<open>MAX_PAYLOAD_LEN\<close> bytes.\<close>

theorem client_request_served:
  assumes env: "unformat_ok e" "tx_live e" "hash_ok e" "small_copies e"
    and s: "ready e smac (length ks) s" and req: "small_request e s m crid ks"
  shows "(\<exists>s'. app_client_in e m 34 a s = Inr s' \<and> ready e smac 0 s') \<or>
     (\<exists>pre post u. ks = pre @ post \<and> client_keys e m 0 pre s = Inr u \<and> request_text_len (ukeys u) = MAX_PAYLOAD_LEN)"
  using request_served [OF env, of smac ks 0 s m crid a] s req unfolding brimful_def by auto

end
