(* ===== verification/Replies.thy ===== *)
theory Replies
  imports Service
begin

text \<open>
  Any reply of memcached is served in any state the invariants allow: it goes to all who wait, or
  to nobody, and what the program keeps stays in order. The walk along the clients ends because
  they are all in the heap.
\<close>

section \<open>Changes that leave a state ready\<close>

lemma ready_other:
  assumes "same_group s t" "mbufs t = mbufs s" "known_haddrs t = known_haddrs s" "memcached_pkt t = memcached_pkt s"
    "client_pkts t = client_pkts s" "LRU_queue t = LRU_queue s" "LRU_ptr t = LRU_ptr s"
  shows "ready e smac n t = ready e smac n s"
  using assms same_group_transfer(2) [OF assms(1)] held_other(2) [OF assms(5,2-4), of e]
  by (simp add: ready_def equipped_def lru_inv_def server_ready_other [of t s])

lemma ready_log: "ready e smac n (log_event ev s) = ready e smac n s"
  by (rule ready_other) (simp_all add: log_event_def same_group_def)

lemma ukeys_log [simp]: "ukeys (log_event ev s) = ukeys s"
  by (simp add: ukeys_def log_event_def)

lemma undisturbed_same:
  assumes "mbufs t = mbufs s" "known_haddrs t = known_haddrs s" "memcached_pkt t = memcached_pkt s" "client_pkts t = client_pkts s"
  shows "undisturbed e m s t"
  using assms held_other(1) [OF assms(4,1,2), of e] by (simp add: undisturbed_def)

lemma undisturbed_log: "undisturbed e m s (log_event ev s)"
  by (rule undisturbed_same) (simp_all add: log_event_def)

text \<open>A packet nobody holds is no part of what the application keeps.\<close>

lemma packet_waiters:
  assumes "waiters e s" "net_only s t" "\<And>a. a \<noteq> m \<Longrightarrow> mbufs t a = mbufs s a" "mbufs s m \<noteq> None" "mbufs t m \<noteq> None" "\<not> held e s m"
  shows "waiters e t" "undisturbed e m s t" "dom (mbufs t) = dom (mbufs s)"
proof -
  obtain M u where t: "t = s\<lparr>mbufs := M, trace := u\<rparr>" using assms(2) by (auto simp: net_only_def)
  have same: "held e s a \<Longrightarrow> mbufs t a = mbufs s a" for a using assms(3,6) by metis
  have lookups: "hash_lookup_data e (client_pkts t) k = Some (p, h) \<Longrightarrow> \<exists>p'. hash_lookup_data e (client_pkts s) k = Some (p', h)" for k p h
    by (simp add: t)
  note w = waiters_kept [OF assms(1) lookups same, unfolded t, simplified]
  show "waiters e t" using w(2) assms(1) by (simp add: t waiters_def)
  have "mbufs t a = None \<longleftrightarrow> mbufs s a = None" for a using assms(3-5) by (cases "a = m") auto
  then show dom: "dom (mbufs t) = dom (mbufs s)" by (simp add: dom_def)
  have "held e t a \<Longrightarrow> held e s a" for a using w(1) by (simp add: t)
  then show "undisturbed e m s t" using assms(3) dom by (simp add: undisturbed_def t)
qed

lemma ready_packet:
  assumes "ready e smac n s" "net_only s t" "\<And>a. a \<noteq> m \<Longrightarrow> mbufs t a = mbufs s a" "mbufs t m \<noteq> None"
    and "mbufs s m \<noteq> None" "\<not> held e s m" "m \<noteq> memcached_pkt s"
  shows "ready e smac n t" "undisturbed e m s t" "ukeys t = ukeys s"
proof -
  obtain M u where t: "t = s\<lparr>mbufs := M, trace := u\<rparr>" using assms(2) by (auto simp: net_only_def)
  have "waiters e s" using assms(1) by (simp add: ready_def equipped_def)
  note w = packet_waiters [OF this assms(2,3,5,4,6)]
  note same = same_group_transfer(2) [OF same_group_net [OF assms(2)]]
  have "server_ready t smac = server_ready s smac"
    using assms(3) [of "memcached_pkt s"] assms(7) by (simp add: server_ready_def arp_lookup_mac_def t)
  then show "ready e smac n t" using assms(1) w(1,3) same by (simp add: ready_def equipped_def lru_inv_def t)
qed (use assms packet_waiters(2) [of e s t m] same_group_ukeys [OF same_group_net [OF assms(2)]] in
    \<open>auto simp: ready_def equipped_def\<close>)

section \<open>What follows the replies to the clients\<close>

text \<open>The reply is counted, and what waits is sent when enough replies have come.\<close>

lemma count_served:
  assumes env: "unformat_ok e" "tx_live e" and s: "ready e smac n s" "\<not> brimful s" and rid: "unat rid < MAX_REQ_ID"
  shows "\<exists>t. count_reply e rid seq s = Inr t \<and> ready e smac n t \<and> undisturbed e m s t \<and> client_pkts t = client_pkts s \<and>
     request_text_len (ukeys t) \<le> request_text_len (ukeys s)"
proof -
  let ?t = "\<lambda>r k. s\<lparr>keys_rcvd := r, outstanding_req := k\<rparr>"
  have ready: "ready e smac n (?t r k)" for r k
    by (subst ready_other [of s]) (simp_all add: s(1) same_group_def)
  have keys: "ukeys (?t r k) = ukeys s" for r k by (simp add: ukeys_def)
  then have brim: "\<not> brimful (?t r k)" for r k using s(2) by (simp add: brimful_def)
  have calm: "undisturbed e m s (?t r k)" for r k by (rule undisturbed_same) simp_all
  have flush: "\<exists>u. construct_pkt_and_send_to_server e False (?t r k) = Inr u \<and> ready e smac n u \<and> undisturbed e m s u \<and>
     client_pkts u = client_pkts s \<and> request_text_len (ukeys u) \<le> request_text_len (ukeys s)" for r k
    using flush_served [OF env(1,2) ready [where r = r and k = k] brim [where r = r and k = k], of m] undisturbed_trans [OF calm] by (auto simp: keys)
  have plain: "s\<lparr>keys_rcvd := r\<rparr> = ?t r (outstanding_req s)" for r by simp
  show ?thesis
    using s(1) rid flush ready calm keys ready [where k = "outstanding_req s"] calm [where k = "outstanding_req s"] keys [where k = "outstanding_req s"]
    by (auto simp: count_reply_def Let_def simp flip: plain)
qed

lemma finish_served:
  assumes ok: "hash_ok e" and s: "ready e smac n s" and p: "p < MAP_ENTRIES"
  shows "\<exists>t. finish_reply e p head dgrams s = Inr t \<and> ready e smac n t \<and> undisturbed e m s t \<and> ukeys t = ukeys s"
proof (cases "pkt_counts s p < dgrams")
  case True
  let ?t = "s\<lparr>pkt_counts := (pkt_counts s)(p := pkt_counts s p + 1)\<rparr>"
  have "ready e smac n ?t" by (subst ready_other [of s]) (simp_all add: s same_group_def)
  moreover have "undisturbed e m s ?t" by (rule undisturbed_same) simp_all
  ultimately show ?thesis using True p by (intro exI [of _ ?t]) (simp add: finish_reply_def ukeys_def)
next
  case False
  let ?t = "log_event (Free head) (s\<lparr>client_pkts := hash_del_key e (client_pkts s) (key_hold s)\<rparr>)"
  have run: "finish_reply e p head dgrams s = Inr ?t" using False p by (simp add: finish_reply_def)
  have inv: "lru_inv e s" "waiters e s" "group_inv s" using s by (simp_all add: ready_def equipped_def)
  have sub: "hash_lookup_data e (client_pkts ?t) k = Some (q, h) \<Longrightarrow> \<exists>p'. hash_lookup_data e (client_pkts s) k = Some (p', h)" for k q h
    using hash_del_same [OF ok] hash_del_other [OF ok] by (cases "k = key_hold s") (auto simp: log_event_def)
  have fields: "mbufs ?t = mbufs s" "known_haddrs ?t = known_haddrs s" "memcached_pkt ?t = memcached_pkt s"
    by (simp_all add: log_event_def)
  have same: "same_group s ?t" by (rule same_group_finish [OF run])
  have "waiters e ?t" "held e ?t a \<Longrightarrow> held e s a" for a
    using waiters_kept [OF inv(2) sub] fields inv(2) by (auto simp: waiters_def)
  moreover have "lru_inv e ?t" by (rule finish_reply_lru [OF ok run inv(1)])
  ultimately have "ready e smac n ?t" "undisturbed e m s ?t"
    using s fields same_group_transfer(2) [OF same] by (simp_all add: ready_def equipped_def undisturbed_def server_ready_other [of ?t s])
  then show ?thesis using run same_group_ukeys [OF same] by blast
qed

section \<open>A reply\<close>

lemma deliver_served:
  assumes env: "unformat_ok e" "tx_live e" "hash_ok e" "NUM_SMALL_MBUFS \<le> chain_fuel e"
    and s: "ready e smac n s" "\<not> brimful s" and m: "m \<noteq> memcached_pkt s" "\<not> held e s m"
    and reply: "reply_at s m rid seq dgrams rsv text z" "unat rid < MAX_REQ_ID"
  shows "\<exists>t. deliver e m rid seq dgrams (hash_lookup_data e (client_pkts s) sig, s) = Inr t \<and> ready e smac n t \<and>
     undisturbed e m s t \<and> request_text_len (ukeys t) \<le> request_text_len (ukeys s)"
proof (cases "hash_lookup_data e (client_pkts s) sig")
  case None
  then show ?thesis
    using s(1) undisturbed_log by (auto simp: deliver_def ready_log)
next
  case (Some x)
  obtain pos head where x: "x = (pos, head)" by (cases x)
  have inv: "waiters e s" "finite (dom (mbufs s))" "card (dom (mbufs s)) \<le> NUM_SMALL_MBUFS"
    using s(1) by (simp_all add: ready_def equipped_def)
  obtain ws where ws: "chain s head ws" "\<forall>w \<in> set ws. held e s (fst w)"
    by (rule waiters_chain [OF inv(1) Some [unfolded x]])
  have "length ws \<le> chain_fuel e" using chain_length [OF ws(1) inv(2)] inv(3) env(4) by simp
  moreover have "\<forall>w \<in> set ws. fst w \<noteq> m" using ws(2) m(2) by metis
  moreover have "reply_packet s m (length text + 8) (reply_body seq dgrams rsv text)" by (rule reply_at_packet [OF reply(1)]) simp
  ultimately obtain s2 where s2: "steer_loop e (chain_fuel e) m 34 head s = Inr s2" "\<forall>a. a \<noteq> m \<longrightarrow> mbufs s2 a = mbufs s a"
    "mbufs s2 m \<noteq> None"
    using steer_loop_chain [OF env(1,2) ws(1), of m] by blast
  have "mbufs s m \<noteq> None" using reply(1) by (auto simp: reply_at_def)
  then have ready2: "ready e smac n s2" "undisturbed e m s s2" "ukeys s2 = ukeys s"
    using ready_packet [OF s(1) net_only_steer [OF s2(1)] _ s2(3) _ m(2,1)] s2(2) by blast+
  let ?s3 = "log_event (Free m) s2"
  have keys: "ukeys ?s3 = ukeys s" using ready2(3) by simp
  then have "\<not> brimful ?s3" using s(2) by (simp add: brimful_def)
  from count_served [OF env(1,2) _ this reply(2)] obtain s4 where s4: "count_reply e rid seq ?s3 = Inr s4" "ready e smac n s4"
    "undisturbed e m ?s3 s4" "request_text_len (ukeys s4) \<le> request_text_len (ukeys s)"
    using ready2(1) by (metis keys ready_log)
  let ?s5 = "s4\<lparr>last_seq_id := seq\<rparr>"
  have "ready e smac n ?s5" by (subst ready_other [of s4]) (simp_all add: s4(2) same_group_def)
  moreover have "pos < MAP_ENTRIES" using hash_pos [OF env(3) Some [unfolded x]] .
  ultimately obtain t where t: "finish_reply e pos head dgrams ?s5 = Inr t" "ready e smac n t" "undisturbed e m ?s5 t" "ukeys t = ukeys ?s5"
    using finish_served [OF env(3)] by blast
  have "undisturbed e m s4 ?s5" by (rule undisturbed_same) simp_all
  then have "undisturbed e m s t"
    using ready2(2) undisturbed_log s4(3) t(3) by (blast intro: undisturbed_trans)
  moreover have "ukeys ?s5 = ukeys s4" by (simp add: ukeys_def)
  ultimately show ?thesis using t(1,2,4) s2(1) s4(1,4) by (intro exI [of _ t]) (simp add: deliver_def Some x)
qed

text \<open>The first packet of a value, or a packet with no value in it.\<close>

definition reply_text :: "byte list \<Rightarrow> byte list \<Rightarrow> bool" where
  "reply_text text z \<longleftrightarrow>
     (\<exists>key r. text = str ''VALUE '' @ key @ 32 # r \<and> key_text key \<and> length key \<le> 1400 \<and> 2 \<le> length r) \<or>
     (\<not> occurs (str ''VALUE'') (cstr (text @ z)) \<and> 0 \<in> set (text @ z))"

text \<open>What is looked up, after which only the two variables for signatures may have changed.\<close>

lemma app_server_in_names:
  assumes "reply_at s m rid seq dgrams rsv (str ''VALUE '' @ key @ 32 # r) z" "key_text key" "length key \<le> 1400" "2 \<le> length r"
  shows "\<exists>l. app_server_in e m 34 s = deliver e m rid seq dgrams
     (hash_lookup_data e (client_pkts s) (signature rid key), s\<lparr>key_hold := signature rid key, last_key := l\<rparr>)"
proof -
  have "length (str ''VALUE '' @ key @ 32 # r) \<le> 1464" using assms(1) unfolding reply_at_def by blast
  note strip = strip_value_line [OF refl assms(2,4) this, of z]
  have "sprint_key rid key = Inr (signature rid key)" using signature_fits assms(3) by (simp add: sprint_key_def)
  then have "app_server_in e m 34 s = deliver e m rid seq dgrams (hash_lookup_data e (client_pkts s) (signature rid key),
    s\<lparr>key_hold := signature rid key, last_key := (if 1 < unat dgrams then signature rid key else last_key s)\<rparr>)"
    unfolding app_server_in_reads [OF assms(1), of e] strip by (simp add: reply_position_def Let_def)
  then show ?thesis by blast
qed

lemma app_server_in_looks_up:
  assumes "reply_at s m rid seq dgrams rsv text z" "reply_text text z"
  shows "\<exists>sig h l. app_server_in e m 34 s =
     deliver e m rid seq dgrams (hash_lookup_data e (client_pkts s) sig, s\<lparr>key_hold := h, last_key := l\<rparr>)"
  using assms(2) unfolding reply_text_def
proof (elim disjE exE conjE, goal_cases)
  case (1 key r)
  then show ?case using app_server_in_names [OF assms(1) [unfolded 1(1)] 1(2-4), of e] by blast
next
  case 2
  then have "strip_key_value (text @ z) (word_of_nat (length text - 2)) = Inr (False, None)"
    by (simp add: strip_key_value_def strstr_def)
  then have "app_server_in e m 34 s = deliver e m rid seq dgrams (hash_lookup_data e (client_pkts s) (last_key s),
    s\<lparr>key_hold := key_hold s, last_key := last_key s\<rparr>)"
    using app_server_in_reads [OF assms(1), of e] by (simp add: reply_position_def)
  then show ?case by blast
qed

text \<open>In every state the invariants allow, a reply of memcached is served, whoever waits for
  it: the walk along the clients ends within as many steps as there are buffers, nothing faults,
  and the invariants hold again.\<close>

lemma reply_served:
  assumes env: "unformat_ok e" "tx_live e" "hash_ok e" "NUM_SMALL_MBUFS \<le> chain_fuel e"
    and s: "ready e smac n s" "request_text_len (ukeys s) \<noteq> MAX_PAYLOAD_LEN" and m: "m \<noteq> memcached_pkt s" "\<not> held e s m"
    and reply: "reply_at s m rid seq dgrams rsv text z" "reply_text text z" "unat rid < MAX_REQ_ID"
  shows "\<exists>t. app_server_in e m 34 s = Inr t \<and> ready e smac n t \<and> undisturbed e m s t \<and>
     request_text_len (ukeys t) \<le> request_text_len (ukeys s)"
proof -
  obtain sig h l where run: "app_server_in e m 34 s =
      deliver e m rid seq dgrams (hash_lookup_data e (client_pkts s) sig, s\<lparr>key_hold := h, last_key := l\<rparr>)"
    using app_server_in_looks_up [OF reply(1,2)] by blast
  let ?s = "s\<lparr>key_hold := h, last_key := l\<rparr>"
  have same: "mbufs ?s = mbufs s" "known_haddrs ?s = known_haddrs s" "memcached_pkt ?s = memcached_pkt s" "client_pkts ?s = client_pkts s"
    "ukeys ?s = ukeys s" by (simp_all add: ukeys_def)
  have r: "ready e smac n ?s" by (subst ready_other [of s]) (simp_all add: s(1) same_group_def)
  have "\<not> brimful ?s" using s(2) unfolding brimful_def same .
  note served = deliver_served [OF env r this]
  have "m \<noteq> memcached_pkt ?s" "\<not> held e ?s m" "reply_at ?s m rid seq dgrams rsv text z"
    using m held_other(1) [OF same(4,1,2), of e] reply(1) by (simp_all add: reply_at_def)
  from served [OF this reply(3), of sig] obtain t where
    "deliver e m rid seq dgrams (hash_lookup_data e (client_pkts ?s) sig, ?s) = Inr t" "ready e smac n t"
    "undisturbed e m ?s t" "request_text_len (ukeys t) \<le> request_text_len (ukeys s)" unfolding same(5) by blast
  moreover have "undisturbed e m s ?s" by (rule undisturbed_same [OF same(1-4)])
  ultimately show ?thesis using run same(4) by (intro exI [of _ t]) (auto intro: undisturbed_trans)
qed

section \<open>What a reply sends\<close>

lemma construct_keeps:
  assumes "construct_pkt_and_send_to_server e full s = Inr t"
  shows "pkt_counts t = pkt_counts s \<and> key_hold t = key_hold s \<and> client_pkts t = client_pkts s"
proof (cases "ukey_len s = 0")
  case True
  then show ?thesis using assms by (simp add: construct_pkt_and_send_to_server_def)
next
  case False
  obtain payload s1 where "fill_request full s = Inr (payload, s1)" "after_send s1 t"
    using construct_pkt_effect [OF assms False] by blast
  then show ?thesis by (auto simp: fill_request_def bindr_eq_Inr Let_def after_send_def split: if_splits)
qed

lemma flush_frames:
  assumes env: "unformat_ok e" "tx_live e" and s: "ready e smac n s" "\<not> brimful s"
    and run: "construct_pkt_and_send_to_server e False s = Inr t"
  shows "ukeys t = []"
    "calls (trace t) = calls (trace s) @ (if ukeys s = [] then []
       else [Refcnt (memcached_pkt s) 1, Tx (memcached_pkt s) (request_frame e smac (request_id s) (ukeys s))])"
proof -
  have all: "ukeys t = [] \<and> calls (trace t) = calls (trace s) @ (if ukeys s = [] then []
       else [Refcnt (memcached_pkt s) 1, Tx (memcached_pkt s) (request_frame e smac (request_id s) (ukeys s))])"
  proof (cases "ukeys s = []")
    case True
    then show ?thesis using run by (auto simp: construct_pkt_and_send_to_server_def ukeys_def unat_eq_0)
  next
    case False
    have inv: "server_ready s smac" "group_inv s" using s(1) by (simp_all add: ready_def equipped_def)
    have "request_text_len (sent_keys False s) < MAX_PAYLOAD_LEN"
      using inv(2) s(2) by (simp add: sent_keys_def group_inv_def brimful_def request_text_len_def del: length_ukeys)
    moreover have "group_base s" "unat (ukey_len s) \<le> 600"
      using inv(2) group_inv_len [OF inv(2)] by (simp_all add: group_inv_def)
    ultimately show ?thesis
      using construct_sends [OF env inv(1) _ False, of False] run False by (auto simp: sent_keys_def kept_keys_def)
  qed
  show "ukeys t = []" using all by simp
  show "calls (trace t) = calls (trace s) @ (if ukeys s = [] then []
       else [Refcnt (memcached_pkt s) 1, Tx (memcached_pkt s) (request_frame e smac (request_id s) (ukeys s))])" using all by blast
qed

definition flush_events :: "('h, 'e) app_env_scheme \<Rightarrow> byte list \<Rightarrow> 'h app_state \<Rightarrow> bool \<Rightarrow> event list" where
  "flush_events e smac s flushed =
     (if flushed \<and> ukeys s \<noteq> []
      then [Refcnt (memcached_pkt s) 1, Tx (memcached_pkt s) (request_frame e smac (request_id s) (ukeys s))] else [])"

lemma count_frames:
  assumes env: "unformat_ok e" "tx_live e" and s: "ready e smac n s" "\<not> brimful s"
    and run: "count_reply e rid seq s = Inr t"
  shows "\<exists>flushed. calls (trace t) = calls (trace s) @ flush_events e smac s flushed \<and>
     ukeys t = (if flushed then [] else ukeys s) \<and>
     pkt_counts t = pkt_counts s \<and> key_hold t = key_hold s \<and> client_pkts t = client_pkts s"
proof -
  let ?t = "\<lambda>r k. s\<lparr>keys_rcvd := r, outstanding_req := k\<rparr>"
  have ready: "ready e smac n (?t r k)" for r k
    by (subst ready_other [of s]) (simp_all add: s(1) same_group_def)
  have keys: "ukeys (?t r k) = ukeys s" "ukeys (s\<lparr>keys_rcvd := r\<rparr>) = ukeys s" for r k by (simp_all add: ukeys_def)
  then have brim: "\<not> brimful (?t r k)" for r k using s(2) by (simp add: brimful_def)
  have flush: "\<exists>flushed. calls (trace t) = calls (trace s) @ flush_events e smac s flushed \<and>
      ukeys t = (if flushed then [] else ukeys s) \<and>
      pkt_counts t = pkt_counts s \<and> key_hold t = key_hold s \<and> client_pkts t = client_pkts s"
    if "construct_pkt_and_send_to_server e False (?t r k) = Inr t" for r k
    using flush_frames [OF env ready brim that] construct_keeps [OF that] by (intro exI [of _ True]) (simp add: flush_events_def keys)
  have plain: "\<exists>flushed. calls (trace u) = calls (trace s) @ flush_events e smac s flushed \<and>
      ukeys u = (if flushed then [] else ukeys s) \<and>
      pkt_counts u = pkt_counts s \<and> key_hold u = key_hold s \<and> client_pkts u = client_pkts s"
    if "trace u = trace s" "ukeys u = ukeys s" "pkt_counts u = pkt_counts s" "key_hold u = key_hold s" "client_pkts u = client_pkts s" for u
    using that by (intro exI [of _ False]) (simp add: flush_events_def)
  let ?id = "unat rid" and ?s = "s\<lparr>keys_rcvd := (keys_rcvd s)(unat rid := keys_rcvd s (unat rid) + 1)\<rparr>"
  let ?u = "?t ((keys_rcvd s)(unat rid := - 1)) (outstanding_req s - 1)"
  have "?id < MAX_REQ_ID" using run by (cases "?id < MAX_REQ_ID") (simp_all add: count_reply_def Let_def)
  then have step: "Inr t = (if 0 \<le> sint (keys_rcvd s ?id) \<and> seq \<le> last_seq_id s then
      if int (unat (keys_sent s ?id) div 2) < sint (keys_rcvd s ?id + 1) then
        if unat (outstanding_req s - 1) < MIN_OUTSTANDING_REQ then construct_pkt_and_send_to_server e False ?u else Inr ?u
      else Inr ?s
    else Inr s)"
    using run by (simp add: count_reply_def Let_def cong: if_cong)
  consider "construct_pkt_and_send_to_server e False ?u = Inr t" | "t = ?u" | "t = ?s" | "t = s"
    using step by (metis sum.inject(2))
  then show ?thesis
  proof cases
    case 1
    then show ?thesis by (rule flush)
  qed (rule plain; simp add: keys)+
qed

lemma deliver_sends:
  assumes env: "unformat_ok e" "tx_live e" "hash_ok e" "NUM_SMALL_MBUFS \<le> chain_fuel e"
    and s: "ready e smac n s" "\<not> brimful s" and m: "m \<noteq> memcached_pkt s" "\<not> held e s m"
    and reply: "reply_at s m rid seq dgrams rsv text z"
    and run: "deliver e m rid seq dgrams (Some (pos, head), s) = Inr t"
    and ws: "chain s head ws" "\<forall>w \<in> set ws. held e s (fst w)"
  shows "\<exists>flushed. calls (trace t) = calls (trace s) @ reply_frames e m (reply_body seq dgrams rsv text) ws @ Free m #
     flush_events e smac s flushed @ (if pkt_counts s pos < dgrams then [] else [Free head]) \<and>
     client_pkts t = (if pkt_counts s pos < dgrams then client_pkts s else hash_del_key e (client_pkts s) (key_hold s))"
proof -
  have inv: "finite (dom (mbufs s))" "card (dom (mbufs s)) \<le> NUM_SMALL_MBUFS"
    using s(1) by (simp_all add: ready_def equipped_def)
  have "length ws \<le> chain_fuel e" using chain_length [OF ws(1) inv(1)] inv(2) env(4) by simp
  moreover have "\<forall>w \<in> set ws. fst w \<noteq> m" using ws(2) m(2) by metis
  moreover have "reply_packet s m (length text + 8) (reply_body seq dgrams rsv text)" by (rule reply_at_packet [OF reply]) simp
  ultimately obtain s2 where s2: "steer_loop e (chain_fuel e) m 34 head s = Inr s2"
    "calls (trace s2) = calls (trace s) @ reply_frames e m (reply_body seq dgrams rsv text) ws" "\<forall>a. a \<noteq> m \<longrightarrow> mbufs s2 a = mbufs s a"
    "mbufs s2 m \<noteq> None"
    using steer_loop_chain [OF env(1,2) ws(1), of m] by blast
  have "mbufs s m \<noteq> None" using reply by (auto simp: reply_at_def)
  then have ready2: "ready e smac n s2" "ukeys s2 = ukeys s"
    using ready_packet(1,3) [OF s(1) net_only_steer [OF s2(1)] _ s2(4) _ m(2,1)] s2(3) by blast+
  obtain M u where u: "s2 = s\<lparr>mbufs := M, trace := u\<rparr>" using net_only_steer [OF s2(1)] by (auto simp: net_only_def)
  let ?s3 = "log_event (Free m) s2"
  obtain s4 where s4: "count_reply e rid seq ?s3 = Inr s4" "finish_reply e pos head dgrams (s4\<lparr>last_seq_id := seq\<rparr>) = Inr t"
    using run by (auto simp: deliver_def s2(1) bindr_eq_Inr)
  have "ready e smac n ?s3" "\<not> brimful ?s3" using ready2 s(2) by (simp_all add: ready_log brimful_def)
  from count_frames [OF env(1,2) this s4(1)] obtain flushed where
    c: "calls (trace s4) = calls (trace ?s3) @ flush_events e smac ?s3 flushed" "pkt_counts s4 = pkt_counts ?s3"
    "key_hold s4 = key_hold ?s3" "client_pkts s4 = client_pkts ?s3" by blast
  have "flush_events e smac ?s3 flushed = flush_events e smac s flushed"
    using ready2(2) by (simp add: flush_events_def) (simp add: u log_event_def)
  moreover have "pkt_counts s4 = pkt_counts s" "key_hold s4 = key_hold s" "client_pkts s4 = client_pkts s" "calls (trace ?s3) = calls (trace s2) @ [Free m]" using c(2-4) by (simp_all add: u log_event_def)
  ultimately show ?thesis
    using s4(2) c(1) s2(2) by (intro exI [of _ flushed]) (auto simp: finish_reply_def bindr_eq_Inr log_event_def split: if_splits)
qed


end
