(* ===== verification/Polling.thy ===== *)
theory Polling
  imports Replies
begin

text \<open>
  A visit of the main loop to a port: a burst of frames, requests of ordinary size and replies
  among ARP packets and frames that are not for the application, is handled from the first to the
  last without a fault, and so is any number of such visits after start-up.
\<close>

section \<open>Frames that arrive\<close>

text \<open>A frame for the application from a client in the address table.\<close>

definition client_frame :: "'h app_state \<Rightarrow> u64 \<Rightarrow> u32 \<Rightarrow> bool" where
  "client_frame s m src \<longleftrightarrow>
     ipv4_frame s m 0x45 IPPROTO_UDP src (of_le (to_be32 get_local_ip)) LOCAL_PORT \<and>
     arp_lookup_mac s src \<noteq> None \<and> src \<noteq> ip_str_to_int TARGET_IP"

text \<open>A frame of another protocol, or of IPv4 but not for the application.\<close>

definition stray_frame :: "'h app_state \<Rightarrow> u64 \<Rightarrow> bool" where
  "stray_frame s m \<longleftrightarrow>
     (\<exists>b ty. mbufs s m = Some b \<and> rd_be16 12 (mb_data b) = Inr ty \<and> ty \<noteq> ETHER_TYPE_ARP \<and> ty \<noteq> ETHER_TYPE_IPV4) \<or>
     (\<exists>ihl proto src raw_dst port. ipv4_frame s m ihl proto src raw_dst port \<and>
        (raw_dst \<noteq> of_le (to_be32 get_local_ip) \<and> \<not> ip_is_multicast raw_dst \<or> proto \<noteq> IPPROTO_UDP \<or>
         arp_lookup_mac s src = None \<or> port \<noteq> LOCAL_PORT))"

text \<open>An ARP packet for IPv4 over Ethernet, whatever it asks.\<close>

definition arp_frame :: "'h app_state \<Rightarrow> u64 \<Rightarrow> bool" where
  "arp_frame s m \<longleftrightarrow>
     (\<exists>b eth pre opc sha sip tha tip r. mbufs s m = Some b \<and> rd_be16 12 (mb_data b) = Inr ETHER_TYPE_ARP \<and>
        mb_data b = eth @ pre @ to_be16 opc @ sha @ sip @ tha @ to_be32 tip @ r \<and>
        length eth = 14 \<and> length pre = 6 \<and> length sha = 6 \<and> length sip = 4 \<and> length tha = 6)"

text \<open>A reply of memcached to a request the program may have sent: the first packet of a value, or one
  with no value in it.\<close>

definition reply_frame :: "'h app_state \<Rightarrow> u64 \<Rightarrow> bool" where
  "reply_frame s m \<longleftrightarrow>
     ipv4_frame s m 0x45 IPPROTO_UDP (ip_str_to_int TARGET_IP) (of_le (to_be32 get_local_ip)) LOCAL_PORT \<and>
     (\<exists>rid seq dgrams rsv text z. reply_at s m rid seq dgrams rsv text z \<and> unat rid < MAX_REQ_ID \<and> reply_text text z)"

datatype arrival = Request u64 u32 u16 "byte list list" | Reply u64 | Arp u64 | Stray u64

primrec arrival_buf :: "arrival \<Rightarrow> u64" where
  "arrival_buf (Request m src crid ks) = m"
| "arrival_buf (Reply m) = m"
| "arrival_buf (Arp m) = m"
| "arrival_buf (Stray m) = m"

primrec asked_keys :: "arrival \<Rightarrow> byte list list" where
  "asked_keys (Request m src crid ks) = ks"
| "asked_keys (Reply m) = []"
| "asked_keys (Arp m) = []"
| "asked_keys (Stray m) = []"

primrec is_frame :: "('h, 'e) app_env_scheme \<Rightarrow> 'h app_state \<Rightarrow> arrival \<Rightarrow> bool" where
  "is_frame e s (Request m src crid ks) \<longleftrightarrow> client_frame s m src \<and> small_request e s m crid ks"
| "is_frame e s (Reply m) \<longleftrightarrow> reply_frame s m"
| "is_frame e s (Arp m) \<longleftrightarrow> arp_frame s m"
| "is_frame e s (Stray m) \<longleftrightarrow> stray_frame s m"

text \<open>The driver puts it where nothing the program still refers to is.\<close>

definition arrived :: "('h, 'e) app_env_scheme \<Rightarrow> 'h app_state \<Rightarrow> arrival \<Rightarrow> bool" where
  "arrived e s f \<longleftrightarrow> is_frame e s f \<and> arrival_buf f \<noteq> memcached_pkt s \<and> \<not> held e s (arrival_buf f)"

lemma ipv4_frame_other: "mbufs t m = mbufs s m \<Longrightarrow> ipv4_frame t m = ipv4_frame s m"
  by (intro ext) (simp add: ipv4_frame_def)

lemma arrived_buf:
  assumes "arrived e s f"
  shows "mbufs s (arrival_buf f) \<noteq> None" "arrival_buf f \<noteq> memcached_pkt s" "\<not> held e s (arrival_buf f)"
  using assms
  by (cases f; auto simp: arrived_def small_request_def copyable_def reply_frame_def reply_at_def arp_frame_def stray_frame_def ipv4_frame_def)+

text \<open>What a frame is depends on its own buffer and the addresses.\<close>

lemma is_frame_other:
  assumes "is_frame e s f" "mbufs t (arrival_buf f) = mbufs s (arrival_buf f)" "known_haddrs t = known_haddrs s"
    and "arrival_buf f \<noteq> memcached_pkt t" "held e t (arrival_buf f) \<Longrightarrow> held e s (arrival_buf f)"
  shows "is_frame e t f"
proof (cases f)
  case (Request m src crid ks)
  have "arp_lookup_mac t = arp_lookup_mac s" using assms(3) by (simp add: arp_lookup_mac_def [abs_def])
  moreover have "mbufs t m = mbufs s m" using assms(2) by (simp add: Request)
  ultimately show ?thesis
    using assms(1,4,5) ipv4_frame_other [of t m s] waiting_other [of t m s] assms(3)
    by (auto simp: Request client_frame_def small_request_def request_at_def copyable_def can_wait_def unlinked_def)
next
  case (Stray m)
  have "arp_lookup_mac t = arp_lookup_mac s" using assms(3) by (simp add: arp_lookup_mac_def [abs_def])
  then show ?thesis using assms(1,2) ipv4_frame_other [of t m s] by (simp add: Stray stray_frame_def)
qed (use assms(1,2) ipv4_frame_other [of t "arrival_buf f" s] in \<open>simp_all add: arp_frame_def reply_frame_def reply_at_def\<close>)

text \<open>Handling one packet leaves those that are still to come as they arrived.\<close>

lemma arrived_other:
  assumes "undisturbed e m s t" "arrival_buf f \<noteq> m" "arrived e s f"
  shows "arrived e t f"
proof -
  note f = arrived_buf [OF assms(3)]
  note same = undisturbed_packet [OF assms(1,2) f(1,2)]
  have "is_frame e s f" "arrival_buf f \<noteq> memcached_pkt t" using assms(3) f(2) same(2) by (simp_all add: arrived_def)
  from is_frame_other [OF this(1) same(1,3) this(2) same(4)] this(2) f(3) same(4) show ?thesis
    unfolding arrived_def by blast
qed

lemma undisturbed_none:
  assumes "\<And>m. undisturbed e m s t" "arrived e s f"
  shows "arrived e t f"
  by (rule arrived_other [OF assms(1) _ assms(2)]) (rule arrived_buf(2) [OF assms(2)])

section \<open>One frame\<close>

lemma ready_less: "ready e smac (k + n) s \<Longrightarrow> ready e smac n s"
  by (simp add: ready_def equipped_def)

lemma eth_in_stray:
  assumes "stray_frame s m"
  shows "eth_in e m s = Inr s \<or> eth_in e m s = Inr (log_event (Free m) s)"
  using assms unfolding stray_frame_def
proof (elim disjE exE conjE, goal_cases)
  case (1 b ty)
  then show ?case by (simp add: eth_in_def get_data_frame)
qed (auto simp: eth_in_ipv4)

lemma eth_in_arp:
  assumes "unformat_ok e" "tx_live e" "arp_frame s m"
  shows "\<exists>t. eth_in e m s = Inr t \<and> net_only s t \<and> (\<exists>b. mbufs t = (mbufs s)(m \<mapsto> b))"
proof -
  obtain b eth pre opc sha sip tha tip r where b: "mbufs s m = Some b" "rd_be16 12 (mb_data b) = Inr ETHER_TYPE_ARP"
      "mb_data b = eth @ pre @ to_be16 opc @ sha @ sip @ tha @ to_be32 tip @ r"
    and len: "length eth = 14" "length pre = 6" "length sha = 6" "length sip = 4" "length tha = 6"
    using assms(3) by (auto simp: arp_frame_def)
  have run: "eth_in e m s = arp_in e m 14 s" using b(1,2) by (simp add: eth_in_def get_data_frame)
  show ?thesis
  proof (cases "tip = get_local_ip \<and> opc = ARP_OP_REQUEST")
    case True
    then show ?thesis
      using arp_answered [OF assms(1,2) b(1) _ len] b(3) net_only_arp_in [of e m 14 s] by (auto simp: run)
  next
    case False
    have "rd_be32 38 (mb_data b) = Inr tip" "rd_be16 20 (mb_data b) = Inr opc"
      using len unfolding b(3) by (simp_all add: rd_be32_def rd_be16_def rd_def)
    then have "arp_in e m 14 s = Inr s" using arp_in_other [OF b(1)] False by blast
    moreover have "mbufs s = (mbufs s)(m \<mapsto> b)" using b(1) by auto
    ultimately show ?thesis by (auto simp: run)
  qed
qed

lemma ready_frame_served:
  assumes env: "unformat_ok e" "tx_live e" "hash_ok e" "small_copies e"
    and s: "ready e smac (length ks + n) s" "arrived e s (Request m src crid ks)"
    and fits: "request_text_len (ukeys s) + keys_len ks < MAX_PAYLOAD_LEN"
  shows "\<exists>t. app_client_in e m 34 src s = Inr t \<and> ready e smac n t \<and> undisturbed e m s t \<and>
     request_text_len (ukeys t) \<le> request_text_len (ukeys s) + keys_len ks"
  using request_served [OF env, of smac ks n s m crid src] s fits by (auto simp: brimful_def arrived_def)

section \<open>Before the first request\<close>

text \<open>
  A packet of one frame is copied into a new buffer of the large pool, whose data room is
  \<open>RTE_MBUF_DEFAULT_BUF_SIZE\<close> less the headroom, while the pool has any.
\<close>

definition NUM_MBUFS :: nat where "NUM_MBUFS = 8191"
definition RTE_MBUF_DEFAULT_DATAROOM :: nat where "RTE_MBUF_DEFAULT_DATAROOM = 2048"

definition full_copies :: "('h, 'e) app_env_scheme \<Rightarrow> bool" where
  "full_copies e \<longleftrightarrow>
     (\<forall>M m b. M m = Some b \<longrightarrow> unat (mb_pkt_len b) \<le> length (mb_data b) \<longrightarrow>
        unat (mb_pkt_len b) \<le> RTE_MBUF_DEFAULT_DATAROOM \<longrightarrow>
        finite (dom M) \<longrightarrow> card (dom M) < NUM_MBUFS \<longrightarrow>
        (\<exists>c b'. pktmbuf_copy e Mbuf_pool m M = (c, M(c := Some b')) \<and> c \<noteq> 0 \<and> M c = None \<and>
           length (mb_data b') = RTE_MBUF_DEFAULT_DATAROOM \<and>
           take (unat (mb_pkt_len b)) (mb_data b') = take (unat (mb_pkt_len b)) (mb_data b)))"

definition idle :: "('h, 'e) app_env_scheme \<Rightarrow> byte list \<Rightarrow> nat \<Rightarrow> 'h app_state \<Rightarrow> bool" where
  "idle e smac n s \<longleftrightarrow> lru_inv e s \<and> group_inv s \<and> ukeys s = [] \<and> memcached_pkt s = 0 \<and>
     (\<forall>k. hash_lookup_data e (client_pkts s) k = None) \<and>
     arp_lookup_mac s (ip_str_to_int TARGET_IP) = Some smac \<and> length smac = 6 \<and>
     finite (dom (mbufs s)) \<and> card (dom (mbufs s)) + n < NUM_SMALL_MBUFS"

text \<open>The first request's packet is copied to make the middlebox's own.\<close>

lemma first_copy:
  assumes env: "full_copies e" and s: "idle e smac n s" "arrived e s (Request m src crid ks)"
  shows "\<exists>c b b'. init_memcached_pkt e m s = s\<lparr>mbufs := (mbufs s)(c := Some b'), memcached_pkt := c\<rparr> \<and> c \<noteq> 0 \<and>
     mbufs s c = None \<and> mbufs s m = Some b \<and> 44 \<le> unat (mb_pkt_len b) \<and> length (mb_data b') = RTE_MBUF_DEFAULT_DATAROOM \<and>
     take (unat (mb_pkt_len b)) (mb_data b') = take (unat (mb_pkt_len b)) (mb_data b)"
proof -
  obtain b where b: "mbufs s m = Some b" "unat (mb_pkt_len b) + RTE_PKTMBUF_HEADROOM \<le> SMALL_MBUFS_SIZE" "44 \<le> unat (mb_pkt_len b)"
      "unat (mb_pkt_len b) \<le> length (mb_data b)"
    using s(2) by (auto simp: arrived_def small_request_def copyable_def)
  moreover have "unat (mb_pkt_len b) \<le> RTE_MBUF_DEFAULT_DATAROOM" "card (dom (mbufs s)) < NUM_MBUFS" "finite (dom (mbufs s))"
    using b(2) s(1) by (simp_all add: RTE_PKTMBUF_HEADROOM_def SMALL_MBUFS_SIZE_def RTE_MBUF_DEFAULT_DATAROOM_def
      NUM_MBUFS_def NUM_SMALL_MBUFS_def idle_def)
  ultimately obtain c b' where c: "pktmbuf_copy e Mbuf_pool m (mbufs s) = (c, (mbufs s)(c := Some b'))" "c \<noteq> 0" "mbufs s c = None"
    "length (mb_data b') = RTE_MBUF_DEFAULT_DATAROOM" "take (unat (mb_pkt_len b)) (mb_data b') = take (unat (mb_pkt_len b)) (mb_data b)"
    using env unfolding full_copies_def by meson
  then have "init_memcached_pkt e m s = s\<lparr>mbufs := (mbufs s)(c := Some b'), memcached_pkt := c\<rparr>"
    using s(1) by (simp add: init_memcached_pkt_def idle_def)
  then show ?thesis using b(1,3) c(2-5) by blast
qed

lemma first_request_ready:
  assumes env: "full_copies e" and s: "idle e smac n s" "arrived e s (Request m src crid ks)"
  shows "ready e smac n (init_memcached_pkt e m s) \<and> ukeys (init_memcached_pkt e m s) = [] \<and>
     app_client_in e m 34 a s = app_client_in e m 34 a (init_memcached_pkt e m s) \<and>
     (\<forall>g. arrived e s g \<longrightarrow> arrived e (init_memcached_pkt e m s) g)"
proof -
  have i: "lru_inv e s" "group_inv s" "ukeys s = []" "memcached_pkt s = 0" "finite (dom (mbufs s))"
    "arp_lookup_mac s (ip_str_to_int TARGET_IP) = Some smac" "length smac = 6" "card (dom (mbufs s)) + n < NUM_SMALL_MBUFS"
    using s(1) by (simp_all add: idle_def)
  let ?t = "init_memcached_pkt e m s"
  obtain c b b' where t: "?t = s\<lparr>mbufs := (mbufs s)(c := Some b'), memcached_pkt := c\<rparr>"
    and c: "c \<noteq> 0" "mbufs s c = None" "length (mb_data b') = RTE_MBUF_DEFAULT_DATAROOM"
      "take (unat (mb_pkt_len b)) (mb_data b') = take (unat (mb_pkt_len b)) (mb_data b)"
    and b: "mbufs s m = Some b" "44 \<le> unat (mb_pkt_len b)"
    using first_copy [OF env s] by blast
  have again: "init_memcached_pkt e m ?t = ?t" using c(1) unfolding t by (simp add: init_memcached_pkt_def)
  have same: "mbufs ?t a = mbufs s a" if "mbufs s a \<noteq> None" for a using that c(2) by (auto simp: t)
  have nobody: "hash_lookup_data e (client_pkts ?t) k = None" for k using s(1) by (simp add: t idle_def)
  have other: "arrived e ?t g" if g: "arrived e s g" for g
  proof -
    have "mbufs ?t (arrival_buf g) = mbufs s (arrival_buf g)" "arrival_buf g \<noteq> memcached_pkt ?t"
      using arrived_buf(1) [OF g] same c(2) by (auto simp: t)
    moreover have "\<not> held e ?t a" for a using no_waiters(1) nobody by metis
    ultimately show ?thesis
      using g is_frame_other [of e s g ?t] by (simp add: arrived_def) (simp add: t)
  qed
  have ihl: "rd 14 1 (mb_data b') = Inr [0x45]"
    by (rule rd_take [OF c(4) [symmetric]]) (use s(2) b(1,2) in \<open>auto simp: arrived_def client_frame_def ipv4_frame_def\<close>)
  have "server_ready ?t smac"
  proof -
    have "mb_data b' = take 42 (mb_data b') @ drop 42 (mb_data b')" "length (take 42 (mb_data b')) = 42"
      "1472 \<le> length (drop 42 (mb_data b'))" "rd 14 1 (take 42 (mb_data b')) = Inr [0x45]"
      using c(3) ihl by (simp_all add: RTE_MBUF_DEFAULT_DATAROOM_def rd_def drop_take)
    moreover have "mbufs ?t (memcached_pkt ?t) = Some b'" "(0x45 :: byte) AND 0x0f = 5" by (simp_all add: t)
    moreover have "arp_lookup_mac ?t (ip_str_to_int TARGET_IP) = Some smac" using i(6) by (simp add: t arp_lookup_mac_def)
    ultimately show ?thesis using i(7) unfolding server_ready_def by blast
  qed
  moreover have "same_group s ?t" by (simp add: t same_group_def)
  moreover have "group_inv ?t" "ukeys ?t = []"
    using i(2,3) same_group_transfer(2) [OF calculation(2)] same_group_ukeys [OF calculation(2)] by simp_all
  ultimately have "ready e smac n ?t" "ukeys ?t = []"
    using i(1,5,8) c(1,2) no_waiters(2) [OF nobody]
    by (auto simp: ready_def equipped_def lru_inv_def t card_insert_if)
  moreover have "app_client_in e m 34 a s = app_client_in e m 34 a ?t"
  proof -
    obtain z where at: "request_at s m crid (str ''gets'' @ spaced ks) z" using s(2) by (auto simp: arrived_def small_request_def)
    moreover have "mbufs ?t m = mbufs s m" using same b(1) by simp
    moreover from this at have "request_at ?t m crid (str ''gets'' @ spaced ks) z" by (simp add: request_at_def)
    ultimately show ?thesis
      using app_client_in_reads [of s m crid _ z e a] app_client_in_reads [of ?t m crid _ z e a] by (simp only: again)
  qed
  ultimately show ?thesis using other by blast
qed

section \<open>Any frame\<close>

text \<open>A state in which frames can be served, with buffers for \<open>n\<close> keys, before or after the first
  request.\<close>

definition prepared :: "('h, 'e) app_env_scheme \<Rightarrow> byte list \<Rightarrow> nat \<Rightarrow> 'h app_state \<Rightarrow> bool" where
  "prepared e smac n s \<longleftrightarrow> ready e smac n s \<or> idle e smac n s"

lemma prepared_waiters: "prepared e smac n s \<Longrightarrow> waiters e s"
  using no_waiters(2) by (auto simp: prepared_def ready_def equipped_def idle_def)

lemma prepared_other:
  assumes "same_group s t" "mbufs t = mbufs s" "known_haddrs t = known_haddrs s" "memcached_pkt t = memcached_pkt s"
    "client_pkts t = client_pkts s" "LRU_queue t = LRU_queue s" "LRU_ptr t = LRU_ptr s"
  shows "prepared e smac n t = prepared e smac n s"
proof -
  have "arp_lookup_mac t = arp_lookup_mac s" using assms(3) by (simp add: arp_lookup_mac_def [abs_def])
  then have "idle e smac n t = idle e smac n s"
    using assms same_group_transfer(2) [OF assms(1)] same_group_ukeys [OF assms(1)] by (simp add: idle_def lru_inv_def)
  then show ?thesis using ready_other [OF assms, of e smac n] by (simp add: prepared_def)
qed

text \<open>A packet of its own is no part of what the application keeps.\<close>

lemma prepared_packet:
  assumes "prepared e smac n s" "net_only s t" "\<And>a. a \<noteq> m \<Longrightarrow> mbufs t a = mbufs s a" "mbufs t m \<noteq> None"
    and "mbufs s m \<noteq> None" "\<not> held e s m" "m \<noteq> memcached_pkt s"
  shows "prepared e smac n t" "undisturbed e m s t" "ukeys t = ukeys s"
proof -
  obtain M u where t: "t = s\<lparr>mbufs := M, trace := u\<rparr>" using assms(2) by (auto simp: net_only_def)
  note w = packet_waiters [OF prepared_waiters [OF assms(1)] assms(2,3,5,4,6)]
  note same = same_group_transfer(2) [OF same_group_net [OF assms(2)]] same_group_ukeys [OF same_group_net [OF assms(2)]]
  have "idle e smac n s \<Longrightarrow> idle e smac n t"
    using w(3) same by (simp add: idle_def lru_inv_def t arp_lookup_mac_def)
  then show "prepared e smac n t"
    using assms(1) ready_packet(1) [OF _ assms(2-7), of smac n] by (auto simp: prepared_def)
  show "undisturbed e m s t" by (rule w(2))
  show "ukeys t = ukeys s" by (rule same(2))
qed

text \<open>The driver puts new packets into the heap.\<close>

lemma prepared_heap:
  assumes "prepared e smac n (s\<lparr>mbufs := M\<rparr>)" "prepared e smac 0 t" "known_haddrs t = known_haddrs s" "memcached_pkt t = memcached_pkt s"
    "client_pkts t = client_pkts s"
  shows "prepared e smac n (t\<lparr>mbufs := M\<rparr>)"
proof -
  have "same_group t (t\<lparr>mbufs := M\<rparr>)" by (simp add: same_group_def)
  note same = same_group_transfer(2) [OF this] same_group_ukeys [OF this]
  have "waiters e (t\<lparr>mbufs := M\<rparr>) = waiters e (s\<lparr>mbufs := M\<rparr>)" by (rule held_other) (simp_all add: assms(3-5))
  then show ?thesis
    using assms by (auto simp: prepared_def ready_def equipped_def idle_def same lru_inv_def server_ready_def arp_lookup_mac_def)
qed

lemma prepared_less: "prepared e smac (k + n) s \<Longrightarrow> prepared e smac n s"
  by (auto simp: prepared_def ready_def equipped_def idle_def)

lemma reply_frame_served:
  assumes env: "unformat_ok e" "tx_live e" "hash_ok e" "NUM_SMALL_MBUFS \<le> chain_fuel e"
    and s: "prepared e smac n s" "reply_frame s m" "m \<noteq> memcached_pkt s" "\<not> held e s m"
    and fits: "request_text_len (ukeys s) < MAX_PAYLOAD_LEN"
  shows "\<exists>t. eth_in e m s = Inr t \<and> prepared e smac n t \<and> undisturbed e m s t \<and>
     request_text_len (ukeys t) \<le> request_text_len (ukeys s)"
proof -
  have frame: "ipv4_frame s m 0x45 IPPROTO_UDP (ip_str_to_int TARGET_IP) (of_le (to_be32 get_local_ip)) LOCAL_PORT"
    using s(2) by (simp add: reply_frame_def)
  have "arp_lookup_mac s (ip_str_to_int TARGET_IP) \<noteq> None"
    using s(1) by (auto simp: prepared_def ready_def equipped_def server_ready_def idle_def)
  then have dispatch: "eth_in e m s = app_server_in e m 34 s" using eth_in_ipv4 [OF frame, of e] by simp
  obtain rid seq dgrams rsv txt' z where r: "reply_at s m rid seq dgrams rsv txt' z" "unat rid < MAX_REQ_ID" "reply_text txt' z"
    using s(2) by (auto simp: reply_frame_def)
  show ?thesis
  proof (cases "ready e smac n s")
    case True
    then show ?thesis
      using reply_served [OF env True _ s(3,4) r(1,3,2)] fits by (auto simp: dispatch prepared_def)
  next
    case False
    then have nobody: "hash_lookup_data e (client_pkts s) k = None" for k using s(1) by (simp add: prepared_def idle_def)
    obtain sig h l where "app_server_in e m 34 s =
        deliver e m rid seq dgrams (hash_lookup_data e (client_pkts s) sig, s\<lparr>key_hold := h, last_key := l\<rparr>)"
      using app_server_in_looks_up [OF r(1,3)] by blast
    then have run: "eth_in e m s = Inr (log_event (Free m) (s\<lparr>key_hold := h, last_key := l\<rparr>))"
      by (simp add: dispatch nobody deliver_def)
    have "prepared e smac n (log_event (Free m) (s\<lparr>key_hold := h, last_key := l\<rparr>))"
      by (subst prepared_other [of s]) (simp_all add: s(1) log_event_def same_group_def)
    moreover have "undisturbed e m s (log_event (Free m) (s\<lparr>key_hold := h, last_key := l\<rparr>))"
      by (rule undisturbed_same) (simp_all add: log_event_def)
    ultimately show ?thesis using run by (simp add: ukeys_def log_event_def)
  qed
qed

lemma frame_served:
  assumes env: "unformat_ok e" "tx_live e" "hash_ok e" "small_copies e" "full_copies e" "NUM_SMALL_MBUFS \<le> chain_fuel e"
    and s: "prepared e smac (length (asked_keys f) + n) s" "arrived e s f"
    and fits: "request_text_len (ukeys s) + keys_len (asked_keys f) < MAX_PAYLOAD_LEN"
  shows "\<exists>t. eth_in e (arrival_buf f) s = Inr t \<and> prepared e smac n t \<and>
     (\<forall>g. arrival_buf g \<noteq> arrival_buf f \<longrightarrow> arrived e s g \<longrightarrow> arrived e t g) \<and>
     request_text_len (ukeys t) \<le> request_text_len (ukeys s) + keys_len (asked_keys f)"
proof (cases f)
  case (Request m src crid ks)
  have frame: "client_frame s m src" using s(2) by (simp add: Request arrived_def)
  have dispatch: "eth_in e m s = app_client_in e m 34 src s"
    using frame eth_in_ipv4 [of s m "0x45" IPPROTO_UDP src "of_le (to_be32 get_local_ip)" LOCAL_PORT e]
    by (simp add: client_frame_def)
  obtain s1 where s1: "ready e smac (length ks + n) s1" "app_client_in e m 34 src s = app_client_in e m 34 src s1"
    "\<forall>g. arrived e s g \<longrightarrow> arrived e s1 g" "ukeys s1 = ukeys s"
  proof (cases "idle e smac (length ks + n) s")
    case True
    have "ukeys s = []" using True by (simp add: idle_def)
    with first_request_ready [OF env(5) True s(2) [unfolded Request], of src] that show ?thesis by metis
  next
    case False
    then show ?thesis using that s(1) by (simp add: Request prepared_def)
  qed
  have "arrived e s1 (Request m src crid ks)" using s(2) s1(3) unfolding Request by blast
  from ready_frame_served [OF env(1-4) s1(1) this] obtain t where t: "app_client_in e m 34 src s1 = Inr t" "ready e smac n t"
    "undisturbed e m s1 t" "request_text_len (ukeys t) \<le> request_text_len (ukeys s1) + keys_len ks"
    using fits by (auto simp: Request s1(4))
  have "arrived e t g" if "arrival_buf g \<noteq> m" "arrived e s g" for g
    using arrived_other [OF t(3) that(1)] s1(3) that(2) by blast
  then show ?thesis using t(1,2,4) by (intro exI [of _ t]) (simp add: Request dispatch s1(2,4) prepared_def)
next
  case (Reply m)
  have frame: "reply_frame s m" "m \<noteq> memcached_pkt s" "\<not> held e s m" using s(2) by (simp_all add: Reply arrived_def)
  have "prepared e smac n s" "request_text_len (ukeys s) < MAX_PAYLOAD_LEN" using s(1) fits by (simp_all add: Reply)
  with reply_frame_served [OF env(1-3,6) _ frame] obtain t where t: "eth_in e m s = Inr t" "prepared e smac n t" "undisturbed e m s t"
    "request_text_len (ukeys t) \<le> request_text_len (ukeys s)" by blast
  moreover from t(3) have "\<forall>g. arrival_buf g \<noteq> m \<longrightarrow> arrived e s g \<longrightarrow> arrived e t g" using arrived_other by blast
  ultimately show ?thesis by (intro exI [of _ t]) (simp add: Reply)
next
  case (Arp m)
  have frame: "arp_frame s m" "mbufs s m \<noteq> None" "m \<noteq> memcached_pkt s" "\<not> held e s m"
    using s(2) arrived_buf [OF s(2)] by (simp_all add: Arp arrived_def)
  obtain t b where t: "eth_in e m s = Inr t" "net_only s t" "mbufs t = (mbufs s)(m \<mapsto> b)"
    using eth_in_arp [OF env(1,2) frame(1)] by blast
  have "prepared e smac n s" using s(1) by (simp add: Arp)
  from prepared_packet [OF this t(2) _ _ frame(2,4,3)] t(3) have "prepared e smac n t" "undisturbed e m s t" "ukeys t = ukeys s"
    by simp_all
  moreover from this(2) have "\<forall>g. arrival_buf g \<noteq> m \<longrightarrow> arrived e s g \<longrightarrow> arrived e t g" using arrived_other by blast
  ultimately show ?thesis using t(1) by (intro exI [of _ t]) (simp add: Arp)
next
  case (Stray m)
  have frame: "stray_frame s m" using s(2) by (simp add: Stray arrived_def)
  have "prepared e smac n (log_event ev s) = prepared e smac n s" for ev
    by (rule prepared_other) (simp_all add: log_event_def same_group_def)
  moreover have "arrived e (log_event ev s) g" if "arrived e s g" for ev g
    using undisturbed_none [OF undisturbed_log that] .
  ultimately show ?thesis using eth_in_stray [OF frame, of e] s(1) by (auto simp: Stray)
qed

text \<open>The check for a group that has waited too long.\<close>

lemma backlog_served:
  assumes env: "unformat_ok e" "tx_live e" and s: "prepared e smac n s"
    and fits: "request_text_len (ukeys s) < MAX_PAYLOAD_LEN"
  shows "\<exists>t. refresh_backlog e s = Inr t \<and> prepared e smac n t \<and> (\<forall>m. undisturbed e m s t) \<and>
     client_pkts t = client_pkts s \<and> request_text_len (ukeys t) \<le> request_text_len (ukeys s)"
proof -
  have clocks: "prepared e smac n t" "undisturbed e m s t" "ukeys t = ukeys s" "client_pkts t = client_pkts s"
    if "t = start_clock e s \<or> t = log_event Clock (start_clock e s) \<or> t = reset_counts (log_event Clock (start_clock e s))" for t m
  proof -
    have "same_group s t" using that same_group_clocks [of s e] by blast
    moreover have "mbufs t = mbufs s" "known_haddrs t = known_haddrs s" "memcached_pkt t = memcached_pkt s"
      "client_pkts t = client_pkts s" "LRU_queue t = LRU_queue s" "LRU_ptr t = LRU_ptr s"
      using that by (auto simp: start_clock_def reset_counts_def log_event_def)
    ultimately show "prepared e smac n t" "undisturbed e m s t" "ukeys t = ukeys s" "client_pkts t = client_pkts s"
      using s prepared_other [of s t e smac n] same_group_ukeys undisturbed_same [of t s e m] by simp_all
  qed
  show ?thesis
  proof (cases "ukey_len s = 0")
    case True
    then have "refresh_backlog e s = Inr (start_clock e s)"
      using same_group_clocks(1) [of s e] by (simp add: refresh_backlog_eq Let_def same_group_def)
    then show ?thesis using clocks [of "start_clock e s"] by simp
  next
    case False
    let ?t = "reset_counts (log_event Clock (start_clock e s))"
    have "ukeys s \<noteq> []" using False length_ukeys [of s] by (auto simp: unat_eq_0 simp del: length_ukeys)
    then have "ready e smac n ?t" using clocks(1,3) [of ?t] by (simp add: prepared_def idle_def)
    then have flush: "\<exists>u. construct_pkt_and_send_to_server e False ?t = Inr u \<and> ready e smac n u \<and> undisturbed e m ?t u \<and>
       client_pkts u = client_pkts s \<and> request_text_len (ukeys u) \<le> request_text_len (ukeys s)" for m
      using flush_served [OF env, of smac n ?t m] fits clocks(3,4) [of ?t] by (auto simp: brimful_def)
    then obtain u where u: "construct_pkt_and_send_to_server e False ?t = Inr u" "ready e smac n u"
      "client_pkts u = client_pkts s" "request_text_len (ukeys u) \<le> request_text_len (ukeys s)" by blast
    have "undisturbed e m s u" for m
      using undisturbed_trans [OF clocks(2) [of ?t m]] flush [of m] u(1) by auto
    then show ?thesis
      using u clocks False by (auto simp: refresh_backlog_eq Let_def prepared_def)
  qed
qed

section \<open>A burst\<close>

lemma burst_served:
  assumes env: "unformat_ok e" "tx_live e" "hash_ok e" "small_copies e" "full_copies e" "NUM_SMALL_MBUFS \<le> chain_fuel e"
  shows "prepared e smac (length (concat (map asked_keys fs)) + n) s \<Longrightarrow> \<forall>f \<in> set fs. arrived e s f \<Longrightarrow>
    distinct (map arrival_buf fs) \<Longrightarrow>
    request_text_len (ukeys s) + keys_len (concat (map asked_keys fs)) < MAX_PAYLOAD_LEN \<Longrightarrow>
    \<exists>t. rx_loop e (map arrival_buf fs) s = Inr t \<and> prepared e smac n t \<and>
      request_text_len (ukeys t) \<le> request_text_len (ukeys s) + keys_len (concat (map asked_keys fs))"
proof (induction fs arbitrary: s)
  case Nil
  then show ?case by simp
next
  case (Cons f fs)
  let ?n = "length (concat (map asked_keys fs)) + n"
  have split: "keys_len (concat (map asked_keys (f # fs))) = keys_len (asked_keys f) + keys_len (concat (map asked_keys fs))"
    by (simp add: keys_len_def)
  obtain t where t: "refresh_backlog e s = Inr t" "prepared e smac (length (asked_keys f) + ?n) t" "\<And>m. undisturbed e m s t"
    "request_text_len (ukeys t) \<le> request_text_len (ukeys s)"
    using backlog_served [OF env(1,2) Cons.prems(1)] Cons.prems(4) by (auto simp: add.assoc)
  have here: "\<forall>g \<in> set (f # fs). arrived e t g" using Cons.prems(2) undisturbed_none [OF t(3)] by blast
  then have "arrived e t f" by simp
  moreover have "request_text_len (ukeys t) + keys_len (asked_keys f) < MAX_PAYLOAD_LEN"
    using Cons.prems(4) t(4) unfolding split by linarith
  ultimately obtain u where u: "eth_in e (arrival_buf f) t = Inr u" "prepared e smac ?n u"
    "\<forall>g. arrival_buf g \<noteq> arrival_buf f \<longrightarrow> arrived e t g \<longrightarrow> arrived e u g" "request_text_len (ukeys u) \<le> request_text_len (ukeys t) + keys_len (asked_keys f)"
    using frame_served [OF env t(2)] by blast
  have "arrived e u g" if "g \<in> set fs" for g
  proof -
    have "arrival_buf g \<noteq> arrival_buf f" using Cons.prems(3) imageI [OF that, of arrival_buf] by auto
    then show ?thesis using u(3) here that by simp
  qed
  moreover have "distinct (map arrival_buf fs)" using Cons.prems(3) by simp
  moreover have "request_text_len (ukeys u) + keys_len (concat (map asked_keys fs)) < MAX_PAYLOAD_LEN"
    using Cons.prems(4) t(4) u(4) unfolding split by linarith
  ultimately obtain v where "rx_loop e (map arrival_buf fs) u = Inr v" "prepared e smac n v"
    "request_text_len (ukeys v) \<le> request_text_len (ukeys u) + keys_len (concat (map asked_keys fs))"
    using Cons.IH [OF u(2)] by blast
  moreover from this t(4) u(4) have "request_text_len (ukeys v) \<le> request_text_len (ukeys s) + keys_len (concat (map asked_keys (f # fs)))"
    unfolding split by linarith
  ultimately show ?case using t(1) u(1) by (intro exI [of _ v]) simp
qed

lemma poll_served:
  assumes env: "unformat_ok e" "tx_live e" "hash_ok e" "small_copies e" "full_copies e" "NUM_SMALL_MBUFS \<le> chain_fuel e"
    and s: "prepared e smac 0 s" "prepared e smac (length (concat (map asked_keys fs))) (s\<lparr>mbufs := M\<rparr>)"
    and fs: "\<forall>f \<in> set fs. arrived e (s\<lparr>mbufs := M\<rparr>) f" "distinct (map arrival_buf fs)" "length fs \<le> BURST_SIZE"
    and fits: "request_text_len (ukeys s) + keys_len (concat (map asked_keys fs)) < MAX_PAYLOAD_LEN"
  shows "\<exists>t. poll_port e M (map arrival_buf fs) s = Inr t \<and> prepared e smac 0 t \<and>
     request_text_len (ukeys t) \<le> request_text_len (ukeys s) + keys_len (concat (map asked_keys fs))"
proof -
  obtain t where t: "refresh_backlog e s = Inr t" "prepared e smac 0 t" "\<forall>m. undisturbed e m s t"
    "client_pkts t = client_pkts s" "request_text_len (ukeys t) \<le> request_text_len (ukeys s)"
    using backlog_served [OF env(1,2) s(1)] fits by auto
  let ?t = "t\<lparr>mbufs := M\<rparr>" and ?s = "s\<lparr>mbufs := M\<rparr>"
  have same: "known_haddrs t = known_haddrs s" "memcached_pkt t = memcached_pkt s" using t(3) by (simp_all add: undisturbed_def)
  have "prepared e smac (length (concat (map asked_keys fs)) + 0) ?t"
    using prepared_heap [OF s(2) t(2) same t(4)] by simp
  moreover have "undisturbed e m ?s ?t" for m by (rule undisturbed_same) (simp_all add: same t(4))
  then have "\<forall>f \<in> set fs. arrived e ?t f" using fs(1) undisturbed_none by blast
  moreover have "ukeys ?t = ukeys t" by (simp add: ukeys_def)
  ultimately obtain u where "rx_loop e (map arrival_buf fs) ?t = Inr u" "prepared e smac 0 u"
    "request_text_len (ukeys u) \<le> request_text_len (ukeys t) + keys_len (concat (map asked_keys fs))"
    using burst_served [OF env, of smac fs 0 ?t] fs(2) fits t(5) by auto
  then show ?thesis using t(1,5) fs(3) by (intro exI [of _ u]) (simp add: poll_port_def)
qed

section \<open>From start-up, visit after visit\<close>

text \<open>What a visit to a port may bring: heap and burst.\<close>

definition visit_ok :: "('h, 'e) app_env_scheme \<Rightarrow> byte list \<Rightarrow> 'h app_state \<Rightarrow> (u64 \<Rightarrow> mbuf option) \<Rightarrow> arrival list \<Rightarrow> bool" where
  "visit_ok e smac s M fs \<longleftrightarrow>
     finite (dom M) \<and> card (dom M) + length (concat (map asked_keys fs)) < NUM_SMALL_MBUFS \<and>
     (\<forall>a. held e s a \<longrightarrow> M a = mbufs s a) \<and>
     (memcached_pkt s \<noteq> 0 \<longrightarrow> server_ready (s\<lparr>mbufs := M\<rparr>) smac) \<and>
     (\<forall>f \<in> set fs. arrived e (s\<lparr>mbufs := M\<rparr>) f) \<and> distinct (map arrival_buf fs) \<and> length fs \<le> BURST_SIZE \<and>
     request_text_len (ukeys s) + keys_len (concat (map asked_keys fs)) < MAX_PAYLOAD_LEN"

inductive serving :: "('h, 'e) app_env_scheme \<Rightarrow> byte list \<Rightarrow> 'h app_state \<Rightarrow> 'h app_state \<Rightarrow> bool"
  for e :: "('h, 'e) app_env_scheme" and smac :: "byte list" where
  serving_start: "serving e smac s s"
| serving_visit: "serving e smac s t \<Longrightarrow> visit_ok e smac t M fs \<Longrightarrow> poll_port e M (map arrival_buf fs) t = Inr u \<Longrightarrow>
     serving e smac s u"

lemma serving_lcore_main: "serving e smac s t \<Longrightarrow> lcore_main e s t"
  by (induction rule: serving.induct) (auto intro: lcore_main.intros)

lemma visit_prepared:
  assumes "prepared e smac 0 s" "visit_ok e smac s M fs"
  shows "prepared e smac (length (concat (map asked_keys fs))) (s\<lparr>mbufs := M\<rparr>)"
proof -
  have "same_group s (s\<lparr>mbufs := M\<rparr>)" by (simp add: same_group_def)
  note same = same_group_transfer(2) [OF this] same_group_ukeys [OF this]
  have "hash_lookup_data e (client_pkts (s\<lparr>mbufs := M\<rparr>)) k = Some (p, h) \<Longrightarrow> \<exists>p'. hash_lookup_data e (client_pkts s) k = Some (p', h)" for k p h
    by simp
  note kept = waiters_kept(2) [OF prepared_waiters [OF assms(1)] this]
  have "\<not> held e s (memcached_pkt s)" using prepared_waiters [OF assms(1)] by (simp add: waiters_def)
  then have "waiters e (s\<lparr>mbufs := M\<rparr>)" using assms(2) by (intro kept) (simp_all add: visit_ok_def)
  then show ?thesis
    using assms by (auto simp: prepared_def ready_def equipped_def idle_def same lru_inv_def arp_lookup_mac_def visit_ok_def)
qed

lemma visit_served:
  assumes env: "unformat_ok e" "tx_live e" "hash_ok e" "small_copies e" "full_copies e" "NUM_SMALL_MBUFS \<le> chain_fuel e"
    and s: "prepared e smac 0 s" "visit_ok e smac s M fs"
  shows "\<exists>t. poll_port e M (map arrival_buf fs) s = Inr t \<and> prepared e smac 0 t"
  using poll_served [OF env s(1) visit_prepared [OF s]] s(2) by (auto simp: visit_ok_def)

lemma serving_prepared:
  assumes env: "unformat_ok e" "tx_live e" "hash_ok e" "small_copies e" "full_copies e" "NUM_SMALL_MBUFS \<le> chain_fuel e"
  shows "serving e smac s t \<Longrightarrow> prepared e smac 0 s \<Longrightarrow> prepared e smac 0 t"
proof (induction rule: serving.induct)
  case (serving_visit s t M fs u)
  then show ?case using visit_served [OF env serving_visit.IH [OF serving_visit.prems] serving_visit.hyps(2)] by simp
qed

lemma main_init_addresses:
  assumes "unformat_ok e" "main_init e d (Some (map arp_line ps)) M = Inr s"
    and ps: "\<forall>p \<in> set ps. length (snd p) = 6" "length ps \<le> ARP_ENTRIES_COUNT" "a \<noteq> 0"
  shows "arp_lookup_mac s a = map_of ps a"
proof -
  obtain s1 where s1: "init_arp_table e (Some (map arp_line ps)) (init_state e M) = Inr s1" "s = init_hashmap e s1"
    using assms(2) by (auto simp: main_init_def bindr_eq_Inr)
  have "arp_count (init_state e M) = 0" "known_haddrs (init_state e M) = (\<lambda>_. empty_entry)"
    by (simp_all add: init_state_def)
  from arp_table_loaded [OF assms(1) ps(1) _ this] ps(2) s1(1) have "arp_lookup_mac s1 a = map_of ps a"
    using ps(3) by (auto simp: ARP_ENTRIES_COUNT_def)
  then show ?thesis by (simp add: s1(2) init_hashmap_def arp_lookup_mac_def)
qed

lemma main_init_prepared:
  assumes "hash_ok e" "unformat_ok e" "main_init e d (Some (map arp_line ps)) M = Inr s"
    and ps: "\<forall>p \<in> set ps. length (snd p) = 6" "length ps \<le> ARP_ENTRIES_COUNT" "map_of ps (ip_str_to_int TARGET_IP) = Some smac"
    and M: "finite (dom M)" "card (dom M) < NUM_SMALL_MBUFS"
  shows "prepared e smac 0 s"
proof -
  have "ip_str_to_int TARGET_IP \<noteq> 0" by (simp add: target_ip_eq RTE_IPV4_def of_be_def)
  then have "arp_lookup_mac s (ip_str_to_int TARGET_IP) = Some smac"
    using main_init_addresses [OF assms(2,3) ps(1,2)] ps(3) by simp
  moreover have "length smac = 6" using map_of_SomeD [OF ps(3)] ps(1) by auto
  moreover have "ukeys s = []" "memcached_pkt s = 0" "mbufs s = M" "client_pkts s = hash_create e"
    using main_init_frame [OF assms(3)] by (auto simp: init_state_def ukeys_def)
  ultimately show ?thesis
    using main_init_lru [OF assms(3,1)] main_init_group [OF assms(3)] hash_create_lookup [OF assms(1)] M
    by (simp add: prepared_def idle_def)
qed


end
