(* ===== verification/Boot.thy ===== *)
theory Boot
  imports Polling
begin

text \<open>
  From start-up to the first frame sent: the middlebox makes its own packet of a copy of the first
  client's, and the client's keys go to memcached.
\<close>

section \<open>The first request\<close>

lemma start_clock_fields [simp]:
  "request_id (start_clock e s) = request_id s" "outstanding_req (start_clock e s) = outstanding_req s"
  "client_pkts (start_clock e s) = client_pkts s" "LRU_queue (start_clock e s) = LRU_queue s"
  "LRU_ptr (start_clock e s) = LRU_ptr s" "memcached_pkt (start_clock e s) = memcached_pkt s"
  "ukey_len (start_clock e s) = ukey_len s" "calls (trace (start_clock e s)) = calls (trace s)"
  "mbufs (start_clock e s) = mbufs s" "known_haddrs (start_clock e s) = known_haddrs s"
  by (simp_all add: start_clock_def log_event_def)

text \<open>A request that arrived from a client is a packet that can wait for its replies.\<close>

lemma request_waiting:
  assumes "client_frame s m src" "request_at s m crid (str ''gets'' @ spaced ks) z" "mbufs s m = Some b"
    and "arp_lookup_mac s src = Some mac" "length mac = 6" "m \<noteq> 0"
  shows "waiting s m b crid src mac"
proof -
  let ?n = "length (str ''gets'' @ spaced ks)"
  obtain q hdr where d: "mb_data b = q @ to_be16 crid @ hdr @ (str ''gets'' @ spaced ks) @ [13, 10] @ z" "length q = 42"
    "rd_be16 38 q = Inr (word_of_nat (?n + 18))" "?n \<le> 1462"
    using assms(2,3) unfolding request_at_def by fastforce
  have "rd_be16 38 (mb_data b) = Inr (word_of_nat (?n + 18))" using d(2,3) unfolding d(1) by (simp add: rd_be16_def rd_append_left)
  moreover have "unat (word_of_nat (?n + 18) :: u16) = ?n + 18" using d(4) by (intro unat_small_u16) simp
  moreover have "rd_be16 42 (mb_data b) = Inr crid" using d(2) unfolding d(1) by (simp add: rd_be16_def rd_def)
  ultimately show ?thesis
    using assms d(4) by (auto simp: waiting_def client_frame_def ipv4_frame_def)
qed

lemma arrived_waiting:
  assumes "arrived e s (Request m src crid ks)" "mbufs s m = Some b" "arp_lookup_mac s src = Some mac" "length mac = 6" "m \<noteq> 0"
  shows "waiting s m b crid src mac"
  using assms request_waiting [OF _ _ assms(2-5)] by (auto simp: arrived_def small_request_def)

text \<open>A visit that brings one frame while no keys wait.\<close>

lemma quiet_visit:
  assumes "ukey_len s = 0"
  shows "\<exists>t. poll_port e M [m] s = eth_in e m t \<and> same_group s t \<and> mbufs t = M \<and> known_haddrs t = known_haddrs s \<and>
     memcached_pkt t = memcached_pkt s \<and> client_pkts t = client_pkts s \<and> LRU_queue t = LRU_queue s \<and> LRU_ptr t = LRU_ptr s \<and>
     outstanding_req t = outstanding_req s \<and> calls (trace t) = calls (trace s)"
proof -
  obtain s1 where s1: "s1 = (start_clock e s)\<lparr>mbufs := M\<rparr>" by blast
  have "same_group s s1" using same_group_clocks(1) [of s e] by (simp add: s1 same_group_def)
  then have same: "same_group s (start_clock e s1)" using same_group_clocks(1) by (rule same_group_trans)
  have "ukey_len s1 = 0" using assms by (simp add: s1)
  then have "poll_port e M [m] s = bindr (eth_in e m (start_clock e s1)) (rx_loop e [])"
    using assms by (simp add: poll_port_def BURST_SIZE_def refresh_backlog_eq Let_def s1)
  also have "\<dots> = eth_in e m (start_clock e s1)" by (cases "eth_in e m (start_clock e s1)") simp_all
  finally show ?thesis using same by (intro exI [of _ "start_clock e s1"]) (simp add: s1)
qed

lemma first_request_new:
  assumes s: "idle e smac (length ks) s" "arrived e s (Request m src crid ks)" "distinct ks" "m \<noteq> 0"
    and client: "arp_lookup_mac s src = Some mac" "length mac = 6"
    and b: "mbufs s m = Some b" "mb_next b = 0" "56 + length (spaced ks) \<le> unat (mb_pkt_len b)"
    and empty: "\<forall>i. LRU_queue s i = []"
    and t: "t = s\<lparr>mbufs := (mbufs s)(c := Some b'), memcached_pkt := c\<rparr>" "mbufs s c = None" "c \<noteq> 0"
  shows "new_request e t m crid src mac ks"
proof -
  have r: "\<exists>z. request_at s m crid (str ''gets'' @ spaced ks) z" "ks \<noteq> []" "list_all key_text ks" "keys_len ks \<le> 72" "copyable s m"
    using s(2) by (simp_all add: arrived_def small_request_def)
  have m: "mbufs t m = Some b" "m \<noteq> c" using b(1) t(2) by (auto simp: t(1))
  have "small_packet s m crid src mac"
    using arrived_waiting [OF s(2) b(1) client s(4)] b r(5) by (auto simp: small_packet_def copyable_def)
  then have "small_packet t m crid src mac"
    using m b(1) by (subst small_packet_other [of t m s]) (simp_all add: t(1))
  moreover have "\<exists>z. request_at t m crid (str ''gets'' @ spaced ks) z" using r(1) m(1) b(1) by (simp add: request_at_def)
  moreover have "ukeys t = []" using s(1) by (simp add: t(1) ukeys_def idle_def)
  moreover have "finite (dom (mbufs t))" "card (dom (mbufs t)) + length ks \<le> NUM_SMALL_MBUFS"
    using s(1) by (auto simp: idle_def t(1) card_insert_if)
  moreover have "list_all (\<lambda>k. signature (request_id t) k \<notin> LRU_queue t ` {..<MAP_ENTRIES}) ks"
    using empty by (auto simp: t(1) signature_def list_all_iff)
  moreover have "request_text_len ks < MAX_PAYLOAD_LEN"
    using r(4) by (simp add: request_text_len_def keys_len_def GETS_LEN_def)
  ultimately show ?thesis
    using r(2,3) b(3) m s(3) t(3) by (auto simp: new_request_def t(1))
qed

text \<open>C7: the first request after start-up, of new keys from a client in the address file: the
  middlebox makes its own packet of a copy of the client's, and one frame goes out, the request
  for the keys to memcached; the client waits for each of the keys.\<close>

theorem first_request_sent:
  assumes env: "unformat_ok e" "tx_live e" "hash_ok e" "small_copies e" "full_copies e"
    and init: "main_init e d (Some (map arp_line ps)) M0 = Inr s0" "finite (dom M0)" "card (dom M0) < NUM_SMALL_MBUFS"
    and ps: "\<forall>p \<in> set ps. length (snd p) = 6" "length ps \<le> ARP_ENTRIES_COUNT" "map_of ps (ip_str_to_int TARGET_IP) = Some smac"
    and visit: "visit_ok e smac s0 M [Request m src crid ks]" "distinct ks" "m \<noteq> 0" "map_of ps src = Some mac" "src \<noteq> 0"
    and b: "M m = Some b" "mb_next b = 0" "56 + length (spaced ks) \<le> unat (mb_pkt_len b)"
  shows "\<exists>t c heads. poll_port e M [m] s0 = Inr t \<and> M c = None \<and>
     calls (trace t) = [Refcnt c 1, Tx c (request_frame e smac 0 ks)] \<and> ukeys t = [] \<and>
     (\<forall>k \<in> set ks. waits_alone e t (signature 0 k) (heads k) crid src mac)"
proof -
  obtain tbl n where s0: "s0 = (init_state e M0)\<lparr>known_haddrs := tbl, arp_count := n\<rparr>"
    using main_init_frame [OF init(1)] by blast
  have start: "request_id s0 = 0" "outstanding_req s0 = 0" "client_pkts s0 = hash_create e" "LRU_queue s0 = (\<lambda>_. [])" "trace s0 = []"
    "memcached_pkt s0 = 0" "ukey_len s0 = 0" by (simp_all add: s0 init_state_def)
  obtain s2 where visit_eq: "poll_port e M [m] s0 = eth_in e m s2" and same2: "same_group s0 s2"
    and s2: "mbufs s2 = M" "known_haddrs s2 = known_haddrs s0" "memcached_pkt s2 = 0" "client_pkts s2 = hash_create e"
      "LRU_queue s2 = (\<lambda>_. [])" "LRU_ptr s2 = LRU_ptr s0" "outstanding_req s2 = 0" "calls (trace s2) = []"
    using quiet_visit [OF start(7), of e M m] start by auto
  have s2_group: "request_id s2 = 0" "ukey_len s2 = 0" using same2 start(1,7) by (simp_all add: same_group_def)
  have prep: "prepared e smac 0 s0" by (rule main_init_prepared [OF env(3,1) init(1) ps init(2,3)])
  have "prepared e smac (length ks) (s0\<lparr>mbufs := M\<rparr>)" using visit_prepared [OF prep visit(1)] by simp
  then have "prepared e smac (length ks) s2"
    by (subst prepared_other [of "s0\<lparr>mbufs := M\<rparr>"]) (use same2 s2 start in \<open>simp_all add: same_group_def\<close>)
  then have idle: "idle e smac (length ks) s2" using s2(3) by (auto simp: prepared_def ready_def equipped_def)
  have und: "undisturbed e 0 (s0\<lparr>mbufs := M\<rparr>) s2" and here: "arrived e (s0\<lparr>mbufs := M\<rparr>) (Request m src crid ks)"
    using undisturbed_same [of s2 "s0\<lparr>mbufs := M\<rparr>" e 0] s2(1-4) start(3,6) visit(1) by (simp_all add: visit_ok_def)
  have req: "arrived e s2 (Request m src crid ks)" by (rule arrived_other [OF und _ here]) (use visit(3) in simp)
  have macs: "arp_lookup_mac s2 src = Some mac" "length mac = 6"
    using main_init_addresses [OF env(1) init(1) ps(1,2) visit(5)] visit(4) s2(2) map_of_SomeD [OF visit(4)] ps(1)
    by (auto simp: arp_lookup_mac_def split: option.splits)
  let ?t = "init_memcached_pkt e m s2"
  obtain c b' where t: "?t = s2\<lparr>mbufs := (mbufs s2)(c := Some b'), memcached_pkt := c\<rparr>" "mbufs s2 c = None" "c \<noteq> 0"
    using first_copy [OF env(5) idle req] by blast
  have new: "new_request e ?t m crid src mac ks"
    by (rule first_request_new [OF idle req visit(2,3) macs _ b(2,3) _ t]) (simp_all add: s2 b(1))
  have rd: "ready e smac (length ks) ?t" "ukeys ?t = []"
    and run: "app_client_in e m 34 src s2 = app_client_in e m 34 src ?t"
    using first_request_ready [OF env(5) idle req] by blast+
  have same: "request_id ?t = 0" "outstanding_req ?t = 0" "client_pkts ?t = hash_create e" "memcached_pkt ?t = c" "calls (trace ?t) = []"
    using s2 s2_group by (simp_all add: t(1))
  obtain u heads evs where u: "app_client_in e m 34 src ?t = Inr u"
    "calls (trace u) = map Free evs @ [Refcnt c 1, Tx c (request_frame e smac 0 (merge_keys [] ks))]" "ukeys u = []"
    "\<forall>c \<in> set evs. \<exists>k p. hash_lookup_data e (hash_create e) k = Some (p, c)"
    "\<forall>k \<in> set ks. waits_alone e u (signature 0 k) (heads k) crid src mac"
    using request_merged [OF env(1-4) _ _ new, of smac src] rd by (auto simp: ready_def equipped_def same MIN_OUTSTANDING_REQ_def)
  have "evs = []" using u(4) hash_create_lookup [OF env(3)] by (cases evs) auto
  moreover have "merge_keys [] ks = ks" using merge_keys_new [of "[]" ks] visit(2) by simp
  moreover have "eth_in e m s2 = app_client_in e m 34 src s2"
    using req eth_in_ipv4 [of s2 m "0x45" IPPROTO_UDP src "of_le (to_be32 get_local_ip)" LOCAL_PORT e]
    by (simp add: arrived_def client_frame_def)
  then have "poll_port e M [m] s0 = Inr u"
    using u(1) run visit_eq by simp
  ultimately show ?thesis using u(2,3,5) t(2) s2(1) by (intro exI [of _ u] exI [of _ c] exI [of _ heads]) simp
qed

end
