(* ===== verification/Boot_Examples.thy ===== *)
theory Boot_Examples
  imports Boot Request_Examples
begin

text \<open>
  Start-up with two addresses, the first request, and a visit that brings a request, a reply, an
  ARP packet and a frame of another protocol; a request in any state, and a reply to one who waits.
\<close>

section \<open>A request in any state\<close>

lemma ex_client_frame:
  assumes "mbufs s m = Some (ex_packet crid ks)" "arp_lookup_mac s client_ip = Some client_mac"
  shows "client_frame s m client_ip"
proof -
  have "ipv4_frame s m 0x45 IPPROTO_UDP client_ip (of_le (to_be32 get_local_ip)) LOCAL_PORT"
    unfolding ipv4_frame_def
    by (intro exI [of _ "ex_packet crid ks"]) (simp add: assms(1) ex_packet_def ex_request_def IPPROTO_UDP_def)
  then show ?thesis using assms(2) by (simp add: client_frame_def target_ip_value client_ip_def)
qed

lemma ex_packet_small:
  assumes m: "mbufs s m = Some (ex_packet crid ks)" "m \<noteq> memcached_pkt s" "m \<noteq> 0" "\<not> held e s m"
    and ks: "ks \<noteq> []" "list_all key_text ks" "keys_len ks \<le> 70" and client: "arp_lookup_mac s client_ip = Some client_mac"
  shows "small_request e s m crid ks"
proof -
  have short: "length (spaced ks) \<le> 70" using ks(3) by (simp add: keys_len_def length_spaced)
  have at: "request_at s m crid (str ''gets'' @ spaced ks) []" by (rule ex_packet_request [OF m(1) short])
  have "waiting s m (ex_packet crid ks) crid client_ip client_mac"
    by (rule request_waiting [OF ex_client_frame [OF m(1) client] at m(1) client _ m(3)]) simp
  then have "can_wait s m" unfolding can_wait_def by blast
  moreover have "length (mb_data (ex_packet crid ks)) = 56 + length (spaced ks)" "mb_next (ex_packet crid ks) = 0"
    by (simp_all add: ex_packet_def ex_request_def)
  ultimately show ?thesis
    using m ks short at ex_packet_len [OF short, of crid]
    by (auto simp: small_request_def copyable_def unlinked_def RTE_PKTMBUF_HEADROOM_def SMALL_MBUFS_SIZE_def)
qed

definition ex_one :: "ref_table app_state" where "ex_one = ex_asked 7 [str ''ab'']"

lemma ex_one_nobody: "hash_lookup_data copy_env (client_pkts ex_one) k = None"
  by (simp add: ex_one_def)

lemma ex_one_ready: "ready copy_env server_mac 1 ex_one"
  using no_waiters(2) [of copy_env ex_one, OF ex_one_nobody]
  by (simp add: ready_def equipped_def ex_one_def ex_asked_ok NUM_SMALL_MBUFS_def)

lemma ex_one_request: "small_request copy_env ex_one 0x1000 7 [str ''ab'']"
proof -
  have "arp_lookup_mac ex_one client_ip = Some client_mac" by (rule ex_lookup(2)) (simp add: ex_one_def)
  moreover have "mbufs ex_one 0x1000 = Some (ex_packet 7 [str ''ab''])" "memcached_pkt ex_one = 0x2000" by (simp_all add: ex_one_def)
  moreover have "\<not> held copy_env ex_one 0x1000" using no_waiters(1) ex_one_nobody by metis
  ultimately show ?thesis by (intro ex_packet_small) (simp_all add: key_text_def MAX_KEY_LENGTH_def)
qed

theorem client_request_served_witness:
  "\<exists>s'. app_client_in copy_env 0x1000 34 client_ip ex_one = Inr s' \<and> ready copy_env server_mac 0 s'"
proof -
  have start: "request_text_len (ukeys ex_one) = 4" by (simp add: ex_one_def request_text_len_def GETS_LEN_def)
  have short: "request_text_len (ukeys u) \<le> 7" if "client_key copy_env 0x1000 0 (str ''ab'') ex_one = Inr u" for u
  proof -
    have i: "in_service copy_env server_mac 0x1000 (Suc 0) ex_one" "0 = 0 \<longrightarrow> unlinked copy_env ex_one 0x1000"
      using ex_one_ready ex_one_request by (simp_all add: in_service_def small_request_def)
    have "\<not> brimful ex_one" using start by (simp add: brimful_def)
    moreover have "key_ok (str ''ab'')" "length (str ''ab'') \<le> 1400" by (simp_all add: key_ok_def MAX_KEY_LENGTH_def)
    ultimately obtain t where "client_key copy_env 0x1000 0 (str ''ab'') ex_one = Inr t"
      "request_text_len (ukeys t) \<le> request_text_len (ukeys ex_one) + Suc (length (str ''ab''))"
      using client_key_served [OF copy_env_oks i] by blast
    then show ?thesis using that start by simp
  qed
  have "request_text_len (ukeys u) \<noteq> MAX_PAYLOAD_LEN"
    if "[str ''ab''] = pre @ post" "client_keys copy_env 0x1000 0 pre ex_one = Inr u" for pre post u
  proof (cases pre)
    case Nil
    then show ?thesis using that start by simp
  next
    case (Cons k ks)
    then have "pre = [str ''ab'']" using that(1) by simp
    then have "client_key copy_env 0x1000 0 (str ''ab'') ex_one = Inr u"
      using that(2) by (cases "client_key copy_env 0x1000 0 (str ''ab'') ex_one") simp_all
    from short [OF this] show ?thesis by simp
  qed
  then show ?thesis
    using client_request_served [OF copy_env_oks _ ex_one_request, of server_mac client_ip] ex_one_ready by fastforce
qed

section \<open>Pools\<close>

text \<open>The first free address; a buffer of the large pool is filled up to its size.\<close>

definition fill_room :: "mempool \<Rightarrow> byte list \<Rightarrow> byte list" where
  "fill_room pool d = (case pool of Small_mbuf_pool \<Rightarrow> d
     | Mbuf_pool \<Rightarrow> take RTE_MBUF_DEFAULT_DATAROOM (d @ replicate RTE_MBUF_DEFAULT_DATAROOM 0))"

definition pool_copy :: "mempool \<Rightarrow> u64 \<Rightarrow> (u64 \<Rightarrow> mbuf option) \<Rightarrow> u64 \<times> (u64 \<Rightarrow> mbuf option)" where
  "pool_copy pool m M =
     (case M m of None \<Rightarrow> (0, M)
      | Some b \<Rightarrow> (case find (\<lambda>c. M c = None) (map word_of_nat [1..<NUM_MBUFS + 1]) of
           None \<Rightarrow> (0, M)
         | Some c \<Rightarrow> (c, M(c := Some (b\<lparr>mb_next := 0, mb_data := fill_room pool (mb_data b)\<rparr>)))))"

definition boot_env :: "ref_table app_env" where
  "boot_env = ref_env\<lparr>pktmbuf_copy := pool_copy, chain_fuel := NUM_SMALL_MBUFS\<rparr>"

lemma pool_copies:
  assumes "M m = Some b" "finite (dom M)" "card (dom M) < NUM_MBUFS"
  shows "\<exists>c. pool_copy pool m M = (c, M(c := Some (b\<lparr>mb_next := 0, mb_data := fill_room pool (mb_data b)\<rparr>))) \<and> c \<noteq> 0 \<and> M c = None"
proof -
  obtain c where "find (\<lambda>c. M c = None) (map word_of_nat [1..<NUM_MBUFS + 1]) = Some c" "M c = None" "c \<noteq> 0"
    using free_address [OF assms(2,3)] by (auto simp: NUM_MBUFS_def simp del: upt_Suc)
  then show ?thesis using assms(1) by (intro exI [of _ c]) (simp add: pool_copy_def del: upt_Suc)
qed

lemma boot_env_oks: "unformat_ok boot_env" "tx_live boot_env" "hash_ok boot_env" "small_copies boot_env"
proof -
  show "unformat_ok boot_env" "tx_live boot_env" "hash_ok boot_env"
    using ref_oks by (simp_all add: boot_env_def unformat_ok_def tx_live_def hash_ok_def hash_keys_def)
  have "\<exists>c b'. pool_copy Small_mbuf_pool m M = (c, M(c := Some b')) \<and> c \<noteq> 0 \<and> M c = None \<and>
      mb_next b' = 0 \<and> take n (mb_data b') = take n (mb_data b)"
    if h: "M m = Some b" "finite (dom M)" "card (dom M) < NUM_SMALL_MBUFS" for M m b n
  proof -
    have "card (dom M) < NUM_MBUFS" using h(3) by (simp add: NUM_SMALL_MBUFS_def NUM_MBUFS_def)
    from pool_copies [OF h(1,2) this, of Small_mbuf_pool] show ?thesis
      by (elim exE, intro exI [of _ "b\<lparr>mb_next := 0\<rparr>"] exI) (auto simp: fill_room_def)
  qed
  then show "small_copies boot_env" unfolding small_copies_def by (simp add: boot_env_def)
qed

lemma boot_env_full: "full_copies boot_env"
  unfolding full_copies_def
proof (intro allI impI)
  fix M :: "u64 \<Rightarrow> mbuf option" and m b
  assume h: "M m = Some b" "unat (mb_pkt_len b) \<le> length (mb_data b)" "unat (mb_pkt_len b) \<le> RTE_MBUF_DEFAULT_DATAROOM"
    "finite (dom M)" "card (dom M) < NUM_MBUFS"
  let ?b = "b\<lparr>mb_next := 0, mb_data := fill_room Mbuf_pool (mb_data b)\<rparr>"
  have "length (mb_data ?b) = RTE_MBUF_DEFAULT_DATAROOM" "take (unat (mb_pkt_len b)) (mb_data ?b) = take (unat (mb_pkt_len b)) (mb_data b)"
    using h(2,3) by (simp_all add: fill_room_def min_def)
  moreover obtain c where "pool_copy Mbuf_pool m M = (c, M(c := Some ?b))" "c \<noteq> 0" "M c = None"
    using pool_copies [OF h(1,4,5), of Mbuf_pool] by blast
  ultimately show "\<exists>c b'. pktmbuf_copy boot_env Mbuf_pool m M = (c, M(c := Some b')) \<and> c \<noteq> 0 \<and> M c = None \<and>
      length (mb_data b') = RTE_MBUF_DEFAULT_DATAROOM \<and>
      take (unat (mb_pkt_len b)) (mb_data b') = take (unat (mb_pkt_len b)) (mb_data b)"
    by (intro exI [of _ c] exI [of _ ?b]) (simp add: boot_env_def)
qed

lemma boot_env_fuel: "NUM_SMALL_MBUFS \<le> chain_fuel boot_env"
  by (simp add: boot_env_def)

section \<open>A reply to one who waits\<close>

lemma ex_waiting_held: "held boot_env ex_waiting a \<longleftrightarrow> a = 0x1000" "waiters boot_env ex_waiting"
proof -
  have l: "hash_lookup_data boot_env (client_pkts ex_waiting) k = (if k = signature 0 (str ''ab'') then Some (5, 0x1000) else None)" for k
    by (simp add: boot_env_def)
  let ?sig = "signature 0 (str ''ab'')"
  have sig: "hash_lookup_data boot_env (client_pkts ex_waiting) ?sig = Some (5, 0x1000)" unfolding l by (rule if_P [OF refl])
  have only: "head = 0x1000" if "hash_lookup_data boot_env (client_pkts ex_waiting) k = Some (pos, head)" for k pos head
    using that unfolding l by (simp split: if_splits)
  have c: "ws = [(0x1000, 7, client_ip, client_mac)]" if "chain ex_waiting 0x1000 ws" for ws
    by (rule chain_unique [OF that ex_waiting_chain])
  have held: "held boot_env ex_waiting a \<longleftrightarrow> a = 0x1000" for a
  proof
    assume "held boot_env ex_waiting a"
    then obtain k pos head ws where h: "hash_lookup_data boot_env (client_pkts ex_waiting) k = Some (pos, head)"
      "chain ex_waiting head ws" "a \<in> fst ` set ws" unfolding held_def by blast
    have "ws = [(0x1000, 7, client_ip, client_mac)]" using h(2) unfolding only [OF h(1)] by (rule c)
    then show "a = 0x1000" using h(3) by simp
  next
    have "0x1000 \<in> fst ` set [(0x1000 :: u64, 7 :: u16, client_ip, client_mac)]" by simp
    then show "held boot_env ex_waiting a" if "a = 0x1000"
      using sig ex_waiting_chain unfolding held_def that by blast
  qed
  then show "held boot_env ex_waiting a \<longleftrightarrow> a = 0x1000" .
  have "memcached_pkt ex_waiting = 0x2000" by (simp add: ex_waiting_def)
  then have "\<not> held boot_env ex_waiting (memcached_pkt ex_waiting)" by (simp add: held)
  then show "waiters boot_env ex_waiting" using ex_waiting_chain only unfolding waiters_def by blast
qed

lemma ex_waiting_ready: "ready boot_env server_mac 0 ex_waiting"
proof -
  have "signature 0 (str ''ab'') \<in> (\<lambda>_. signature 0 (str ''ab'')) ` {..<MAP_ENTRIES}"
    by (rule image_eqI [of _ _ 0]) (simp_all add: MAP_ENTRIES_def)
  then have "lru_inv boot_env ex_waiting"
    by (simp add: lru_inv_def hash_keys_def boot_env_def ex_waiting_def subset_iff del: str_simps) (simp add: MAP_ENTRIES_def)
  moreover have "server_ready ex_waiting server_mac"
    using ex_idle_ready by (subst server_ready_other [of _ ex_idle]) (simp_all add: ex_waiting_def)
  moreover have "group_inv ex_waiting"
    using ex_idle_group by (subst same_group_transfer(2) [of ex_idle]) (simp_all add: same_group_def ex_waiting_def)
  moreover have "finite (dom ex_heap)" "card (dom ex_heap) = 3" by (simp_all add: ex_heap_def)
  ultimately show ?thesis
    using ex_waiting_held(2) by (simp add: ready_def equipped_def NUM_SMALL_MBUFS_def) (simp add: ex_waiting_def)
qed


section \<open>Start-up\<close>

definition ex_addresses :: "(u32 \<times> byte list) list" where
  "ex_addresses = [(ip_str_to_int TARGET_IP, server_mac), (client_ip, client_mac)]"

lemma ex_addresses_ok: "\<forall>p \<in> set ex_addresses. length (snd p) = 6" "length ex_addresses \<le> ARP_ENTRIES_COUNT"
  "map_of ex_addresses (ip_str_to_int TARGET_IP) = Some server_mac" "map_of ex_addresses client_ip = Some client_mac"
  by (simp_all add: ex_addresses_def ARP_ENTRIES_COUNT_def target_ip_value client_ip_def)

lemma ex_boot:
  obtains s where "main_init boot_env ex_device (Some (map arp_line ex_addresses)) (\<lambda>_. None) = Inr s"
    "memcached_pkt s = 0" "ukeys s = []" "arp_lookup_mac s client_ip = Some client_mac" "client_pkts s = hash_create boot_env"
proof -
  have "\<forall>l \<in> set (map arp_line ex_addresses). 32 \<in> set l" by (auto simp: ex_addresses_def arp_line_def)
  then obtain s where s: "main_init boot_env ex_device (Some (map arp_line ex_addresses)) (\<lambda>_. None) = Inr s"
    using main_init_succeeds [of boot_env ex_device "Some (map arp_line ex_addresses)" "\<lambda>_. None"] ex_device_init
    by (auto simp: list_all_iff ex_device_def)
  moreover have "memcached_pkt s = 0" "ukeys s = []"
    using main_init_frame [OF s] by (auto simp: init_state_def ukeys_def)
  moreover have "arp_lookup_mac s client_ip = Some client_mac"
    using main_init_addresses [OF boot_env_oks(1) s ex_addresses_ok(1,2), of client_ip] ex_addresses_ok(4)
    by (simp add: client_ip_def)
  moreover have "client_pkts s = hash_create boot_env" using main_init_frame [OF s] by (auto simp: init_state_def)
  ultimately show thesis by (rule that)
qed

definition ex_heap_boot :: "u64 \<Rightarrow> mbuf option" where
  "ex_heap_boot = [0x1000 \<mapsto> ex_packet 7 ex_keys2, 0x3000 \<mapsto> ex_reply 0 0 1 (str ''VALUE ab 0 1''),
     0x4000 \<mapsto> ex_mbuf (replicate 12 0 @ [0x86, 0xDD]),
     0x5000 \<mapsto> ex_mbuf (replicate 12 0 @ to_be16 ETHER_TYPE_ARP @ replicate 6 0 @ to_be16 ARP_OP_REQUEST @
       client_mac @ to_be32 client_ip @ replicate 6 0 @ to_be32 get_local_ip)]"

definition ex_visit :: "arrival list" where
  "ex_visit = [Request 0x1000 client_ip 7 ex_keys2, Reply 0x3000, Stray 0x4000, Arp 0x5000]"

lemma ex_reply_frame:
  assumes "mbufs s m = Some (ex_reply 0 0 1 (str ''VALUE ab 0 1''))"
  shows "reply_frame s m"
proof -
  have "reply_at s m 0 0 1 [0, 0] (str ''VALUE ab 0 1'') [0]" by (rule ex_reply_at [OF assms]) simp_all
  moreover have "reply_text (str ''VALUE ab 0 1'') [0]"
    unfolding reply_text_def
    by (intro disjI1 exI [of _ "str ''ab''"] exI [of _ "str ''0 1''"]) (use ex_key in simp)
  moreover have "ipv4_frame s m 0x45 IPPROTO_UDP (ip_str_to_int TARGET_IP) (of_le (to_be32 get_local_ip)) LOCAL_PORT"
    unfolding ipv4_frame_def
    by (intro exI [of _ "ex_reply 0 0 1 (str ''VALUE ab 0 1'')"]) (simp add: assms ex_reply_def IPPROTO_UDP_def)
  moreover have "unat (0 :: u16) < MAX_REQ_ID" by (simp add: MAX_REQ_ID_def)
  ultimately show ?thesis unfolding reply_frame_def by blast
qed

lemma ex_visit_ok:
  assumes "memcached_pkt s = 0" "ukeys s = []" "arp_lookup_mac s client_ip = Some client_mac" "client_pkts s = hash_create boot_env"
  shows "visit_ok boot_env server_mac s ex_heap_boot ex_visit"
    "visit_ok boot_env server_mac s ex_heap_boot [Request 0x1000 client_ip 7 ex_keys2]"
proof -
  let ?s = "s\<lparr>mbufs := ex_heap_boot\<rparr>"
  have "hash_lookup_data boot_env (client_pkts ?s) k = None" "hash_lookup_data boot_env (client_pkts s) k = None" for k
    using hash_create_lookup [OF boot_env_oks(3)] by (simp_all add: assms(4))
  then have free: "\<not> held boot_env ?s a" "\<not> held boot_env s a" for a using no_waiters(1) by blast+
  have M: "mbufs ?s 0x1000 = Some (ex_packet 7 ex_keys2)" by (simp add: ex_heap_boot_def)
  have arp: "arp_lookup_mac ?s client_ip = Some client_mac" using assms(3) by (simp add: arp_lookup_mac_def)
  have "small_request boot_env ?s 0x1000 7 ex_keys2"
    by (rule ex_packet_small [OF M _ _ free(1) _ _ _ arp])
      (use assms(1) in \<open>simp_all add: ex_keys2_def key_text_def MAX_KEY_LENGTH_def\<close>)
  then have req: "arrived boot_env ?s (Request 0x1000 client_ip 7 ex_keys2)"
    using ex_client_frame [OF M arp] free(1) assms(1) by (simp add: arrived_def)
  have "reply_frame ?s 0x3000" by (rule ex_reply_frame) (simp add: ex_heap_boot_def)
  then have reply: "arrived boot_env ?s (Reply 0x3000)" using free(1) assms(1) by (simp add: arrived_def)
  have "rd_be16 12 (replicate 12 0 @ [0x86, 0xDD :: byte]) = Inr 0x86DD" by (simp add: rd_be16_def rd_def of_be_def)
  then have "stray_frame ?s 0x4000"
    unfolding stray_frame_def
    by (intro disjI1 exI [of _ "ex_mbuf (replicate 12 0 @ [0x86, 0xDD])"] exI [of _ "0x86DD"])
      (simp add: ex_heap_boot_def ETHER_TYPE_ARP_def ETHER_TYPE_IPV4_def)
  then have stray: "arrived boot_env ?s (Stray 0x4000)" using free(1) assms(1) by (simp add: arrived_def)
  have "arp_frame ?s 0x5000"
    unfolding arp_frame_def
    by (rule exI [of _ "the (ex_heap_boot 0x5000)"], rule exI [of _ "replicate 12 0 @ to_be16 ETHER_TYPE_ARP"],
      rule exI [of _ "replicate 6 0"], rule exI [of _ ARP_OP_REQUEST], rule exI [of _ client_mac], rule exI [of _ "to_be32 client_ip"],
      rule exI [of _ "replicate 6 0"], rule exI [of _ get_local_ip], rule exI [of _ "[]"])
      (simp add: ex_heap_boot_def rd_be16_def rd_def)
  then have "arrived boot_env ?s (Arp 0x5000)" using free(1) assms(1) by (simp add: arrived_def)
  moreover have "finite (dom ex_heap_boot)" "card (dom ex_heap_boot) = 4" by (simp_all add: ex_heap_boot_def)
  ultimately show "visit_ok boot_env server_mac s ex_heap_boot ex_visit"
      "visit_ok boot_env server_mac s ex_heap_boot [Request 0x1000 client_ip 7 ex_keys2]"
    using req reply stray free(2) assms(1,2)
    by (simp_all add: visit_ok_def ex_visit_def NUM_SMALL_MBUFS_def BURST_SIZE_def request_text_len_def GETS_LEN_def ex_keys2_def)
qed

lemma no_heap: "finite (dom (\<lambda>_ :: u64. None :: mbuf option))" "card (dom (\<lambda>_ :: u64. None :: mbuf option)) < NUM_SMALL_MBUFS"
  by (simp_all add: dom_def NUM_SMALL_MBUFS_def)


theorem first_request_sent_witness:
  "\<exists>s t c. main_init boot_env ex_device (Some (map arp_line ex_addresses)) (\<lambda>_. None) = Inr s \<and>
     poll_port boot_env ex_heap_boot [0x1000] s = Inr t \<and> calls (trace t) = [Refcnt c 1, Tx c (request_frame boot_env server_mac 0 ex_keys2)]"
proof -
  obtain s where s: "main_init boot_env ex_device (Some (map arp_line ex_addresses)) (\<lambda>_. None) = Inr s"
    "memcached_pkt s = 0" "ukeys s = []" "arp_lookup_mac s client_ip = Some client_mac"
    "client_pkts s = hash_create boot_env" by (rule ex_boot)
  have b: "ex_heap_boot 0x1000 = Some (ex_packet 7 ex_keys2)" by (simp add: ex_heap_boot_def)
  have ks: "distinct ex_keys2" "length (spaced ex_keys2) \<le> 70" by (simp_all add: ex_keys2_def)
  have p: "mb_next (ex_packet 7 ex_keys2) = 0" "56 + length (spaced ex_keys2) \<le> unat (mb_pkt_len (ex_packet 7 ex_keys2))"
    unfolding ex_packet_len [OF ks(2)] by (simp_all add: ex_packet_def ex_request_def)
  have ip: "client_ip \<noteq> 0" "(0x1000 :: u64) \<noteq> 0" by (simp_all add: client_ip_def)
  from first_request_sent [OF boot_env_oks boot_env_full s(1) no_heap ex_addresses_ok(1-3) ex_visit_ok(2) [OF s(2-5)] ks(1) ip(2)
      ex_addresses_ok(4) ip(1) b p] s(1)
  show ?thesis by blast
qed

end
