(* ===== verification/Spec2Isabelle.thy ===== *)
theory Spec2Isabelle
  imports Behaviour Examples Map_Behaviour Map_Examples Client_Network Client_Examples Test_Server
    Old_Behaviour Old_Invariant Old_Examples Old_Client Packet_Text Requests Request_Examples Sharing Sharing_Examples End_To_End End_Examples
    Waiters Service Replies Polling Boot Boot_Examples
begin

text \<open>
  A verification development for the kernel-bypass memcached middlebox of this repository
  (\<open>middlebox/src\<close>, C on DPDK).

  The program. The middlebox sits between clients and a memcached server and speaks UDP on raw
  Ethernet frames. It merges the keys of many clients' \<open>gets\<close> requests into one request per
  frame, remembers who asked for which key, and steers each reply back to every client that
  asked. A single thread polls the device, hands each frame through \<open>eth_in\<close>,
  \<open>ip_in\<close>, \<open>udp_in\<close> to \<open>app_client_in\<close> or \<open>app_server_in\<close>, and sends
  by rewriting a received buffer through \<open>app_send\<close>, \<open>udp_send\<close>, \<open>ip_out\<close>,
  \<open>eth_out\<close>. \<open>refresh_backlog\<close> runs before every frame.

  Theories, in the order the code calls downwards:

  \<^item> \<open>Prelude\<close>: machine integers, faults as values (\<open>fault + 'a\<close>), bounds-checked
    byte memory. \<open>Codec\<close>: integers in network and host order, as a locale of field codecs
    interpreted for 16, 32 and 64 bits. \<open>C_Strings\<close>: C strings, \<open>%d\<close>, \<open>%hhu\<close>.
  \<^item> \<open>Utils\<close>, \<open>Packet_Text\<close>: \<open>utils.c\<close>. \<open>Packet\<close>: buffers, the state the layers share, and the
    output side of \<open>eth.c\<close>. \<open>Arp\<close>: \<open>arp.c\<close>. \<open>Ip\<close>: the output side of
    \<open>ip.c\<close>. \<open>Udp\<close>: the output side of \<open>udp.c\<close>.
  \<^item> \<open>Payload\<close> and \<open>Keys\<close>: the helpers of \<open>api.c\<close> that read and write the
    memcached frame and its text. \<open>App_State\<close>: the static variables of \<open>api.c\<close>.
    \<open>Group\<close>: \<open>insert_ukey_group\<close>, \<open>construct_pkt_and_send_to_server\<close>.
    \<open>Api\<close>: \<open>app_client_in\<close>, \<open>app_server_in\<close>, \<open>refresh_backlog\<close>, each
    cut at its loops and variables into definitions of the order of the code.
  \<^item> \<open>Middlebox\<close>: the receive path, start-up (\<open>main\<close>, \<open>port_init\<close>), the main loop
    as an inductive relation between the states before each visit to a port.
  \<^item> \<open>Invariants\<close>: the group of waiting keys through every handler. \<open>Steering\<close>: frames
    on the wire. \<open>Clients\<close>: the table of clients and its queue. \<open>Behaviour\<close>: the
    properties of whole handlers. \<open>Requests\<close>: requests of several keys, their packets' copies
    and replies in any order; \<open>Request_Examples\<close> applies its properties. \<open>Sharing\<close>: several
    clients that ask for one key, up to the reply to all; \<open>Sharing_Examples\<close>: two of them.
    \<open>Waiters\<close>: the chains of packets the table of clients leads to. \<open>Service\<close>, \<open>Replies\<close>: any
    request of ordinary size and any reply in any state the invariants allow. \<open>Polling\<close>: a burst
    of requests, replies and other frames, and visit after visit to a port from start-up on.
    \<open>Boot\<close>: the first request; \<open>Boot_Examples\<close>: a start-up, a first burst, a reply.
    \<open>Reference_Env\<close> and \<open>Examples\<close>: a concrete device,
    hash table and network at which every property is applied.
  \<^item> The code under \<open>deprecated\<close>: \<open>Hash_Map\<close>: \<open>map.c\<close>. \<open>Hash_Table\<close>,
    \<open>Hash_Invariant\<close>, \<open>Hash_Growth\<close>, \<open>Hash_Ops\<close>: probing, the list in order of
    insertion, growing, and each operation. \<open>Ordered_Map\<close>: what a map promises.
    \<open>Dyn_Array\<close>: \<open>dynamic_array.c\<close>. \<open>Processing\<close>, \<open>Client_Tables\<close>: \<open>processing.c\<close>
    and its tables of clients. \<open>Map_Behaviour\<close>, \<open>Map_Examples\<close>: the properties and concrete
    maps. \<open>Old_Api\<close>: \<open>api.c\<close> on these tables and the network layers of the middlebox;
    \<open>Old_Behaviour\<close>: which frames its handlers send. \<open>Old_Invariant\<close>: its tables and its
    group of keys through any sequence of packets. \<open>Old_Examples\<close>: concrete packets.
    \<open>Test_Server\<close>: \<open>server.cpp\<close>.
  \<^item> \<open>Sockets\<close>: addresses from text, the socket calls, and the set-up the three clients
    share. \<open>Bursts\<close>: their main loops. \<open>Load_Client\<close>: \<open>client/client.cpp\<close> and \<open>rand_client/client.cpp\<close>.
    \<open>Old_Client\<close>: \<open>client/old_client.cpp\<close>. \<open>Client_Behaviour\<close>: what a client sends and how it
    waits. \<open>Client_Network\<close>: the whole programs, and the frames between them and the middlebox.
    \<open>Client_Examples\<close>: concrete runs. \<open>End_To_End\<close>, \<open>End_Examples\<close>: a request of the random
    client through the middlebox, and its replies back to what the client shows.

  State and faults. A packet buffer is its data room and header fields at an address of a heap;
  pointers into a packet are offsets. The static variables are one record. An index outside an
  array or a buffer, a read of an uninitialised array, a NULL dereference, a failed
  \<open>assert\<close>, \<open>exit\<close> and a wait without end are faults: the result \<open>Inl\<close>. C
  undefined behaviour ends the run there; nothing is said about what follows it.

  What the program does not contain is a parameter. \<open>net_env\<close> holds the device, the checksum
  routine and the address parser; \<open>app_env\<close> adds packet copies, \<open>rte_hash\<close> and the
  clock; \<open>device_env\<close> the set-up calls. What is used of them are named hypotheses:
  \<open>unformat_ok\<close> (the parser inverts the documented text form), \<open>cksum_ok\<close> (ones'
  complement sum), \<open>tx_live\<close> (the device takes a packet after at most \<open>tx_fuel\<close>
  refusals), \<open>hash_ok\<close> (lookup after add and delete; positions below the capacity, one per
  key; room while fewer than that many keys are stored), \<open>small_copies\<close> (a packet that fits
  one buffer of the small pool is copied into one new buffer while the pool has any),
  \<open>full_copies\<close> (the same of the large pool, whose buffers hold 2048 bytes). DPDK's
  constants, header layouts and the macro \<open>RTE_IPV4\<close> are written out. Releases and reference counts are events of the
  trace, so that how often a buffer is released is a fact about the trace; the buffer pool itself
  is not modelled, nor is what the device does with a buffer after sending it.

  Fuel. \<open>tx_fuel\<close> bounds the transmit loop: under \<open>tx_live\<close> it is enough, and
  without it the loop provably never ends. \<open>chain_fuel\<close> bounds the walk along a chain of
  waiting packets: it is enough for every chain no longer than it. Some properties assume that of
  a chain; those about any state the invariants allow only ask for \<open>NUM_SMALL_MBUFS\<close> steps, as a
  chain never returns to itself (\<open>chain_distinct\<close>) and so is no longer than the heap. The probing loops of \<open>map.c\<close> get \<open>capacity\<close> steps, after which they have
  seen every bucket and repeat themselves; the loop of \<open>hashmap_resize\<close> gets as many steps as
  there are old buckets. Both are proved enough in every well-formed map. A map is followed
  through \<open>put_limit\<close>, 2^29 - 1, sets: beyond that \<open>capacity\<close>, an \<open>int\<close>, may overflow;
  \<open>old_reach\<close> counts requests, each of at most \<open>MAX_KEY_PER_PACKET\<close> keys, against that
  bound. All other loops are structural or end by a measure.

  What the lemma groups show. Codecs and byte memory: reads after writes. \<open>udp_send_ok\<close>,
  \<open>app_send_to_server\<close>, \<open>app_send_to_client\<close>: the exact frame sent, although the
  parameters travel in structs laid over the headers. \<open>group_inv\<close>: distinct keys that fit
  one request, hence at most 571 of the 600 places. \<open>lru_inv\<close>: every registered signature
  has a place in the queue, hence registration always finds room. \<open>handler_loop\<close>: what one
  handler keeps, the main loop keeps; interpreted for both invariants. \<open>prepared\<close>: all a request
  needs to be served, before (\<open>idle\<close>) or after (\<open>ready\<close>) the middlebox has a packet of its own. It
  includes \<open>waiters\<close>: every signature leads to a chain of packets that can wait; the driver is taken
  not to reuse a packet the table still leads to (\<open>visit_ok\<close>). Each frame of a burst keeps it and
  leaves the frames behind it as they arrived. \<open>chain\<close>: the list of clients a chain of buffers
  stands for.

  \<open>key_table\<close> is the interface between a map and the keys its pointers lead to: how a bucket is
  identified, and when a lookup asks for one. It is interpreted twice: keys told apart by their
  bytes (\<open>Hash_Ops\<close>), and, as \<open>processing.c\<close> stores the address of one shared buffer in every
  entry, keys told apart by their hash alone (\<open>Processing\<close>). \<open>ordered_map\<close> states what a map
  promises of single operations, and derives that any sequence of the seven operations answers
  as an association list in order of insertion; \<open>map.c\<close> is its interpretation.
  \<open>request_bursts\<close> is a client that sends a burst and waits for a number of replies: where each
  request of a run goes, what is shown, and when it ends, proved once and interpreted for the
  three clients. Sizes, allocators and addresses the deprecated code was built with are not in the repository and are parameters
  (\<open>alloc_ok\<close>: memory is granted while few blocks are in use; \<open>sizes_ok\<close>: the arrays fit the
  keys), as are \<open>rand\<close>, the results of the socket calls, the datagrams that arrive with their
  senders, and the words of the key file for the clients. \<open>sender\<close> is where a datagram came from:
  \<open>recvfrom\<close> stores it where the next request goes.

  Not modelled: printing (but for \<open>pkt_dump\<close>, which does nothing else, and for the reads a
  print makes), \<open>srand\<close> and the pauses between requests, \<open>hashmap_free\<close> (never called), scripts
  and tests.
\<close>

end
